(* ===== verification/Prelude.thy ===== *)
theory Prelude
  imports Main "HOL-Library.Word" "HOL-Library.AList" "HOL-Library.Char_ord"
    "HOL-Library.List_Lexorder" "HOL-Library.Multiset"
begin

text \<open>
  The part of the JavaScript language and its standard library that the simulation under
  web/src uses, and the generic lemmas its components share:
  \<^item> the 32-bit operators of JavaScript numbers (ToInt32, ToUint32, the shifts and the
    bitwise operators), over exact integers;
  \<^item> thrown errors as values of a sum type, with the loop \<open>map_throw\<close> that stops at the
    first error;
  \<^item> \<open>Map\<close> as an association list in insertion order, \<open>Set\<close> as a distinct list in
    insertion order, \<open>Array.prototype.sort\<close> as a stable insertion sort driven by the
    comparator;
  \<^item> number and string conversions.
  A byte array is a list of \<open>8 word\<close>, a string is a \<open>string\<close> of code units below 256.
\<close>

unbundle bit_operations_syntax

named_theorems js_bits \<open>how the JavaScript operators act on the 32-bit value of a number\<close>

named_theorems inv_intros \<open>preservation of the component invariants\<close>

type_synonym bytes = "8 word list"

type_synonym u32 = "32 word"

abbreviation w32 :: "int \<Rightarrow> u32" where
  "w32 \<equiv> word_of_int"

section \<open>Numbers\<close>

definition ToUint32 :: "int \<Rightarrow> int" where
  "ToUint32 x = uint (w32 x)"

definition ToInt32 :: "int \<Rightarrow> int" where
  "ToInt32 x = sint (w32 x)"

definition js_and :: "int \<Rightarrow> int \<Rightarrow> int" where
  "js_and x y = ToInt32 x AND ToInt32 y"

definition js_or :: "int \<Rightarrow> int \<Rightarrow> int" where
  "js_or x y = ToInt32 x OR ToInt32 y"

definition js_xor :: "int \<Rightarrow> int \<Rightarrow> int" where
  "js_xor x y = ToInt32 x XOR ToInt32 y"

definition js_not :: "int \<Rightarrow> int" where
  "js_not x = NOT (ToInt32 x)"

text \<open>The shift count is taken modulo 32, as the language does.\<close>

definition js_shl :: "int \<Rightarrow> nat \<Rightarrow> int" where
  "js_shl x n = ToInt32 (push_bit (n mod 32) (ToInt32 x))"

definition js_shru :: "int \<Rightarrow> nat \<Rightarrow> int" where
  "js_shru x n = drop_bit (n mod 32) (ToUint32 x)"

text \<open>Numbers on which double arithmetic is exact (\<open>Number.isSafeInteger\<close>).\<close>

definition safe_integer :: "int \<Rightarrow> bool" where
  "safe_integer x \<longleftrightarrow> \<bar>x\<bar> \<le> 2 ^ 53 - 1"

lemma w32_ToUint32 [js_bits]: "w32 (ToUint32 x) = w32 x"
  by (simp add: ToUint32_def)

lemma w32_ToInt32 [js_bits]: "w32 (ToInt32 x) = w32 x"
  by (simp add: ToInt32_def)

lemma w32_and [js_bits]: "w32 (js_and x y) = w32 x AND w32 y"
  by (simp add: js_and_def of_int_and_eq w32_ToInt32)

lemma w32_or [js_bits]: "w32 (js_or x y) = w32 x OR w32 y"
  by (simp add: js_or_def of_int_or_eq w32_ToInt32)

lemma w32_xor [js_bits]: "w32 (js_xor x y) = w32 x XOR w32 y"
  by (simp add: js_xor_def of_int_xor_eq w32_ToInt32)

lemma w32_not [js_bits]: "w32 (js_not x) = NOT (w32 x)"
  by (simp add: js_not_def of_int_not_eq w32_ToInt32)

lemma w32_shl [js_bits]: "n < 32 \<Longrightarrow> w32 (js_shl x n) = push_bit n (w32 x)"
  by (simp add: js_shl_def w32_ToInt32 of_int_push_bit)

lemma uint_drop_bit: "uint (drop_bit n w) = drop_bit n (uint w)" for w :: u32
  by (rule bit_eqI) (auto simp: bit_simps dest: bit_imp_le_length)

lemma w32_shru [js_bits]: "n < 32 \<Longrightarrow> w32 (js_shru x n) = drop_bit n (w32 x)"
  by (simp add: js_shru_def ToUint32_def flip: uint_drop_bit)

lemma ToUint32_range: "0 \<le> ToUint32 x" "ToUint32 x < 2 ^ 32"
  using uint_lt2p [of "w32 x"] by (simp_all add: ToUint32_def)

lemma ToUint32_id: "0 \<le> x \<Longrightarrow> x < 2 ^ 32 \<Longrightarrow> ToUint32 x = x"
  by (simp add: ToUint32_def unsigned_of_int take_bit_int_eq_self)

lemma ToUint32_eq_iff: "ToUint32 x = ToUint32 y \<longleftrightarrow> w32 x = w32 y"
  by (simp only: ToUint32_def word_uint_eq_iff)

lemma js_shru_range: "0 \<le> js_shru x n" "js_shru x n < 2 ^ 32"
proof -
  have "js_shru x n = uint (drop_bit (n mod 32) (w32 x))"
    by (simp only: js_shru_def ToUint32_def uint_drop_bit)
  then show "0 \<le> js_shru x n" "js_shru x n < 2 ^ 32"
    using uint_lt2p [of "drop_bit (n mod 32) (w32 x)"] by simp_all
qed

text \<open>Every result of a signed operator is a 32-bit two's complement number.\<close>

definition int32 :: "int \<Rightarrow> bool" where
  "int32 x \<longleftrightarrow> - (2 ^ 31) \<le> x \<and> x < 2 ^ 31"

lemma int32_iff_fixed: "int32 x \<longleftrightarrow> signed_take_bit 31 x = x"
  by (simp add: int32_def signed_take_bit_int_eq_self_iff)

lemma int32_ToInt32 [simp]: "int32 (ToInt32 x)"
  by (simp add: int32_iff_fixed ToInt32_def signed_of_int)

lemma signed_take_bit_ops:
  "signed_take_bit n (a AND b) = signed_take_bit n a AND signed_take_bit n b"
  "signed_take_bit n (a OR b) = signed_take_bit n a OR signed_take_bit n b"
  "signed_take_bit n (a XOR b) = signed_take_bit n a XOR signed_take_bit n b"
  "signed_take_bit n (NOT a) = NOT (signed_take_bit n a)" for a b :: int
  by (rule bit_eqI, simp add: bit_simps)+

lemma int32_ops [simp]: "int32 (js_and x y)" "int32 (js_or x y)" "int32 (js_xor x y)"
  "int32 (js_not x)" "int32 (js_shl x n)"
proof -
  have fixed: "signed_take_bit 31 (ToInt32 z) = ToInt32 z" for z
    using int32_ToInt32 [of z] by (simp only: int32_iff_fixed)
  show "int32 (js_and x y)" "int32 (js_or x y)" "int32 (js_xor x y)" "int32 (js_not x)"
    by (simp_all only: int32_iff_fixed js_and_def js_or_def js_xor_def js_not_def
        signed_take_bit_ops fixed)
  show "int32 (js_shl x n)"
    by (simp add: js_shl_def)
qed

section \<open>Thrown errors\<close>

datatype js_error = Error (message: string)

type_synonym 'a throws = "js_error + 'a"

text \<open>\<open>for (const x of xs) out.push(f(x))\<close>, where \<open>f\<close> may throw.\<close>

fun map_throw :: "('a \<Rightarrow> 'b throws) \<Rightarrow> 'a list \<Rightarrow> 'b list throws" where
  "map_throw f [] = Inr []"
| "map_throw f (x # xs) =
     (case f x of
        Inl e \<Rightarrow> Inl e
      | Inr y \<Rightarrow> (case map_throw f xs of Inl e \<Rightarrow> Inl e | Inr ys \<Rightarrow> Inr (y # ys)))"

lemma map_throw_Inr_iff: "map_throw f xs = Inr ys \<longleftrightarrow> list_all2 (\<lambda>x y. f x = Inr y) xs ys"
proof (induction xs arbitrary: ys)
  case (Cons x xs)
  show ?case
    by (cases ys) (auto simp flip: Cons.IH split: sum.splits)
qed auto

lemma map_throw_map: "(\<And>x. x \<in> set xs \<Longrightarrow> f x = Inr (g x)) \<Longrightarrow> map_throw f xs = Inr (map g xs)"
  by (induction xs) auto

lemma map_throw_Inl: "map_throw f xs = Inl e \<Longrightarrow> \<exists>x \<in> set xs. f x = Inl e"
  by (induction xs) (auto split: sum.splits)

text \<open>A statement that may throw, followed by the rest of the block.\<close>

definition throw_bind :: "'a throws \<Rightarrow> ('a \<Rightarrow> 'b throws) \<Rightarrow> 'b throws" where
  "throw_bind x k = (case x of Inl e \<Rightarrow> Inl e | Inr y \<Rightarrow> k y)"

lemma throw_bind_simps [simp]: "throw_bind (Inl e) k = Inl e" "throw_bind (Inr y) k = k y"
  by (simp_all add: throw_bind_def)

section \<open>Map and Set\<close>

text \<open>
  A JavaScript \<open>Map\<close> iterates in insertion order, and setting a present key keeps its
  place: an association list with distinct keys, written by \<open>AList.update\<close>.
\<close>

type_synonym ('k, 'v) js_map = "('k \<times> 'v) list"

abbreviation map_get :: "('k, 'v) js_map \<Rightarrow> 'k \<Rightarrow> 'v option" where
  "map_get \<equiv> map_of"

abbreviation map_set :: "'k \<Rightarrow> 'v \<Rightarrow> ('k, 'v) js_map \<Rightarrow> ('k, 'v) js_map" where
  "map_set \<equiv> AList.update"

definition map_has :: "('k, 'v) js_map \<Rightarrow> 'k \<Rightarrow> bool" where
  "map_has m k = (map_of m k \<noteq> None)"

definition map_keys :: "('k, 'v) js_map \<Rightarrow> 'k list" where
  "map_keys m = map fst m"

definition map_values :: "('k, 'v) js_map \<Rightarrow> 'v list" where
  "map_values m = map snd m"

text \<open>\<open>new Map(entries)\<close>.\<close>

definition map_new :: "('k \<times> 'v) list \<Rightarrow> ('k, 'v) js_map" where
  "map_new es = foldl (\<lambda>m (k, v). map_set k v m) [] es"

abbreviation map_wf :: "('k, 'v) js_map \<Rightarrow> bool" where
  "map_wf m \<equiv> distinct (map fst m)"

definition set_add :: "'a \<Rightarrow> 'a list \<Rightarrow> 'a list" where
  "set_add x xs = (if x \<in> set xs then xs else xs @ [x])"

definition set_delete :: "'a \<Rightarrow> 'a list \<Rightarrow> 'a list" where
  "set_delete x xs = filter (\<lambda>y. y \<noteq> x) xs"

lemma set_set_add [simp]: "set (set_add x xs) = insert x (set xs)"
  by (auto simp: set_add_def)

lemma distinct_set_add [simp]: "distinct (set_add x xs) \<longleftrightarrow> distinct xs"
  by (simp add: set_add_def)

lemma set_set_delete [simp]: "set (set_delete x xs) = set xs - {x}"
  by (auto simp: set_delete_def)

lemma distinct_set_delete [simp]: "distinct xs \<Longrightarrow> distinct (set_delete x xs)"
  by (simp add: set_delete_def)

lemma map_has_iff: "map_has m k \<longleftrightarrow> k \<in> fst ` set m"
  by (simp add: map_has_def map_of_eq_None_iff)

lemma map_has_set [simp]: "map_has (map_set k v m) k' \<longleftrightarrow> k' = k \<or> map_has m k'"
  by (simp add: map_has_def update_conv')

lemma length_map_set: "length (map_set k v m) = (if map_has m k then length m else Suc (length m))"
  by (induction m) (auto simp: map_has_def)

lemma map_set_fresh: "\<not> map_has m k \<Longrightarrow> map_set k v m = m @ [(k, v)]"
  by (induction m) (auto simp: map_has_def split: if_splits)

lemma map_of_map_new: "map_of (map_new es) = map_of (rev es)"
proof (induction es rule: rev_induct)
  case Nil
  then show ?case by (simp add: map_new_def)
next
  case (snoc e es)
  then show ?case by (cases e) (auto simp: map_new_def update_conv')
qed

section \<open>Array.prototype.sort\<close>

text \<open>
  A stable insertion sort that asks only whether the comparator is negative, which is all
  the language lets an implementation use of a consistent comparator. Where the comparator
  is a consistent total order on the elements, the result is the only sorted permutation
  (\<open>js_sort_by_key\<close>), so the choice of algorithm does not matter.
\<close>

fun js_insert :: "('a \<Rightarrow> 'a \<Rightarrow> int) \<Rightarrow> 'a \<Rightarrow> 'a list \<Rightarrow> 'a list" where
  "js_insert cmp x [] = [x]"
| "js_insert cmp x (y # ys) = (if cmp x y < 0 then x # y # ys else y # js_insert cmp x ys)"

definition js_sort :: "('a \<Rightarrow> 'a \<Rightarrow> int) \<Rightarrow> 'a list \<Rightarrow> 'a list" where
  "js_sort cmp xs = foldl (\<lambda>acc x. js_insert cmp x acc) [] xs"

text \<open>The default comparator of strings, by code units.\<close>

definition cmp_string :: "string \<Rightarrow> string \<Rightarrow> int" where
  "cmp_string a b = (if a < b then -1 else if b < a then 1 else 0)"

lemma mset_js_insert [simp]: "mset (js_insert cmp x xs) = add_mset x (mset xs)"
  by (induction xs) auto

lemma mset_js_sort [simp]: "mset (js_sort cmp xs) = mset xs"
  by (induction xs rule: rev_induct) (auto simp: js_sort_def)

lemma set_js_sort [simp]: "set (js_sort cmp xs) = set xs"
  by (metis mset_js_sort set_mset_mset)

lemma length_js_sort [simp]: "length (js_sort cmp xs) = length xs"
  by (metis mset_js_sort size_mset)

lemma distinct_js_sort [simp]: "distinct (js_sort cmp xs) = distinct xs"
  by (metis mset_js_sort mset_eq_imp_distinct_iff)

lemma sorted_js_insert:
  fixes key :: "'a \<Rightarrow> 'b::linorder"
  assumes "\<And>y. y \<in> set xs \<Longrightarrow> cmp x y < 0 \<longleftrightarrow> key x < key y"
  shows "sorted (map key xs) \<Longrightarrow> sorted (map key (js_insert cmp x xs))"
  using assms
proof (induction xs)
  case (Cons y ys)
  have set: "set (js_insert cmp x ys) = insert x (set ys)"
    by (metis mset_js_insert set_mset_add_mset_insert set_mset_mset)
  from Cons.prems have "cmp x y < 0 \<longleftrightarrow> key x < key y" by simp
  moreover from Cons have "sorted (map key (js_insert cmp x ys))" by simp
  ultimately show ?case using Cons.prems(1) by (auto simp: set)
qed simp

lemma sorted_js_sort:
  fixes key :: "'a \<Rightarrow> 'b::linorder"
  assumes "\<And>x y. x \<in> set xs \<Longrightarrow> y \<in> set xs \<Longrightarrow> x \<noteq> y \<Longrightarrow> cmp x y < 0 \<longleftrightarrow> key x < key y"
    and "distinct xs"
  shows "sorted (map key (js_sort cmp xs))"
  using assms
proof (induction xs rule: rev_induct)
  case (snoc x xs)
  then have "sorted (map key (js_sort cmp xs))" by simp
  moreover have "\<And>y. y \<in> set (js_sort cmp xs) \<Longrightarrow> cmp x y < 0 \<longleftrightarrow> key x < key y"
    using snoc.prems by auto
  ultimately show ?case
    using sorted_js_insert [of "js_sort cmp xs" cmp x key] by (simp add: js_sort_def)
qed (simp add: js_sort_def)

text \<open>Sorting by a key that separates the elements gives the unique sorted permutation.\<close>

lemma js_sort_by_key:
  fixes key :: "'a \<Rightarrow> 'b::linorder"
  assumes cmp: "\<And>x y. x \<in> set xs \<Longrightarrow> y \<in> set xs \<Longrightarrow> x \<noteq> y \<Longrightarrow> cmp x y < 0 \<longleftrightarrow> key x < key y"
    and dist: "distinct (map key xs)"
  shows "js_sort cmp xs = sort_key key xs"
proof -
  have "distinct xs" using dist by (auto simp: distinct_map)
  with cmp have "sorted (map key (js_sort cmp xs))" by (rule sorted_js_sort)
  moreover have "distinct (map key (js_sort cmp xs))" "distinct (map key (sort_key key xs))"
    using dist by (metis mset_js_sort mset_map mset_eq_imp_distinct_iff,
        metis mset_sort mset_map mset_eq_imp_distinct_iff)
  moreover have "inj_on key (set xs)" using dist by (simp add: distinct_map)
  ultimately show ?thesis
    by (intro map_sorted_distinct_set_unique [of key]) simp_all
qed

section \<open>Numbers as strings\<close>

definition digit_char :: "nat \<Rightarrow> char" where
  "digit_char d = ''0123456789abcdef'' ! d"

text \<open>\<open>n.toString(radix)\<close> for a radix of at most 16.\<close>

fun nat_to_string :: "nat \<Rightarrow> nat \<Rightarrow> string" where
  "nat_to_string radix n =
     (if n < radix \<or> radix < 2 then [digit_char n]
      else nat_to_string radix (n div radix) @ [digit_char (n mod radix)])"

declare nat_to_string.simps [simp del]

definition js_to_string :: "nat \<Rightarrow> int \<Rightarrow> string" where
  "js_to_string radix x =
     (if x < 0 then ''-'' @ nat_to_string radix (nat (- x)) else nat_to_string radix (nat x))"

abbreviation js_show :: "int \<Rightarrow> string" where
  "js_show \<equiv> js_to_string 10"

text \<open>A boolean in a template literal.\<close>

definition show_bool :: "bool \<Rightarrow> string" where
  "show_bool b = (if b then ''true'' else ''false'')"

definition padStart :: "string \<Rightarrow> nat \<Rightarrow> char \<Rightarrow> string" where
  "padStart s n c = replicate (n - length s) c @ s"

text \<open>The digits of \<open>n\<close> at a fixed width, most significant first.\<close>

fun fixed_digits :: "nat \<Rightarrow> nat \<Rightarrow> nat \<Rightarrow> string" where
  "fixed_digits radix 0 n = []"
| "fixed_digits radix (Suc k) n = fixed_digits radix k (n div radix) @ [digit_char (n mod radix)]"

lemma length_fixed_digits [simp]: "length (fixed_digits radix k n) = k"
  by (induction k arbitrary: n) auto

lemma fixed_digits_zero: "fixed_digits radix k 0 = replicate k CHR ''0''"
  by (induction k) (auto simp: digit_char_def replicate_append_same)

lemma padStart_fixed_digits:
  "2 \<le> radix \<Longrightarrow> n < radix ^ Suc k \<Longrightarrow>
   padStart (nat_to_string radix n) (Suc k) CHR ''0'' = fixed_digits radix (Suc k) n"
proof (induction k arbitrary: n)
  case 0
  then show ?case by (simp add: nat_to_string.simps [of radix n] padStart_def)
next
  case (Suc k)
  show ?case
  proof (cases "n < radix")
    case True
    then show ?thesis
      by (simp add: nat_to_string.simps [of radix n] padStart_def fixed_digits_zero
          replicate_append_same flip: replicate_Suc)
  next
    case False
    have "n div radix < radix ^ Suc k"
      using Suc.prems by (simp add: less_mult_imp_div_less mult.commute)
    then have "padStart (nat_to_string radix (n div radix)) (Suc k) CHR ''0''
        = fixed_digits radix (Suc k) (n div radix)"
      using Suc by simp
    with False Suc.prems show ?thesis
      by (simp add: nat_to_string.simps [of radix n] padStart_def)
  qed
qed

definition hex_chars :: "char set" where
  "hex_chars = set ''0123456789abcdef''"

lemma hex_digit_chars: "d < 16 \<Longrightarrow> digit_char d \<in> hex_chars"
  unfolding digit_char_def hex_chars_def by (rule nth_mem) simp

lemma set_fixed_digits: "set (fixed_digits 16 k n) \<subseteq> hex_chars"
  by (induction k arbitrary: n) (auto simp: hex_digit_chars)

text \<open>Reading a decimal numeral back.\<close>

definition digits_value :: "string \<Rightarrow> nat" where
  "digits_value s = foldl (\<lambda>a c. 10 * a + (of_char c - 48)) 0 s"

lemma digit_char_value: "d < 10 \<Longrightarrow> of_char (digit_char d) - 48 = (d :: nat) \<and> digit_char d \<in> set ''0123456789''"
proof -
  assume "d < 10"
  then have "d = 0 \<or> d = 1 \<or> d = 2 \<or> d = 3 \<or> d = 4 \<or> d = 5 \<or> d = 6 \<or> d = 7 \<or> d = 8 \<or> d = 9" by presburger
  then show ?thesis by (elim disjE) (simp_all add: digit_char_def)
qed

text \<open>Decimal numerals use digits only and name one number each.\<close>

lemma nat_to_string_10: "set (nat_to_string 10 n) \<subseteq> set ''0123456789'' \<and> digits_value (nat_to_string 10 n) = n"
proof (induction n rule: less_induct)
  case (less n)
  show ?case
  proof (cases "n < 10")
    case True
    then show ?thesis using digit_char_value [of n] by (simp add: nat_to_string.simps digits_value_def)
  next
    case False
    then show ?thesis
      using less [of "n div 10"] digit_char_value [of "n mod 10"]
      by (simp add: nat_to_string.simps [of 10 n] digits_value_def)
  qed
qed

lemma show_nat_digits: "js_show (int i) = nat_to_string 10 i"
  by (simp add: js_to_string_def)

lemma show_nat_inj: "js_show (int i) = js_show (int j) \<longleftrightarrow> i = j"
  unfolding show_nat_digits by (metis nat_to_string_10)

lemma show_nat_plain: "CHR ''-'' \<notin> set (js_show (int i))"
proof -
  have "CHR ''-'' \<notin> set ''0123456789''" by simp
  then show ?thesis unfolding show_nat_digits using nat_to_string_10 [of i] by blast
qed

lemma distinct_numbered: "distinct (map (\<lambda>i. js_show (int i)) ns) \<longleftrightarrow> distinct ns"
  by (simp add: distinct_map inj_on_def show_nat_inj)

lemma dashed_index:
  assumes "s @ ''-'' @ js_show (int i) = t @ ''-'' @ js_show (int j)"
  shows "i = j"
proof -
  have "takeWhile (\<lambda>c. c \<noteq> CHR ''-'') (rev (s @ ''-'' @ js_show (int k))) = rev (js_show (int k))" for s k
    using show_nat_plain [of k] by (subst rev_append) (auto simp: takeWhile_append)
  from this [of s i] this [of t j] have "rev (js_show (int i)) = rev (js_show (int j))" by (simp only: assms)
  then show ?thesis by (simp add: show_nat_inj)
qed

text \<open>Keys made of a text and the index differ, whatever the texts.\<close>

lemma distinct_dashed: "distinct (map (\<lambda>(i, x). f x @ ''-'' @ js_show (int i)) (enumerate k xs))"
proof -
  have "inj_on (\<lambda>(i, x). f x @ ''-'' @ js_show (int i)) (set (enumerate k xs))"
  proof (rule inj_onI, clarify)
    fix i x j y
    assume at: "(i, x) \<in> set (enumerate k xs)" "(j, y) \<in> set (enumerate k xs)"
      and eq: "f x @ ''-'' @ js_show (int i) = f y @ ''-'' @ js_show (int j)"
    from dashed_index [OF eq] at show "i = j \<and> x = y" by (auto simp: in_set_enumerate_eq)
  qed
  then show ?thesis by (simp add: distinct_map distinct_enumerate)
qed

section \<open>TextEncoder\<close>

text \<open>UTF-8 of the code units below 256: one byte for ASCII, two bytes otherwise.\<close>

definition encode_char :: "char \<Rightarrow> bytes" where
  "encode_char c =
     (let n = of_char c :: nat
      in if n < 128 then [of_nat n] else [of_nat (0xC0 + n div 64), of_nat (0x80 + n mod 64)])"

definition text_encode :: "string \<Rightarrow> bytes" where
  "text_encode s = concat (map encode_char s)"

lemma text_encode_append [simp]: "text_encode (s @ t) = text_encode s @ text_encode t"
  by (simp add: text_encode_def)

lemma text_encode_ascii:
  "(\<And>c. c \<in> set s \<Longrightarrow> (of_char c :: nat) < 128) \<Longrightarrow> text_encode s = map of_char s"
  by (induction s) (simp_all add: text_encode_def encode_char_def Let_def of_nat_of_char)

section \<open>The interface of an insertion-ordered map\<close>

text \<open>
  What the content store, the cluster nodes and the manifest table rely on: a write shows
  in the next lookup and nowhere else, and the key list grows at its end by a new key only.
\<close>

locale insertion_map =
  fixes lookup :: "'m \<Rightarrow> 'k \<Rightarrow> 'v option"
    and upd :: "'k \<Rightarrow> 'v \<Rightarrow> 'm \<Rightarrow> 'm"
    and keys :: "'m \<Rightarrow> 'k list"
  assumes lookup_upd: "lookup (upd k v m) = (lookup m)(k \<mapsto> v)"
    and keys_upd: "keys (upd k v m) = set_add k (keys m)"
    and keys_iff: "k \<in> set (keys m) \<longleftrightarrow> lookup m k \<noteq> None"
begin

lemma distinct_keys_upd: "distinct (keys m) \<Longrightarrow> distinct (keys (upd k v m))"
  by (simp add: keys_upd)

lemma upd_same: "lookup m k = Some v \<Longrightarrow> lookup (upd k v m) = lookup m"
  by (auto simp: lookup_upd)

lemma lookup_upd_all:
  "lookup (foldl (\<lambda>m k. upd k (g k) m) m ks) k = (if k \<in> set ks then Some (g k) else lookup m k)"
  by (induction ks arbitrary: m) (auto simp: lookup_upd)

lemma keys_upd_all:
  "set (keys (foldl (\<lambda>m k. upd k (g k) m) m ks)) = set (keys m) \<union> set ks"
  by (induction ks arbitrary: m) (auto simp: keys_upd)

lemma size_upd:
  "length (keys (upd k v m)) = (if lookup m k = None then Suc (length (keys m)) else length (keys m))"
  using keys_iff [of k m] by (auto simp: keys_upd set_add_def)

end

interpretation jm: insertion_map map_of map_set map_keys
proof unfold_locales
  fix k :: 'a and v :: 'b and m :: "('a \<times> 'b) list"
  show "map_of (map_set k v m) = (map_of m)(k \<mapsto> v)"
    by (rule update_conv')
  show "k \<in> set (map_keys m) \<longleftrightarrow> map_of m k \<noteq> None"
    by (simp add: map_keys_def map_of_eq_None_iff)
  show "map_keys (map_set k v m) = set_add k (map_keys m)"
    by (induction m) (auto simp: map_keys_def set_add_def)
qed

end
