(* ===== verification/Fips_180_4.thy ===== *)
theory Fips_180_4
  imports Prelude
begin

text \<open>
  The SHA-256 function as FIPS 180-4 describes it, on 32-bit words: the six logical
  functions, padding, parsing, the message schedule as a recurrence and the compression
  function. It is the specification that web/src/sim/sha256.ts is refined to, and is
  written without looking at that code: words instead of JavaScript numbers, rotations
  instead of shifts, a recurrence instead of an array that is overwritten.
\<close>

unbundle bit_operations_syntax

section \<open>Functions and constants\<close>

definition Ch :: "u32 \<Rightarrow> u32 \<Rightarrow> u32 \<Rightarrow> u32" where
  "Ch x y z = (x AND y) XOR (NOT x AND z)"

definition Maj :: "u32 \<Rightarrow> u32 \<Rightarrow> u32 \<Rightarrow> u32" where
  "Maj x y z = (x AND y) XOR (x AND z) XOR (y AND z)"

definition big_sigma0 :: "u32 \<Rightarrow> u32" where
  "big_sigma0 x = word_rotr 2 x XOR word_rotr 13 x XOR word_rotr 22 x"

definition big_sigma1 :: "u32 \<Rightarrow> u32" where
  "big_sigma1 x = word_rotr 6 x XOR word_rotr 11 x XOR word_rotr 25 x"

definition small_sigma0 :: "u32 \<Rightarrow> u32" where
  "small_sigma0 x = word_rotr 7 x XOR word_rotr 18 x XOR drop_bit 3 x"

definition small_sigma1 :: "u32 \<Rightarrow> u32" where
  "small_sigma1 x = word_rotr 17 x XOR word_rotr 19 x XOR drop_bit 10 x"

text \<open>
  The round constants: the first 32 bits of the fractional parts of the cube roots of the
  first 64 primes, as the
  standard prints them (\<open>Fips_Constants\<close> checks that they are).
\<close>

definition round_constants :: "int list" where
  "round_constants = concat [
    [0x428a2f98, 0x71374491, 0xb5c0fbcf, 0xe9b5dba5, 0x3956c25b, 0x59f111f1],
    [0x923f82a4, 0xab1c5ed5, 0xd807aa98, 0x12835b01, 0x243185be, 0x550c7dc3],
    [0x72be5d74, 0x80deb1fe, 0x9bdc06a7, 0xc19bf174, 0xe49b69c1, 0xefbe4786],
    [0x0fc19dc6, 0x240ca1cc, 0x2de92c6f, 0x4a7484aa, 0x5cb0a9dc, 0x76f988da],
    [0x983e5152, 0xa831c66d, 0xb00327c8, 0xbf597fc7, 0xc6e00bf3, 0xd5a79147],
    [0x06ca6351, 0x14292967, 0x27b70a85, 0x2e1b2138, 0x4d2c6dfc, 0x53380d13],
    [0x650a7354, 0x766a0abb, 0x81c2c92e, 0x92722c85, 0xa2bfe8a1, 0xa81a664b],
    [0xc24b8b70, 0xc76c51a3, 0xd192e819, 0xd6990624, 0xf40e3585, 0x106aa070],
    [0x19a4c116, 0x1e376c08, 0x2748774c, 0x34b0bcb5, 0x391c0cb3, 0x4ed8aa4a],
    [0x5b9cca4f, 0x682e6ff3, 0x748f82ee, 0x78a5636f, 0x84c87814, 0x8cc70208],
    [0x90befffa, 0xa4506ceb, 0xbef9a3f7, 0xc67178f2]]"

definition K256 :: "u32 list" where
  "K256 = map w32 round_constants"

type_synonym 'a octet_regs = "'a \<times> 'a \<times> 'a \<times> 'a \<times> 'a \<times> 'a \<times> 'a \<times> 'a"

definition H256 :: "u32 octet_regs" where
  "H256 = (0x6a09e667, 0xbb67ae85, 0x3c6ef372, 0xa54ff53a,
           0x510e527f, 0x9b05688c, 0x1f83d9ab, 0x5be0cd19)"

section \<open>Preprocessing\<close>

text \<open>\<open>be_bytes k n\<close>: the last \<open>k\<close> base-256 digits of \<open>n\<close>, most significant first.\<close>

fun be_bytes :: "nat \<Rightarrow> nat \<Rightarrow> bytes" where
  "be_bytes 0 n = []"
| "be_bytes (Suc k) n = be_bytes k (n div 256) @ [of_nat n]"

text \<open>The number of zero bytes: the least that brings the length to 56 modulo 64.\<close>

definition zero_bytes :: "nat \<Rightarrow> nat" where
  "zero_bytes l = (119 - l mod 64) mod 64"

definition fips_pad :: "bytes \<Rightarrow> bytes" where
  "fips_pad m = m @ [0x80] @ replicate (zero_bytes (length m)) 0 @ be_bytes 8 (8 * length m)"

fun be_words :: "bytes \<Rightarrow> u32 list" where
  "be_words (a # b # c # d # bs) =
     (push_bit 24 (ucast a) OR push_bit 16 (ucast b) OR push_bit 8 (ucast c) OR ucast d)
       # be_words bs"
| "be_words _ = []"

fun parse_blocks :: "'a list \<Rightarrow> 'a list list" where
  "parse_blocks xs = (if xs = [] then [] else take 16 xs # parse_blocks (drop 16 xs))"

declare parse_blocks.simps [simp del]

section \<open>The hash computation\<close>

fun schedule :: "u32 list \<Rightarrow> nat \<Rightarrow> u32" where
  "schedule M t =
     (if t < 16 then M ! t
      else small_sigma1 (schedule M (t - 2)) + schedule M (t - 7)
           + small_sigma0 (schedule M (t - 15)) + schedule M (t - 16))"

declare schedule.simps [simp del]

fun fips_round :: "u32 \<Rightarrow> u32 \<Rightarrow> u32 octet_regs \<Rightarrow> u32 octet_regs" where
  "fips_round k w (a, b, c, d, e, f, g, h) =
     (let t1 = h + big_sigma1 e + Ch e f g + k + w;
          t2 = big_sigma0 a + Maj a b c
      in (t1 + t2, a, b, c, d + t1, e, f, g))"

fun add_regs :: "u32 octet_regs \<Rightarrow> u32 octet_regs \<Rightarrow> u32 octet_regs" where
  "add_regs (a, b, c, d, e, f, g, h) (a', b', c', d', e', f', g', h') =
     (a + a', b + b', c + c', d + d', e + e', f + f', g + g', h + h')"

definition fips_compress :: "u32 octet_regs \<Rightarrow> u32 list \<Rightarrow> u32 octet_regs" where
  "fips_compress H M =
     add_regs H (foldl (\<lambda>r t. fips_round (K256 ! t) (schedule M t) r) H [0..<64])"

definition fips_sha256 :: "bytes \<Rightarrow> u32 octet_regs" where
  "fips_sha256 m = foldl fips_compress H256 (parse_blocks (be_words (fips_pad m)))"

text \<open>The digest as 64 hexadecimal digits.\<close>

definition hex_word :: "u32 \<Rightarrow> string" where
  "hex_word w = fixed_digits 16 8 (unat w)"

fun regs_list :: "'a octet_regs \<Rightarrow> 'a list" where
  "regs_list (a, b, c, d, e, f, g, h) = [a, b, c, d, e, f, g, h]"

definition fips_hex :: "bytes \<Rightarrow> string" where
  "fips_hex m = concat (map hex_word (regs_list (fips_sha256 m)))"

section \<open>Facts about preprocessing\<close>

lemma length_be_bytes [simp]: "length (be_bytes k n) = k"
  by (induction k arbitrary: n) auto

lemma length_round_constants [simp]: "length round_constants = 64"
  by (simp add: round_constants_def)

lemma round_constants_range: "k \<in> set round_constants \<Longrightarrow> 0 \<le> k \<and> k < 2 ^ 32"
  by (auto simp: round_constants_def)

text \<open>The padded length is 448 modulo 512 bits before the length field, and no shorter padding is.\<close>

lemma zero_bytes_cases: "zero_bytes l = (if l mod 64 \<le> 55 then 55 - l mod 64 else 119 - l mod 64)"
proof (cases "l mod 64 \<le> 55")
  case True
  then have "119 - l mod 64 = (55 - l mod 64) + 64" by simp
  with True show ?thesis by (simp only: zero_bytes_def mod_add_self2) simp
next
  case False
  then have "119 - l mod 64 < 64" by simp
  with False show ?thesis by (simp add: zero_bytes_def)
qed

lemma zero_bytes_fills: "(l + 1 + zero_bytes l) mod 64 = 56"
proof -
  define q r where "q = l div 64" and "r = l mod 64"
  then have l: "l = 64 * q + r" and r: "r < 64" by simp_all
  have "l + 1 + zero_bytes l = 64 * (if r \<le> 55 then q else q + 1) + 56"
    using r unfolding zero_bytes_cases by (simp add: l)
  then show ?thesis by (simp only:) simp
qed

lemma zero_bytes_least: "(l + 1 + z) mod 64 = 56 \<Longrightarrow> zero_bytes l \<le> z"
proof -
  assume z: "(l + 1 + z) mod 64 = 56"
  define r where "r = l mod 64"
  have "(r + (1 + z)) mod 64 = (l + (1 + z)) mod 64"
    by (simp only: r_def mod_add_left_eq)
  with z have "(r + 1 + z) mod 64 = 56" by (simp only: add.assoc)
  then have mod56: "(r + 1 + z) mod 64 = 56" .
  have r: "r < 64" by (simp add: r_def)
  show "zero_bytes l \<le> z"
  proof (rule ccontr)
    assume "\<not> zero_bytes l \<le> z"
    then have less: "z < (if r \<le> 55 then 55 - r else 119 - r)"
      by (simp add: zero_bytes_cases r_def split: if_splits)
    show False
    proof (cases "r + 1 + z < 64")
      case True
      with mod56 less r show False by (auto split: if_splits)
    next
      case False
      with less r have "(r + 1 + z) mod 64 = r + 1 + z - 64"
        by (simp add: le_mod_geq split: if_splits)
      with mod56 less r False show False by (auto split: if_splits)
    qed
  qed
qed

lemma length_fips_pad: "length (fips_pad m) = length m + 1 + zero_bytes (length m) + 8"
  by (simp add: fips_pad_def)

lemma fips_pad_blocks: "length (fips_pad m) mod 64 = 0"
  using zero_bytes_fills [of "length m"] mod_add_left_eq [of "length m + 1 + zero_bytes (length m)" 64 8]
  by (simp add: length_fips_pad)

lemma length_be_words: "length (be_words bs) = length bs div 4"
  by (induction bs rule: be_words.induct) auto

lemma nth_be_words:
  "4 * i + 3 < length bs \<Longrightarrow>
   be_words bs ! i = push_bit 24 (ucast (bs ! (4 * i))) OR push_bit 16 (ucast (bs ! (4 * i + 1)))
     OR push_bit 8 (ucast (bs ! (4 * i + 2))) OR ucast (bs ! (4 * i + 3))"
proof (induction bs arbitrary: i rule: be_words.induct)
  case (1 a b c d bs)
  then show ?case by (cases i) (auto simp: numeral_eq_Suc)
qed auto

lemma length_regs_list [simp]: "length (regs_list r) = 8"
  by (induction r rule: regs_list.induct) simp

lemma length_hex_word [simp]: "length (hex_word w) = 8"
  by (simp add: hex_word_def)

lemma length_hex_words: "length (concat (map hex_word ws)) = 8 * length ws"
  by (induction ws) auto

lemma length_fips_hex: "length (fips_hex m) = 64"
  by (simp add: fips_hex_def length_hex_words)

lemma set_fips_hex: "set (fips_hex m) \<subseteq> hex_chars"
  using set_fixed_digits by (auto simp: fips_hex_def hex_word_def)

end
