(* ===== verification/Sha256.thy ===== *)
theory Sha256
  imports Fips_180_4
begin

text \<open>
  web/src/sim/sha256.ts, statement by statement on JavaScript numbers: the padded message
  as a byte array written by index, the 64-entry \<open>Uint32Array\<close> that every block reuses,
  the signed results of the 32-bit operators and the \<open>>>> 0\<close> after each sum. The
  refinement \<open>sha256Hex_eq\<close> shows that the result is the SHA-256 of FIPS 180-4; the
  bound lemmas show that every sum the code forms stays where double arithmetic is exact.
\<close>

unbundle bit_operations_syntax

section \<open>The code\<close>

text \<open>Lines 11 to 23: the table of the source, in its rows, as a \<open>Uint32Array\<close>.\<close>

definition K :: "int list" where
  "K = map ToUint32 (concat [
    [0x428a2f98, 0x71374491, 0xb5c0fbcf, 0xe9b5dba5, 0x3956c25b, 0x59f111f1],
    [0x923f82a4, 0xab1c5ed5, 0xd807aa98, 0x12835b01, 0x243185be, 0x550c7dc3],
    [0x72be5d74, 0x80deb1fe, 0x9bdc06a7, 0xc19bf174, 0xe49b69c1, 0xefbe4786],
    [0x0fc19dc6, 0x240ca1cc, 0x2de92c6f, 0x4a7484aa, 0x5cb0a9dc, 0x76f988da],
    [0x983e5152, 0xa831c66d, 0xb00327c8, 0xbf597fc7, 0xc6e00bf3, 0xd5a79147],
    [0x06ca6351, 0x14292967, 0x27b70a85, 0x2e1b2138, 0x4d2c6dfc, 0x53380d13],
    [0x650a7354, 0x766a0abb, 0x81c2c92e, 0x92722c85, 0xa2bfe8a1, 0xa81a664b],
    [0xc24b8b70, 0xc76c51a3, 0xd192e819, 0xd6990624, 0xf40e3585, 0x106aa070],
    [0x19a4c116, 0x1e376c08, 0x2748774c, 0x34b0bcb5, 0x391c0cb3, 0x4ed8aa4a],
    [0x5b9cca4f, 0x682e6ff3, 0x748f82ee, 0x78a5636f, 0x84c87814, 0x8cc70208],
    [0x90befffa, 0xa4506ceb, 0xbef9a3f7, 0xc67178f2]])"

definition rotr :: "int \<Rightarrow> nat \<Rightarrow> int" where
  "rotr x n = js_or (js_shru x n) (js_shl x (32 - n))"

text \<open>Writing a number into a \<open>Uint8Array\<close> keeps its low byte; reading a byte that is not
  there gives \<open>undefined\<close>, which the bitwise operators take as 0.\<close>

definition u8_store :: "nat \<Rightarrow> int \<Rightarrow> bytes \<Rightarrow> bytes" where
  "u8_store i x bs = bs[i := word_of_int x]"

definition u8_read :: "bytes \<Rightarrow> nat \<Rightarrow> int" where
  "u8_read bs i = (if i < length bs then uint (bs ! i) else 0)"

text \<open>Lines 40 to 57: padding.\<close>

definition padded_total :: "nat \<Rightarrow> nat" where
  "padded_total len =
     (let withOne = len + 1
      in withOne + nat ((56 - int (withOne mod 64) + 64) mod 64) + 8)"

definition length_byte :: "int \<Rightarrow> nat \<Rightarrow> int" where
  "length_byte x shift = js_and (if shift = 0 then x else js_shru x shift) 0xff"

definition pad_message :: "bytes \<Rightarrow> bytes" where
  "pad_message bs =
     (let bitLen = int (length bs) * 8;
          total = padded_total (length bs);
          msg = bs @ drop (length bs) (replicate total 0);
          msg = u8_store (length bs) 0x80 msg;
          hi = bitLen div 0x100000000;
          lo = ToUint32 bitLen;
          msg = u8_store (total - 8) (length_byte hi 24) msg;
          msg = u8_store (total - 7) (length_byte hi 16) msg;
          msg = u8_store (total - 6) (length_byte hi 8) msg;
          msg = u8_store (total - 5) (length_byte hi 0) msg;
          msg = u8_store (total - 4) (length_byte lo 24) msg;
          msg = u8_store (total - 3) (length_byte lo 16) msg;
          msg = u8_store (total - 2) (length_byte lo 8) msg
      in u8_store (total - 1) (length_byte lo 0) msg)"

text \<open>Lines 61 to 71: the message schedule array.\<close>

definition load_word :: "bytes \<Rightarrow> nat \<Rightarrow> int" where
  "load_word msg j = ToUint32
     (js_or (js_or (js_or (js_shl (u8_read msg j) 24) (js_shl (u8_read msg (j + 1)) 16))
        (js_shl (u8_read msg (j + 2)) 8)) (u8_read msg (j + 3)))"

definition load_words :: "bytes \<Rightarrow> nat \<Rightarrow> int list \<Rightarrow> int list" where
  "load_words msg off w = foldl (\<lambda>w i. w[i := load_word msg (off + i * 4)]) w [0..<16]"

definition schedule_sum :: "int list \<Rightarrow> nat \<Rightarrow> int" where
  "schedule_sum w i =
     (let s0 = js_xor (js_xor (rotr (w ! (i - 15)) 7) (rotr (w ! (i - 15)) 18))
                 (js_shru (w ! (i - 15)) 3);
          s1 = js_xor (js_xor (rotr (w ! (i - 2)) 17) (rotr (w ! (i - 2)) 19))
                 (js_shru (w ! (i - 2)) 10)
      in w ! (i - 16) + s0 + w ! (i - 7) + s1)"

definition next_word :: "int list \<Rightarrow> nat \<Rightarrow> int" where
  "next_word w i = ToUint32 (schedule_sum w i)"

definition extend_words :: "int list \<Rightarrow> int list" where
  "extend_words w = foldl (\<lambda>w i. w[i := next_word w i]) w [16..<64]"

text \<open>
  Lines 82 to 97: one round on the eight working variables. The sums that the code cuts to
  32 bits with \<open>>>> 0\<close> are named, so that their size can be stated.
\<close>

definition t1_sum :: "int \<Rightarrow> int \<Rightarrow> int \<Rightarrow> int \<Rightarrow> int \<Rightarrow> int \<Rightarrow> int" where
  "t1_sum k wi e f g h =
     (let S1 = js_xor (js_xor (rotr e 6) (rotr e 11)) (rotr e 25);
          ch = js_xor (js_and e f) (js_and (js_not e) g)
      in h + S1 + ch + k + wi)"

definition t2_sum :: "int \<Rightarrow> int \<Rightarrow> int \<Rightarrow> int" where
  "t2_sum a b c =
     (let S0 = js_xor (js_xor (rotr a 2) (rotr a 13)) (rotr a 22);
          maj = js_xor (js_xor (js_and a b) (js_and a c)) (js_and b c)
      in S0 + maj)"

fun sha_round :: "int \<Rightarrow> int \<Rightarrow> int octet_regs \<Rightarrow> int octet_regs" where
  "sha_round k wi (a, b, c, d, e, f, g, h) =
     (let t1 = ToUint32 (t1_sum k wi e f g h);
          t2 = ToUint32 (t2_sum a b c)
      in (ToUint32 (t1 + t2), a, b, c, ToUint32 (d + t1), e, f, g))"

definition sha_rounds :: "int list \<Rightarrow> int octet_regs \<Rightarrow> int octet_regs" where
  "sha_rounds w regs = foldl (\<lambda>r i. sha_round (K ! i) (w ! i) r) regs [0..<64]"

text \<open>Lines 99 to 106: the chaining values.\<close>

fun add_chain :: "int octet_regs \<Rightarrow> int octet_regs \<Rightarrow> int octet_regs" where
  "add_chain (h0, h1, h2, h3, h4, h5, h6, h7) (a, b, c, d, e, f, g, h) =
     (ToUint32 (h0 + a), ToUint32 (h1 + b), ToUint32 (h2 + c), ToUint32 (h3 + d),
      ToUint32 (h4 + e), ToUint32 (h5 + f), ToUint32 (h6 + g), ToUint32 (h7 + h))"

text \<open>Line 60: the loop over the blocks; the array \<open>w\<close> is carried from block to block.\<close>

function sha_blocks :: "bytes \<Rightarrow> nat \<Rightarrow> int list \<Rightarrow> int octet_regs \<Rightarrow> int octet_regs" where
  "sha_blocks msg off w hs =
     (if off < length msg
      then let w = extend_words (load_words msg off w)
           in sha_blocks msg (off + 64) w (add_chain hs (sha_rounds w hs))
      else hs)"
  by pat_completeness auto
termination
  by (relation "measure (\<lambda>(msg, off, w, hs). length msg - off)") auto

declare sha_blocks.simps [simp del]

definition sha_init :: "int octet_regs" where
  "sha_init = (0x6a09e667, 0xbb67ae85, 0x3c6ef372, 0xa54ff53a,
               0x510e527f, 0x9b05688c, 0x1f83d9ab, 0x5be0cd19)"

definition hex_out :: "int list \<Rightarrow> string" where
  "hex_out vs = foldl (\<lambda>hex v. hex @ padStart (js_to_string 16 (ToUint32 v)) 8 CHR ''0'') [] vs"

definition sha256Hex :: "bytes \<Rightarrow> string" where
  "sha256Hex bs = hex_out (regs_list (sha_blocks (pad_message bs) 0 (replicate 64 0) sha_init))"

definition shortHash :: "string \<Rightarrow> nat \<Rightarrow> string" where
  "shortHash hash n = take n hash"

section \<open>Rotations and the round\<close>

lemma w32_rotr: "0 < n \<Longrightarrow> n < 32 \<Longrightarrow> w32 (rotr x n) = word_rotr n (w32 x)"
proof -
  assume n: "0 < n" "n < 32"
  have "w32 (rotr x n) = drop_bit n (w32 x) OR push_bit (32 - n) (w32 x)"
    using n by (simp add: rotr_def w32_or w32_shru w32_shl)
  also have "\<dots> = word_rotr n (w32 x)"
  proof (rule bit_word_eqI)
    fix i
    assume "i < LENGTH(32)"
    with n show "bit (drop_bit n (w32 x) OR push_bit (32 - n) (w32 x)) i = bit (word_rotr n (w32 x)) i"
      by (cases "i + n < 32") (auto simp: bit_simps add.commute le_mod_geq dest: bit_imp_le_length)
  qed
  finally show ?thesis .
qed

fun uregs :: "u32 octet_regs \<Rightarrow> int octet_regs" where
  "uregs (a, b, c, d, e, f, g, h) =
     (uint a, uint b, uint c, uint d, uint e, uint f, uint g, uint h)"

lemma ToUint32_uint: "ToUint32 x = uint y \<longleftrightarrow> w32 x = y"
  by (simp only: ToUint32_def word_uint_eq_iff)

lemmas round_bits = js_bits w32_rotr of_int_add Ch_def Maj_def big_sigma0_def big_sigma1_def
  small_sigma0_def small_sigma1_def

lemma sha_round_fips: "sha_round k w (uregs r) = uregs (fips_round (w32 k) (w32 w) r)"
  by (induction r rule: uregs.induct)
    (simp add: t1_sum_def t2_sum_def Let_def ToUint32_uint round_bits add.assoc xor.assoc)

lemma add_chain_fips: "add_chain (uregs r) (uregs r') = uregs (add_regs r r')"
  by (induction r r' rule: add_regs.induct) (simp add: ToUint32_uint)

lemma regs_list_uregs: "regs_list (uregs r) = map uint (regs_list r)"
  by (induction r rule: uregs.induct) simp

section \<open>Padding\<close>

lemma padded_total_fips: "padded_total l = l + 1 + zero_bytes l + 8"
proof -
  define r where "r = l mod 64"
  have r: "r < 64" by (simp add: r_def)
  have one: "Suc l mod 64 = (if r = 63 then 0 else Suc r)"
    using r by (simp add: r_def mod_Suc)
  have "nat ((56 - int ((l + 1) mod 64) + 64) mod 64) = zero_bytes l"
  proof (cases "r \<le> 55")
    case True
    then have "(56 - int ((l + 1) mod 64) + 64) mod 64 = ((55 - int r) + 64) mod 64"
      by (simp add: one)
    also have "\<dots> = 55 - int r"
      using True by (simp only: mod_add_self2) (rule mod_pos_pos_trivial, simp_all)
    finally show ?thesis using True by (simp add: zero_bytes_cases flip: r_def)
  next
    case False
    then have "56 - int ((l + 1) mod 64) + 64 = (if r = 63 then 120 else 119 - int r)"
      by (simp add: one)
    with False r have "(56 - int ((l + 1) mod 64) + 64) mod 64 = 119 - int r"
      by (auto intro: mod_pos_pos_trivial)
    with False show ?thesis by (simp add: zero_bytes_cases flip: r_def)
  qed
  then show ?thesis by (simp add: padded_total_def Let_def)
qed

lemma byte_of_w32: "(word_of_int x :: 8 word) = ucast (w32 x)"
  by (rule bit_word_eqI) (simp add: bit_simps)

lemma byte_and_255: "(word_of_int (js_and x 0xff) :: 8 word) = ucast (w32 x)"
proof -
  have mask: "w32 0xff = mask 8" by (simp add: mask_eq_exp_minus_1)
  show ?thesis
    unfolding byte_of_w32 w32_and mask by (rule bit_word_eqI) (simp add: bit_simps)
qed

lemma length_byte_word:
  assumes "shift + 8 \<le> 32"
  shows "(word_of_int (length_byte x shift) :: 8 word) = word_of_int (drop_bit shift x)"
proof (cases "shift = 0")
  case True
  then show ?thesis by (simp add: length_byte_def byte_and_255 flip: byte_of_w32)
next
  case False
  with assms have "(word_of_int (length_byte x shift) :: 8 word) = ucast (drop_bit shift (w32 x))"
    unfolding length_byte_def byte_and_255 by (simp add: byte_and_255 w32_shru)
  also have "\<dots> = word_of_int (drop_bit shift x)"
    using assms by (intro bit_word_eqI) (auto simp: bit_simps)
  finally show ?thesis .
qed

lemma be_bytes_numeral:
  "be_bytes (numeral k) n = be_bytes (pred_numeral k) (n div 256) @ [of_nat n]"
  by (simp only: numeral_eq_Suc [of k] be_bytes.simps)

lemma be_bytes_8: "be_bytes 8 n = map (\<lambda>shift. word_of_int (drop_bit shift (int n)))
    [56, 48, 40, 32, 24, 16, 8, 0]"
proof -
  have byte: "(word_of_int (drop_bit s (int n)) :: 8 word) = of_nat (n div 2 ^ s)" for s
  proof -
    have "drop_bit s (int n) = int (n div 2 ^ s)" 
      unfolding drop_bit_of_nat by (simp only: drop_bit_eq_div)
    then show ?thesis by simp
  qed
  show ?thesis
    unfolding list.map byte by (simp add: be_bytes_numeral flip: div_mult2_eq)
qed

lemma list_update_suffix: "(P @ xs)[length P + k := x] = P @ xs[k := x]"
  by (simp add: list_update_append)

lemma pad_message_fips: "pad_message bs = fips_pad bs"
proof -
  define P where "P = bs @ [0x80 :: 8 word] @ replicate (zero_bytes (length bs)) 0"
  have total: "padded_total (length bs) = length P + 8"
    by (simp add: P_def padded_total_fips)
  have idx: "length P + 8 - 8 = length P + 0" "length P + 8 - 7 = length P + 1"
    "length P + 8 - 6 = length P + 2" "length P + 8 - 5 = length P + 3"
    "length P + 8 - 4 = length P + 4" "length P + 8 - 3 = length P + 5"
    "length P + 8 - 2 = length P + 6" "length P + 8 - 1 = length P + 7"
    by simp_all
  have eight: "replicate 8 (0 :: 8 word) = [0, 0, 0, 0, 0, 0, 0, 0]"
    by (simp add: numeral_eq_Suc)
  have "bs @ drop (length bs) (replicate (length P + 8) 0) =
      bs @ 0 # replicate (zero_bytes (length bs)) 0 @ replicate 8 0"
    by (simp add: P_def flip: replicate_add replicate_Suc)
  then have start: "u8_store (length bs) 0x80 (bs @ drop (length bs) (replicate (length P + 8) 0))
      = P @ [0, 0, 0, 0, 0, 0, 0, 0]"
    by (simp add: u8_store_def P_def eight)
  have lo: "(word_of_int (drop_bit s (ToUint32 x)) :: 8 word) = word_of_int (drop_bit s x)"
    if "s + 8 \<le> 32" for s x
    using that unfolding ToUint32_def by (intro bit_word_eqI) (auto simp: bit_simps)
  have hi: "drop_bit s (x div 0x100000000) = drop_bit (s + 32) x" for s and x :: int
    by (simp add: drop_bit_eq_div power_add mult.commute flip: zdiv_zmult2_eq)
  define n where "n = int (8 * length bs)"
  have bitLen: "int (length bs) * 8 = n"
    by (simp add: n_def)
  have "pad_message bs = P @ be_bytes 8 (8 * length bs)"
    unfolding pad_message_def Let_def total start
    unfolding u8_store_def idx list_update_suffix be_bytes_8 bitLen n_def [symmetric]
    by (simp add: length_byte_word hi lo hi [of 0, simplified] lo [of 0, simplified])
  then show ?thesis by (simp add: fips_pad_def P_def)
qed

section \<open>The message schedule array\<close>

lemma length_foldl_update [simp]:
  "length (foldl (\<lambda>w i. w[i := f w i]) w is) = length w"
  by (induction "is" arbitrary: w) auto

lemma load_word_be:
  assumes "j + 3 < length msg"
  shows "load_word msg j = uint (push_bit 24 (ucast (msg ! j)) OR push_bit 16 (ucast (msg ! (j + 1)))
    OR push_bit 8 (ucast (msg ! (j + 2))) OR ucast (msg ! (j + 3)) :: u32)"
  using assms by (simp add: load_word_def ToUint32_uint u8_read_def js_bits or.assoc)

lemma nth_load_words:
  assumes "t < 16" "length w = 64"
  shows "load_words msg off w ! t = load_word msg (off + t * 4)"
proof -
  have "t < n \<longrightarrow> foldl (\<lambda>w i. w[i := load_word msg (off + i * 4)]) w [0..<n] ! t
      = load_word msg (off + t * 4)" if "n \<le> 16" for n
    using that by (induction n) (auto simp: nth_list_update less_Suc_eq assms)
  with assms show ?thesis by (simp add: load_words_def)
qed

text \<open>The words of block \<open>q\<close> of the message.\<close>

definition block_words :: "bytes \<Rightarrow> nat \<Rightarrow> u32 list" where
  "block_words msg q = take 16 (drop (16 * q) (be_words msg))"

lemma load_words_block:
  assumes "t < 16" "length w = 64" "64 * q + 64 \<le> length msg"
  shows "load_words msg (64 * q) w ! t = uint (block_words msg q ! t)"
proof -
  have "64 * q + t * 4 + 3 < length msg" using assms by simp
  moreover have "block_words msg q ! t = be_words msg ! (16 * q + t)"
    using assms by (simp add: block_words_def length_be_words)
  moreover have "4 * (16 * q + t) = 64 * q + t * 4" by simp
  ultimately show ?thesis
    using assms by (simp add: nth_load_words load_word_be nth_be_words mult.commute)
qed

definition holds_schedule :: "u32 list \<Rightarrow> nat \<Rightarrow> int list \<Rightarrow> bool" where
  "holds_schedule M n w \<longleftrightarrow> length w = 64 \<and> (\<forall>t<n. w ! t = uint (schedule M t))"

lemma next_word_schedule:
  assumes "holds_schedule M n w" "16 \<le> n"
  shows "next_word w n = uint (schedule M n)"
proof -
  have w: "w32 (w ! (n - k)) = schedule M (n - k)" if "0 < k" "k \<le> 16" for k
    using assms that by (simp add: holds_schedule_def)
  have "schedule M n = small_sigma1 (schedule M (n - 2)) + schedule M (n - 7)
      + small_sigma0 (schedule M (n - 15)) + schedule M (n - 16)"
    using assms(2) by (simp add: schedule.simps [of M n])
  then show ?thesis
    by (simp add: next_word_def schedule_sum_def Let_def ToUint32_uint round_bits w xor.assoc ac_simps)
qed

lemma extend_words_schedule:
  assumes "holds_schedule M 16 w"
  shows "holds_schedule M 64 (extend_words w)"
proof -
  have upto: "holds_schedule M (16 + n) (foldl (\<lambda>w i. w[i := next_word w i]) w [16..<16 + n])"
    if "n \<le> 48" for n
    using that
  proof (induction n)
    case 0
    with assms show ?case by simp
  next
    case (Suc n)
    define v where "v = foldl (\<lambda>w i. w[i := next_word w i]) w [16..<16 + n]"
    from Suc have "holds_schedule M (16 + n) v" by (simp add: v_def)
    then have "holds_schedule M (Suc (16 + n)) (v[16 + n := next_word v (16 + n)])"
      using Suc.prems next_word_schedule [of M "16 + n" v]
      by (auto simp: holds_schedule_def nth_list_update less_Suc_eq)
    moreover have "[16..<16 + Suc n] = [16..<16 + n] @ [16 + n]"
      by (simp only: add_Suc_right upt_Suc) simp
    ultimately show ?case by (simp add: v_def)
  qed
  have "(16 + 48 :: nat) = 64" by simp
  with upto [of 48] show ?thesis by (simp only: extend_words_def order_refl)
qed

lemma block_schedule:
  assumes "length w = 64" "64 * q + 64 \<le> length msg"
  shows "holds_schedule (block_words msg q) 64 (extend_words (load_words msg (64 * q) w))"
proof (rule extend_words_schedule)
  show "holds_schedule (block_words msg q) 16 (load_words msg (64 * q) w)"
    using assms load_words_block [OF _ assms]
    by (simp add: holds_schedule_def schedule.simps) (simp add: load_words_def)
qed

section \<open>Refinement of FIPS 180-4\<close>

lemma K_table: "K = map ToUint32 round_constants"
  unfolding K_def round_constants_def by (rule refl)

lemma w32_K: "i < 64 \<Longrightarrow> w32 (K ! i) = K256 ! i"
  by (simp add: K_table K256_def js_bits)

lemma sha_rounds_fips:
  assumes "holds_schedule M 64 w"
  shows "sha_rounds w (uregs H) =
    uregs (foldl (\<lambda>r t. fips_round (K256 ! t) (schedule M t) r) H [0..<64])"
proof -
  have "foldl (\<lambda>r i. sha_round (K ! i) (w ! i) r) (uregs H) ts =
      uregs (foldl (\<lambda>r t. fips_round (K256 ! t) (schedule M t) r) H ts)"
    if "set ts \<subseteq> {..<64}" for ts
    using that assms
    by (induction ts arbitrary: H) (auto simp: sha_round_fips w32_K holds_schedule_def)
  moreover have "set [0..<64] \<subseteq> {..<64::nat}" by auto
  ultimately show ?thesis by (simp only: sha_rounds_def)
qed

lemma sha_blocks_fips:
  "length msg = 64 * (q + n) \<Longrightarrow> length w = 64 \<Longrightarrow>
   sha_blocks msg (64 * q) w (uregs H) =
     uregs (foldl fips_compress H (parse_blocks (drop (16 * q) (be_words msg))))"
proof (induction n arbitrary: q w H)
  case 0
  then show ?case
    by (simp add: sha_blocks.simps [of msg] parse_blocks.simps length_be_words)
next
  case (Suc n)
  define v where "v = extend_words (load_words msg (64 * q) w)"
  define M where "M = block_words msg q"
  have v: "holds_schedule M 64 v"
    unfolding v_def M_def using Suc.prems by (intro block_schedule) simp_all
  then have "length v = 64" by (simp add: holds_schedule_def)
  have parse: "parse_blocks (drop (16 * q) (be_words msg))
      = M # parse_blocks (drop (16 * (q + 1)) (be_words msg))"
    using Suc.prems
    by (simp add: parse_blocks.simps [of "drop (16 * q) (be_words msg)"] length_be_words
        M_def block_words_def add.commute)
  have "sha_blocks msg (64 * q) w (uregs H)
      = sha_blocks msg (64 * (q + 1)) v (add_chain (uregs H) (sha_rounds v (uregs H)))"
    using Suc.prems by (simp add: sha_blocks.simps [of msg "64 * q"] v_def add.commute Let_def)
  also have "\<dots> = sha_blocks msg (64 * (q + 1)) v (uregs (fips_compress H M))"
    by (simp add: sha_rounds_fips [OF v] add_chain_fips fips_compress_def)
  also have "\<dots> = uregs (foldl fips_compress (fips_compress H M)
      (parse_blocks (drop (16 * (q + 1)) (be_words msg))))"
    using Suc.prems \<open>length v = 64\<close> by (intro Suc.IH) simp_all
  finally show ?case by (simp add: parse)
qed

lemma hex_out_words: "hex_out (map uint ws) = concat (map hex_word ws)"
proof (induction ws rule: rev_induct)
  case (snoc w ws)
  have "unat w < 16 ^ Suc 7"
    using unsigned_less [of w, where ?'a = nat] by simp
  then have "padStart (nat_to_string 16 (unat w)) 8 CHR ''0'' = hex_word w"
    using padStart_fixed_digits [of 16 "unat w" 7] by (simp add: hex_word_def)
  moreover have "js_to_string 16 (ToUint32 (uint w)) = nat_to_string 16 (unat w)"
    by (simp add: ToUint32_def js_to_string_def)
  ultimately show ?case
    using snoc by (simp add: hex_out_def)
qed (simp add: hex_out_def)

lemma uregs_H256: "uregs H256 = sha_init"
  by (simp add: H256_def sha_init_def)

text \<open>The hash of the code is the hash of the standard.\<close>

lemma sha256Hex_eq: "sha256Hex bs = fips_hex bs"
proof -
  obtain n where n: "length (fips_pad bs) = 64 * (0 + n)"
    using fips_pad_blocks [of bs] by (metis mod_0_imp_dvd dvdE add_0)
  have "sha_blocks (fips_pad bs) (64 * 0) (replicate 64 0) (uregs H256) = uregs (fips_sha256 bs)"
    unfolding fips_sha256_def by (subst sha_blocks_fips [OF n]) simp_all
  then show ?thesis
    by (simp add: sha256Hex_def fips_hex_def pad_message_fips uregs_H256 regs_list_uregs hex_out_words)
qed

section \<open>The size of the sums\<close>

definition u32_regs :: "int octet_regs \<Rightarrow> bool" where
  "u32_regs r \<longleftrightarrow> (\<forall>x \<in> set (regs_list r). 0 \<le> x \<and> x < 2 ^ 32)"

lemma u32_regs_sha_round [inv_intros]: "u32_regs r \<Longrightarrow> u32_regs (sha_round k w r)"
  using ToUint32_range by (cases r) (auto simp: u32_regs_def Let_def)

lemma rotr_int32 [simp]: "int32 (rotr x n)"
  by (simp add: rotr_def)

lemma int32_bound: "int32 x \<Longrightarrow> \<bar>x\<bar> \<le> 2 ^ 31"
  by (auto simp: int32_def)

lemma t1_sum_bound:
  assumes "\<bar>h\<bar> < 2 ^ 32" "\<bar>k\<bar> < 2 ^ 32" "\<bar>w\<bar> < 2 ^ 32"
  shows "\<bar>t1_sum k w e f g h\<bar> < 2 ^ 34"
proof -
  define S1 where "S1 = js_xor (js_xor (rotr e 6) (rotr e 11)) (rotr e 25)"
  define ch where "ch = js_xor (js_and e f) (js_and (js_not e) g)"
  have "\<bar>S1\<bar> \<le> 2 ^ 31" "\<bar>ch\<bar> \<le> 2 ^ 31"
    by (rule int32_bound, simp add: S1_def ch_def)+
  moreover have "t1_sum k w e f g h = h + S1 + ch + k + w"
    by (simp add: t1_sum_def S1_def ch_def)
  ultimately show ?thesis using assms by (auto simp: abs_le_iff abs_less_iff)
qed

lemma t2_sum_bound: "\<bar>t2_sum a b c\<bar> \<le> 2 ^ 32"
proof -
  define S0 where "S0 = js_xor (js_xor (rotr a 2) (rotr a 13)) (rotr a 22)"
  define maj where "maj = js_xor (js_xor (js_and a b) (js_and a c)) (js_and b c)"
  have "\<bar>S0\<bar> \<le> 2 ^ 31" "\<bar>maj\<bar> \<le> 2 ^ 31"
    by (rule int32_bound, simp add: S0_def maj_def)+
  moreover have "t2_sum a b c = S0 + maj"
    by (simp add: t2_sum_def S0_def maj_def)
  ultimately show ?thesis by (auto simp: abs_le_iff)
qed

lemma schedule_sum_bound:
  assumes "\<forall>x \<in> set w. \<bar>x\<bar> < 2 ^ 32" "16 \<le> i" "i < length w"
  shows "\<bar>schedule_sum w i\<bar> < 2 ^ 34"
proof -
  define s0 where "s0 = js_xor (js_xor (rotr (w ! (i - 15)) 7) (rotr (w ! (i - 15)) 18)) (js_shru (w ! (i - 15)) 3)"
  define s1 where "s1 = js_xor (js_xor (rotr (w ! (i - 2)) 17) (rotr (w ! (i - 2)) 19)) (js_shru (w ! (i - 2)) 10)"
  have "\<bar>s0\<bar> \<le> 2 ^ 31" "\<bar>s1\<bar> \<le> 2 ^ 31"
    by (rule int32_bound, simp add: s0_def s1_def)+
  moreover have "\<bar>w ! (i - 16)\<bar> < 2 ^ 32" "\<bar>w ! (i - 7)\<bar> < 2 ^ 32"
    using assms by simp_all
  moreover have "schedule_sum w i = w ! (i - 16) + s0 + w ! (i - 7) + s1"
    by (simp add: schedule_sum_def s0_def s1_def)
  ultimately show ?thesis by (simp, linarith)
qed

section \<open>The interface of a content hash\<close>

text \<open>
  What the rest of the simulation relies on: a digest is 64 lower-case hexadecimal digits.
  In particular it is never the empty string, which \<open>Engine.verify\<close> uses as its mark for
  "no bad hash yet".
\<close>

locale content_hash =
  fixes hash :: "bytes \<Rightarrow> string"
  assumes hash_length: "length (hash d) = 64"
    and hash_chars: "set (hash d) \<subseteq> hex_chars"
begin

lemma hash_nonempty: "hash d \<noteq> []"
  using hash_length [of d] by auto

lemma hash_ascii: "c \<in> set (hash d) \<Longrightarrow> (of_char c :: nat) < 128"
  using hash_chars [of d] by (auto simp: hex_chars_def)

end

interpretation sha: content_hash sha256Hex
  by unfold_locales (simp_all add: sha256Hex_eq length_fips_hex set_fips_hex)

end
