(* ===== verification/ContentStore.thy ===== *)
theory ContentStore
  imports Sha256
begin

text \<open>
  web/src/sim/contentStore.ts: the deduplicating chunk store, and the two interfaces it
  provides. \<open>write_once\<close> is what the engine's snapshots rely on (the first write of a key
  wins, and the result says whether it was a write); \<open>content_addressed\<close> is what every
  reader relies on (bytes that are fetched hash to the address they were fetched by), and is
  also provided by the cluster.
\<close>

section \<open>The code\<close>

record content_store =
  cs_chunks :: "(string, bytes) js_map"

definition new_store :: content_store where
  "new_store = \<lparr>cs_chunks = []\<rparr>"

definition store_has :: "string \<Rightarrow> content_store \<Rightarrow> bool" where
  "store_has hash s = map_has (cs_chunks s) hash"

text \<open>The stored value is a copy (\<open>data.slice()\<close>); values have no identity in the model.\<close>

definition store_put :: "string \<Rightarrow> bytes \<Rightarrow> content_store \<Rightarrow> bool \<times> content_store" where
  "store_put hash data s =
     (if map_has (cs_chunks s) hash then (False, s)
      else (True, s\<lparr>cs_chunks := map_set hash data (cs_chunks s)\<rparr>))"

definition store_get :: "string \<Rightarrow> content_store \<Rightarrow> bytes throws" where
  "store_get hash s =
     (case map_get (cs_chunks s) hash of
        None \<Rightarrow> Inl (Error (''chunk not found in store: '' @ hash))
      | Some buf \<Rightarrow> Inr buf)"

definition store_size :: "content_store \<Rightarrow> nat" where
  "store_size s = length (cs_chunks s)"

definition store_hashes :: "content_store \<Rightarrow> string list" where
  "store_hashes s = map_keys (cs_chunks s)"

section \<open>The interfaces\<close>

locale write_once =
  fixes lookup :: "'s \<Rightarrow> 'k \<Rightarrow> 'v option"
    and put :: "'k \<Rightarrow> 'v \<Rightarrow> 's \<Rightarrow> bool \<times> 's"
  assumes put_new: "lookup s k = None \<Longrightarrow>
      fst (put k v s) \<and> lookup (snd (put k v s)) = (lookup s)(k \<mapsto> v)"
    and put_old: "lookup s k \<noteq> None \<Longrightarrow> put k v s = (False, s)"
begin

lemma put_reports: "fst (put k v s) \<longleftrightarrow> lookup s k = None"
  using put_new [of s k v] put_old [of s k v] by (cases "lookup s k") auto

lemma put_present: "lookup (snd (put k v s)) k \<noteq> None"
  using put_new [of s k v] put_old [of s k v] by (cases "lookup s k") auto

lemma put_keeps: "lookup s k' = Some v' \<Longrightarrow> lookup (snd (put k v s)) k' = Some v'"
  using put_new [of s k v] put_old [of s k v] by (cases "lookup s k") auto

lemma put_twice: "snd (put k v' (snd (put k v s))) = snd (put k v s)"
  using put_present [of k v s] put_old by simp

text \<open>A run of writes: what was there stays, and the first write of a new key wins.\<close>

lemma lookup_put_all:
  "lookup (foldl (\<lambda>s (k, v). snd (put k v s)) s kvs) k =
     (case lookup s k of Some v \<Rightarrow> Some v | None \<Rightarrow> map_of kvs k)"
proof (induction kvs arbitrary: s)
  case (Cons kv kvs)
  obtain k' v' where kv: "kv = (k', v')" by (cases kv)
  then show ?case
    using Cons.IH [of "snd (put k' v' s)"] put_new [of s k' v'] put_old [of s k' v']
    by (cases "lookup s k'") (auto split: option.splits)
qed (simp split: option.split)

lemma lookup_put_all_keeps:
  "lookup s k = Some v \<Longrightarrow> lookup (foldl (\<lambda>s (k, v). snd (put k v s)) s kvs) k = Some v"
  by (simp add: lookup_put_all)

end

locale content_addressed =
  fixes fetch :: "string \<Rightarrow> 's \<Rightarrow> bytes throws"
    and sound :: "'s \<Rightarrow> bool"
  assumes fetch_sound: "sound s \<Longrightarrow> fetch h s = Inr d \<Longrightarrow> sha256Hex d = h"
begin

lemma fetch_all_hashes:
  assumes "sound s" "map_throw (\<lambda>h. fetch h s) hs = Inr ds"
  shows "map sha256Hex ds = hs"
proof -
  have "list_all2 (\<lambda>h d. fetch h s = Inr d) hs ds"
    using assms(2) by (simp only: map_throw_Inr_iff)
  then have "list_all2 (\<lambda>h d. sha256Hex d = h) hs ds"
    by (rule list_all2_mono) (rule fetch_sound [OF assms(1)])
  then show ?thesis by (induction rule: list_all2_induct) auto
qed

text \<open>Fetched parts are the parts that were addressed, unless SHA-256 collides on them.\<close>

lemma fetch_all_exact:
  assumes "sound s" "map_throw (\<lambda>h. fetch h s) (map sha256Hex parts) = Inr ds"
    and "inj_on sha256Hex (set ds \<union> set parts)"
  shows "ds = parts"
  using fetch_all_hashes [OF assms(1,2)] assms(3) by (rule map_inj_on)

end

section \<open>The store provides them\<close>

definition store_ok :: "content_store \<Rightarrow> bool" where
  "store_ok s \<longleftrightarrow> map_wf (cs_chunks s) \<and> (\<forall>(h, d) \<in> set (cs_chunks s). sha256Hex d = h)"

abbreviation store_lookup :: "content_store \<Rightarrow> string \<Rightarrow> bytes option" where
  "store_lookup s \<equiv> map_of (cs_chunks s)"

interpretation wo: write_once store_lookup store_put
  by unfold_locales (auto simp: store_put_def map_has_def jm.lookup_upd)

interpretation store: content_addressed store_get store_ok
  by unfold_locales (auto simp: store_ok_def store_get_def split: option.splits dest: map_of_SomeD)

lemma store_ok_new [inv_intros]: "store_ok new_store"
  by (simp add: store_ok_def new_store_def)

lemma store_ok_put [inv_intros]:
  "store_ok s \<Longrightarrow> sha256Hex d = h \<Longrightarrow> store_ok (snd (store_put h d s))"
  by (auto simp: store_ok_def store_put_def map_set_fresh map_has_iff image_iff)

lemma store_has_iff: "store_has h s \<longleftrightarrow> store_lookup s h \<noteq> None"
  by (simp add: store_has_def map_has_def)

lemma store_has_hashes: "store_has h s \<longleftrightarrow> h \<in> set (store_hashes s)"
  by (simp add: store_has_def store_hashes_def map_has_iff map_keys_def)

lemma store_get_Inr_iff: "store_get h s = Inr d \<longleftrightarrow> store_lookup s h = Some d"
  by (simp add: store_get_def split: option.split)

lemma store_size_put: "store_size (snd (store_put h d s)) = store_size s + of_bool (\<not> store_has h s)"
  by (simp add: store_size_def store_put_def store_has_def length_map_set)

lemma store_put_cases:
  obtains (old) "store_has h s" "store_put h d s = (False, s)"
  | (new) "\<not> store_has h s" "store_put h d s = (True, \<lparr>cs_chunks = cs_chunks s @ [(h, d)]\<rparr>)"
  by (cases "store_has h s") (auto simp: store_put_def store_has_def map_set_fresh)

end
