(* ===== verification/Cluster.thy ===== *)
theory Cluster
  imports ContentStore
begin

text \<open>
  web/src/sim/cluster.ts: the simulated nodes, the FNV-1a placement of a chunk on \<open>R\<close>
  consecutive nodes, writes to every replica, reads from the first replica that is up, and
  the up and down switches. Node ids are JavaScript numbers (\<open>int\<close>); the arrays \<open>up\<close> and
  \<open>data\<close> have one entry per node, and every id that the code indexes them with is below
  their length by the invariant \<open>cluster_ok\<close>.
\<close>

unbundle bit_operations_syntax

section \<open>The code\<close>

definition ErrChunkUnavailable :: string where
  "ErrChunkUnavailable = ''chunk unavailable: all replicas down''"

definition FNV_OFFSET_64 :: int where
  "FNV_OFFSET_64 = 0xcbf29ce484222325"

definition FNV_PRIME_64 :: int where
  "FNV_PRIME_64 = 0x100000001b3"

definition MASK_64 :: int where
  "MASK_64 = 0xffffffffffffffff"

text \<open>Lines 15 to 23, on BigInt, which is exact.\<close>

definition fnv1a64 :: "string \<Rightarrow> int" where
  "fnv1a64 hash =
     foldl (\<lambda>h c. ((h XOR (of_char c AND 0xff)) * FNV_PRIME_64) AND MASK_64) FNV_OFFSET_64 hash"

record node_status =
  ns_id :: int
  ns_up :: bool
  ns_chunks :: nat

record cluster =
  cl_up :: "bool list"
  cl_data :: "(string, bytes) js_map list"
  cl_replication :: int

definition new_cluster :: "int \<Rightarrow> int \<Rightarrow> cluster throws" where
  "new_cluster n r =
     (if n < 1 then Inl (Error (''node count must be >= 1, got '' @ js_show n))
      else if r < 1 \<or> r > n
      then Inl (Error (''replication factor must be in [1,'' @ js_show n @ ''], got '' @ js_show r))
      else Inr \<lparr>cl_up = replicate (nat n) True, cl_data = replicate (nat n) [], cl_replication = r\<rparr>)"

definition nodeCount :: "cluster \<Rightarrow> int" where
  "nodeCount c = int (length (cl_up c))"

definition placement :: "string \<Rightarrow> cluster \<Rightarrow> int list" where
  "placement hash c =
     (let n = int (length (cl_up c));
          start = fnv1a64 hash mod n;
          ids = foldl (\<lambda>ids i. ids @ [(start + int i) mod n]) [] [0..<nat (cl_replication c)]
      in js_sort (\<lambda>a b. a - b) ids)"

definition node_set :: "string \<Rightarrow> bytes \<Rightarrow> cluster \<Rightarrow> int \<Rightarrow> cluster" where
  "node_set hash data c node =
     c\<lparr>cl_data := (cl_data c)[nat node := map_set hash data (cl_data c ! nat node)]\<rparr>"

definition cluster_put :: "string \<Rightarrow> bytes \<Rightarrow> cluster \<Rightarrow> cluster" where
  "cluster_put hash data c = foldl (node_set hash data) c (placement hash c)"

text \<open>Lines 70 to 77: the first replica that is up and holds the chunk.\<close>

fun get_from :: "cluster \<Rightarrow> string \<Rightarrow> int list \<Rightarrow> (bytes \<times> int) throws" where
  "get_from c hash [] = Inl (Error ErrChunkUnavailable)"
| "get_from c hash (node # ids) =
     (if \<not> cl_up c ! nat node then get_from c hash ids
      else case map_get (cl_data c ! nat node) hash of
             Some buf \<Rightarrow> Inr (buf, node)
           | None \<Rightarrow> get_from c hash ids)"

definition cluster_get :: "string \<Rightarrow> cluster \<Rightarrow> (bytes \<times> int) throws" where
  "cluster_get hash c = get_from c hash (placement hash c)"

definition setUp :: "int \<Rightarrow> bool \<Rightarrow> cluster \<Rightarrow> cluster throws" where
  "setUp node up c =
     (if node < 0 \<or> node \<ge> int (length (cl_up c)) then Inl (Error (''unknown node id '' @ js_show node))
      else Inr (c\<lparr>cl_up := (cl_up c)[nat node := up]\<rparr>))"

definition recoverAll :: "cluster \<Rightarrow> cluster" where
  "recoverAll c = c\<lparr>cl_up := map (\<lambda>_. True) (cl_up c)\<rparr>"

text \<open>\<open>None\<close> is the \<open>undefined\<close> that reading past the array gives.\<close>

definition isUp :: "int \<Rightarrow> cluster \<Rightarrow> bool option" where
  "isUp node c = (if 0 \<le> node \<and> node < int (length (cl_up c)) then Some (cl_up c ! nat node) else None)"

fun available_from :: "cluster \<Rightarrow> string \<Rightarrow> int list \<Rightarrow> bool" where
  "available_from c hash [] = False"
| "available_from c hash (node # ids) =
     (if cl_up c ! nat node \<and> map_has (cl_data c ! nat node) hash then True
      else available_from c hash ids)"

definition chunkAvailable :: "string \<Rightarrow> cluster \<Rightarrow> bool" where
  "chunkAvailable hash c = available_from c hash (placement hash c)"

definition status :: "cluster \<Rightarrow> node_status list" where
  "status c = map (\<lambda>(node, up). \<lparr>ns_id = int node, ns_up = up, ns_chunks = length (cl_data c ! node)\<rparr>)
                (enumerate 0 (cl_up c))"

section \<open>FNV-1a\<close>

text \<open>FNV-1a on 64-bit words over the bytes, as Go's hash/fnv states it.\<close>

definition fnv_word :: "bytes \<Rightarrow> 64 word" where
  "fnv_word bs = foldl (\<lambda>h b. (h XOR ucast b) * 0x100000001b3) 0xcbf29ce484222325 bs"

lemma fnv_step:
  "((uint h XOR (of_char c AND 0xff)) * FNV_PRIME_64) AND MASK_64
     = uint ((h XOR ucast (of_char c :: 8 word)) * 0x100000001b3)" for h :: "64 word"
proof -
  have mask: "MASK_64 = mask 64" "(0xff :: int) = mask 8"
    by (simp_all add: MASK_64_def mask_eq_exp_minus_1)
  have "(of_char c :: 8 word) = word_of_int (of_char c)"
    by (rule of_int_of_char [symmetric])
  then have byte: "of_char c AND 0xff = uint (of_char c :: 8 word)"
    by (simp only: mask unsigned_of_int of_int_eq_iff) (simp flip: take_bit_eq_mask)
  have "uint (h XOR ucast (of_char c :: 8 word)) = uint h XOR uint (of_char c :: 8 word)"
    using take_bit_int_eq_self [OF uint_ge_0, of "of_char c :: 8 word" 64] uint_lt2p [of "of_char c :: 8 word"]
    by (simp add: unsigned_xor_eq unsigned_ucast_eq)
  then show ?thesis
    unfolding byte unfolding mask(1) FNV_PRIME_64_def
    by (simp add: uint_word_ariths take_bit_eq_mod flip: take_bit_eq_mask)
qed

lemma fnv1a64_word: "fnv1a64 s = uint (fnv_word (map of_char s))"
proof -
  have "foldl (\<lambda>h c. ((h XOR (of_char c AND 0xff)) * FNV_PRIME_64) AND MASK_64) (uint h) s
      = uint (foldl (\<lambda>h b. (h XOR ucast b) * 0x100000001b3) h (map of_char s :: bytes))" for h :: "64 word"
    by (induction s arbitrary: h) (simp_all add: fnv_step)
  from this [of "0xcbf29ce484222325"] show ?thesis
    by (simp add: fnv1a64_def fnv_word_def FNV_OFFSET_64_def)
qed

lemma fnv1a64_ascii:
  "(\<And>c. c \<in> set s \<Longrightarrow> (of_char c :: nat) < 128) \<Longrightarrow> fnv1a64 s = uint (fnv_word (text_encode s))"
  by (simp add: fnv1a64_word text_encode_ascii)

lemma fnv1a64_range: "0 \<le> fnv1a64 s" "fnv1a64 s < 2 ^ 64"
  using uint_lt2p [of "fnv_word (map of_char s)"] by (simp_all add: fnv1a64_word)

section \<open>The invariant\<close>

definition cluster_ok :: "cluster \<Rightarrow> bool" where
  "cluster_ok c \<longleftrightarrow> length (cl_data c) = length (cl_up c)
     \<and> 1 \<le> cl_replication c \<and> cl_replication c \<le> int (length (cl_up c))
     \<and> list_all map_wf (cl_data c)"

text \<open>Every copy on every node hashes to its address.\<close>

definition cluster_sound :: "cluster \<Rightarrow> bool" where
  "cluster_sound c \<longleftrightarrow> list_all (list_all (\<lambda>(h, d). sha256Hex d = h)) (cl_data c)"

abbreviation valid_node :: "cluster \<Rightarrow> int \<Rightarrow> bool" where
  "valid_node c node \<equiv> 0 \<le> node \<and> node < int (length (cl_up c))"

abbreviation node_up :: "cluster \<Rightarrow> int \<Rightarrow> bool" where
  "node_up c node \<equiv> cl_up c ! nat node"

abbreviation node_lookup :: "cluster \<Rightarrow> int \<Rightarrow> string \<Rightarrow> bytes option" where
  "node_lookup c node h \<equiv> map_of (cl_data c ! nat node) h"

lemma cluster_ok_new: "new_cluster n r = Inr c \<Longrightarrow> cluster_ok c \<and> cluster_sound c"
  by (auto simp: new_cluster_def cluster_ok_def cluster_sound_def list_all_iff split: if_splits)

lemma placement_new: "new_cluster n r = Inr c \<Longrightarrow> nodeCount c = n \<and> cl_replication c = r"
  by (auto simp: new_cluster_def nodeCount_def split: if_splits)

lemma node_set_frame [simp]:
  "cl_up (node_set h d c node) = cl_up c" "cl_replication (node_set h d c node) = cl_replication c"
  "length (cl_data (node_set h d c node)) = length (cl_data c)"
  by (simp_all add: node_set_def)

lemma put_frame_ids:
  "cl_up (foldl (node_set h d) c ids) = cl_up c"
  "cl_replication (foldl (node_set h d) c ids) = cl_replication c"
  "length (cl_data (foldl (node_set h d) c ids)) = length (cl_data c)"
  by (induction ids arbitrary: c) auto

lemma put_frame [simp]:
  "cl_up (cluster_put h d c) = cl_up c" "cl_replication (cluster_put h d c) = cl_replication c"
  "length (cl_data (cluster_put h d c)) = length (cl_data c)"
  by (simp_all add: cluster_put_def put_frame_ids)

text \<open>Placement depends on the hash, the number of nodes and the replication only.\<close>

lemma placement_cong:
  "length (cl_up c) = length (cl_up c') \<Longrightarrow> cl_replication c = cl_replication c' \<Longrightarrow>
   placement h c = placement h c'"
  by (simp add: placement_def)

lemma placement_put [simp]: "placement h' (cluster_put h d c) = placement h' c"
  by (rule placement_cong) simp_all

lemma placement_setUp: "setUp node up c = Inr c' \<Longrightarrow> placement h c' = placement h c"
  by (rule placement_cong) (auto simp: setUp_def split: if_splits)

lemma placement_recoverAll [simp]: "placement h (recoverAll c) = placement h c"
  by (rule placement_cong) (simp_all add: recoverAll_def)

section \<open>Placement as a policy\<close>

text \<open>
  What readers and writers rely on: as many different valid nodes as the replication factor,
  in ascending order. From this alone, a set of failed nodes smaller than the replication
  factor leaves a replica of every chunk.
\<close>

locale placement_policy =
  fixes place :: "string \<Rightarrow> 'c \<Rightarrow> int list"
    and nodes :: "'c \<Rightarrow> int"
    and copies :: "'c \<Rightarrow> int"
    and sound :: "'c \<Rightarrow> bool"
  assumes place_distinct: "sound c \<Longrightarrow> distinct (place h c)"
    and place_sorted: "sound c \<Longrightarrow> sorted (place h c)"
    and place_length: "sound c \<Longrightarrow> int (length (place h c)) = copies c"
    and place_range: "sound c \<Longrightarrow> set (place h c) \<subseteq> {0..<nodes c}"
    and copies_range: "sound c \<Longrightarrow> 1 \<le> copies c \<and> copies c \<le> nodes c"
begin

lemma place_card: "sound c \<Longrightarrow> int (card (set (place h c))) = copies c"
  using place_distinct place_length distinct_card by metis

lemma survivor:
  assumes "sound c" "finite D" "int (card D) < copies c"
  shows "\<exists>n \<in> set (place h c). n \<notin> D"
proof (rule ccontr)
  assume "\<not> ?thesis"
  then have "set (place h c) \<subseteq> D" by blast
  then have "card (set (place h c)) \<le> card D" by (intro card_mono assms)
  with place_card [OF assms(1), of h] assms(3) show False by linarith
qed

lemma place_everywhere: "sound c \<Longrightarrow> copies c = nodes c \<Longrightarrow> set (place h c) = {0..<nodes c}"
proof -
  assume c: "sound c" "copies c = nodes c"
  have "card {0..<nodes c} \<le> card (set (place h c))"
    using place_card [OF c(1), of h] c by simp
  with place_range [OF c(1), of h] show "set (place h c) = {0..<nodes c}"
    by (intro card_seteq) auto
qed

end

lemma foldl_snoc: "foldl (\<lambda>ids i. ids @ [f i]) acc is = acc @ map f is"
  by (induction "is" arbitrary: acc) auto

lemma consecutive_mod_inj:
  fixes s n :: int
  assumes "0 < n" "int r \<le> n"
  shows "inj_on (\<lambda>i. (s + int i) mod n) {0..<r}"
proof (rule inj_onI)
  fix i j assume ij: "i \<in> {0..<r}" "j \<in> {0..<r}" "(s + int i) mod n = (s + int j) mod n"
  then have "n dvd int i - int j"
    by (simp add: mod_eq_dvd_iff)
  moreover have "\<bar>int i - int j\<bar> < n" using ij assms by auto
  ultimately show "i = j" using dvd_imp_le_int [of "int i - int j" n] by fastforce
qed

lemma placement_eq:
  assumes "cluster_ok c"
  shows "placement h c = sorted_list_of_set
    ((\<lambda>i. (fnv1a64 h + int i) mod nodeCount c) ` {0..<nat (cl_replication c)})"
proof -
  let ?n = "int (length (cl_up c))" and ?r = "nat (cl_replication c)"
  let ?ids = "map (\<lambda>i. (fnv1a64 h + int i) mod ?n) [0..<?r]"
  have "inj_on (\<lambda>i. (fnv1a64 h + int i) mod ?n) {0..<?r}"
    using assms by (intro consecutive_mod_inj) (auto simp: cluster_ok_def)
  then have dist: "distinct ?ids" by (simp add: distinct_map)
  have "placement h c = js_sort (\<lambda>a b. a - b) ?ids"
    by (simp add: placement_def Let_def foldl_snoc mod_add_left_eq)
  also have "\<dots> = sort_key (\<lambda>x. x) ?ids"
    using dist by (intro js_sort_by_key) simp_all
  also have "\<dots> = sorted_list_of_set (set ?ids)"
    using dist by (metis sorted_list_of_set_sort_remdups distinct_remdups_id)
  finally show ?thesis by (simp add: nodeCount_def)
qed

interpretation code: placement_policy placement nodeCount cl_replication cluster_ok
proof unfold_locales
  fix c h assume ok: "cluster_ok c"
  show "distinct (placement h c)" "sorted (placement h c)"
    by (simp_all add: placement_eq [OF ok])
  have pos: "0 < nodeCount c" "int (nat (cl_replication c)) \<le> nodeCount c"
    using ok by (auto simp: cluster_ok_def nodeCount_def)
  show "set (placement h c) \<subseteq> {0..<nodeCount c}"
    using pos by (auto simp: placement_eq [OF ok])
  have "card ((\<lambda>i. (fnv1a64 h + int i) mod nodeCount c) ` {0..<nat (cl_replication c)}) = nat (cl_replication c)"
    using card_image [OF consecutive_mod_inj [OF pos]] by simp
  then show "int (length (placement h c)) = cl_replication c"
    using ok by (simp add: placement_eq [OF ok] cluster_ok_def)
  show "1 \<le> cl_replication c \<and> cl_replication c \<le> nodeCount c"
    using ok by (simp add: cluster_ok_def nodeCount_def)
qed

section \<open>Replicated reads\<close>

text \<open>
  On top of a placement policy: a reader that asks the replicas in the order of the
  placement and takes the first one that is up and holds the chunk.
\<close>

locale replicated_read = placement_policy place nodes copies sound
  for place :: "string \<Rightarrow> 'c \<Rightarrow> int list"
    and nodes :: "'c \<Rightarrow> int"
    and copies :: "'c \<Rightarrow> int"
    and sound :: "'c \<Rightarrow> bool" +
  fixes alive :: "'c \<Rightarrow> int \<Rightarrow> bool"
    and held :: "'c \<Rightarrow> int \<Rightarrow> string \<Rightarrow> bytes option"
    and fetch :: "string \<Rightarrow> 'c \<Rightarrow> (bytes \<times> int) throws"
  assumes fetch_first: "fetch h c =
      (case find (\<lambda>n. alive c n \<and> held c n h \<noteq> None) (place h c) of
         None \<Rightarrow> Inl (Error ErrChunkUnavailable)
       | Some n \<Rightarrow> Inr (the (held c n h), n))"
begin

definition reachable_copy :: "string \<Rightarrow> 'c \<Rightarrow> bool" where
  "reachable_copy h c \<longleftrightarrow> (\<exists>n \<in> set (place h c). alive c n \<and> held c n h \<noteq> None)"

lemma reachable_find:
  "reachable_copy h c \<longleftrightarrow> find (\<lambda>n. alive c n \<and> held c n h \<noteq> None) (place h c) \<noteq> None"
  by (simp only: reachable_copy_def find_None_iff not_not Bex_def)

lemma fetch_Inr_iff: "(\<exists>r. fetch h c = Inr r) \<longleftrightarrow> reachable_copy h c"
  unfolding reachable_find fetch_first by (simp split: option.split)

lemma fetch_Inl_iff: "fetch h c = Inl (Error ErrChunkUnavailable) \<longleftrightarrow> \<not> reachable_copy h c"
  unfolding reachable_find fetch_first by (simp split: option.split)

lemma fetch_Inl: "fetch h c = Inl err \<Longrightarrow> err = Error ErrChunkUnavailable"
  by (auto simp: fetch_first split: option.splits)

lemma fetch_from:
  assumes "fetch h c = Inr (d, n)"
  shows "n \<in> set (place h c) \<and> alive c n \<and> held c n h = Some d"
  using assms by (auto simp: fetch_first find_Some_iff split: option.splits)

text \<open>The serving node is the first of the placement that can serve, so with an ascending
  placement it is the smallest.\<close>

lemma fetch_least:
  assumes "sound c" "fetch h c = Inr (d, n)" "m \<in> set (place h c)" "alive c m" "held c m h \<noteq> None"
  shows "n \<le> m"
proof -
  from assms(2) have "find (\<lambda>n. alive c n \<and> held c n h \<noteq> None) (place h c) = Some n"
    by (auto simp: fetch_first split: option.splits)
  then obtain i where i: "i < length (place h c)" "place h c ! i = n"
    "\<And>j. j < i \<Longrightarrow> \<not> (alive c (place h c ! j) \<and> held c (place h c ! j) h \<noteq> None)"
    by (auto simp: find_Some_iff)
  from assms(3) obtain j where j: "j < length (place h c)" "place h c ! j = m"
    by (auto simp: in_set_conv_nth)
  with i(3) [of j] assms(4,5) have "i \<le> j" by (meson not_le)
  with place_sorted [OF assms(1), of h] i j show ?thesis
    using sorted_nth_mono by blast
qed

definition replicated :: "string \<Rightarrow> bytes \<Rightarrow> 'c \<Rightarrow> bool" where
  "replicated h d c \<longleftrightarrow> (\<forall>n \<in> set (place h c). held c n h = Some d)"

lemma replicated_fetch: "replicated h d c \<Longrightarrow> fetch h c = Inr (d', n) \<Longrightarrow> d' = d"
  using fetch_from unfolding replicated_def by force

lemma replicated_reachable:
  "replicated h d c \<Longrightarrow> reachable_copy h c \<longleftrightarrow> (\<exists>n \<in> set (place h c). alive c n)"
  by (auto simp: replicated_def reachable_copy_def)

text \<open>Fewer failures than copies: the chunk is served, with its bytes.\<close>

lemma fetch_survives:
  assumes "sound c" "replicated h d c"
    and "finite D" "int (card D) < copies c" "\<And>n. n \<in> set (place h c) \<Longrightarrow> n \<notin> D \<Longrightarrow> alive c n"
  shows "\<exists>n \<in> set (place h c). alive c n \<and> fetch h c = Inr (d, n)"
proof -
  from survivor [OF assms(1,3,4), of h] obtain m where "m \<in> set (place h c)" "m \<notin> D" by blast
  with assms(2,5) have "reachable_copy h c" by (auto simp: replicated_reachable)
  then obtain d' n where "fetch h c = Inr (d', n)" by (auto simp flip: fetch_Inr_iff)
  with replicated_fetch [OF assms(2)] fetch_from show ?thesis by metis
qed

end

lemma get_from_find:
  "get_from c h ids =
     (case find (\<lambda>n. node_up c n \<and> node_lookup c n h \<noteq> None) ids of
        None \<Rightarrow> Inl (Error ErrChunkUnavailable)
      | Some n \<Rightarrow> Inr (the (node_lookup c n h), n))"
  by (induction c h ids rule: get_from.induct) (auto split: option.split)

interpretation code: replicated_read placement nodeCount cl_replication cluster_ok
    node_up node_lookup cluster_get
  by unfold_locales (simp add: cluster_get_def get_from_find)

lemma chunkAvailable_iff: "chunkAvailable h c \<longleftrightarrow> code.reachable_copy h c"
proof -
  have "available_from c h ids \<longleftrightarrow> (\<exists>n \<in> set ids. node_up c n \<and> node_lookup c n h \<noteq> None)" for ids
    by (induction c h ids rule: available_from.induct) (auto simp: map_has_def)
  then show ?thesis by (simp add: chunkAvailable_def code.reachable_copy_def)
qed

section \<open>Writes\<close>

lemma node_data_put_ids:
  assumes "distinct ids" "set ids \<subseteq> {0..<int (length (cl_data c))}" "0 \<le> n"
  shows "cl_data (foldl (node_set h d) c ids) ! nat n =
     (if n \<in> set ids then map_set h d (cl_data c ! nat n) else cl_data c ! nat n)"
  using assms
proof (induction ids arbitrary: c)
  case (Cons i ids)
  have "cl_data (foldl (node_set h d) (node_set h d c i) ids) ! nat n =
     (if n \<in> set ids then map_set h d (cl_data (node_set h d c i) ! nat n)
      else cl_data (node_set h d c i) ! nat n)"
    using Cons.prems by (intro Cons.IH) simp_all
  moreover have "cl_data (node_set h d c i) ! nat n =
     (if n = i then map_set h d (cl_data c ! nat n) else cl_data c ! nat n)"
    using Cons.prems by (auto simp: node_set_def nth_list_update nat_less_iff)
  ultimately show ?case using Cons.prems(1) by auto
qed simp

lemma node_data_put:
  assumes ok: "cluster_ok c" and "0 \<le> n"
  shows "cl_data (cluster_put h d c) ! nat n =
     (if n \<in> set (placement h c) then map_set h d (cl_data c ! nat n) else cl_data c ! nat n)"
  unfolding cluster_put_def
proof (rule node_data_put_ids)
  show "distinct (placement h c)" by (rule code.place_distinct [OF ok])
  show "set (placement h c) \<subseteq> {0..<int (length (cl_data c))}"
    using code.place_range [OF ok, of h] ok by (simp add: nodeCount_def cluster_ok_def)
qed fact

lemma node_lookup_put:
  assumes "cluster_ok c" "0 \<le> n"
  shows "node_lookup (cluster_put h d c) n h' =
     (if h' = h \<and> n \<in> set (placement h c) then Some d else node_lookup c n h')"
  by (simp add: node_data_put [OF assms] jm.lookup_upd)

lemma list_all_nat_nth: "list_all P xs \<longleftrightarrow> (\<forall>n. 0 \<le> n \<and> n < int (length xs) \<longrightarrow> P (xs ! nat n))"
proof -
  have "(\<forall>i < length xs. P (xs ! i)) \<longleftrightarrow> (\<forall>n. 0 \<le> n \<and> n < int (length xs) \<longrightarrow> P (xs ! nat n))"
    by (metis int_nat_eq nat_int nat_less_iff of_nat_0_le_iff of_nat_less_iff)
  then show ?thesis by (simp only: list_all_length)
qed

lemma cluster_ok_put [inv_intros]: "cluster_ok c \<Longrightarrow> cluster_ok (cluster_put h d c)"
  by (auto simp: cluster_ok_def [of "cluster_put h d c"] list_all_nat_nth node_data_put distinct_update)
    (auto simp: cluster_ok_def list_all_nat_nth distinct_update)

lemma set_map_set: "set (map_set k v m) \<subseteq> insert (k, v) (set m)"
  by (induction m) auto

lemma cluster_sound_put [inv_intros]:
  assumes ok: "cluster_ok c" and sound: "cluster_sound c" and h: "sha256Hex d = h"
  shows "cluster_sound (cluster_put h d c)"
  unfolding cluster_sound_def list_all_nat_nth [of "list_all _"]
proof (intro allI impI)
  fix n assume n: "0 \<le> n \<and> n < int (length (cl_data (cluster_put h d c)))"
  then have "list_all (\<lambda>(h, d). sha256Hex d = h) (cl_data c ! nat n)"
    using sound by (simp add: cluster_sound_def list_all_nat_nth [of "list_all _"])
  with n h show "list_all (\<lambda>(h, d). sha256Hex d = h) (cl_data (cluster_put h d c) ! nat n)"
    using set_map_set [of h d "cl_data c ! nat n"]
    by (fastforce simp: node_data_put [OF ok] list_all_iff)
qed

lemma cluster_ok_setUp: "cluster_ok c \<Longrightarrow> setUp n up c = Inr c' \<Longrightarrow> cluster_ok c'"
  by (auto simp: cluster_ok_def setUp_def split: if_splits)

lemma cluster_sound_setUp: "cluster_sound c \<Longrightarrow> setUp n up c = Inr c' \<Longrightarrow> cluster_sound c'"
  by (auto simp: cluster_sound_def setUp_def split: if_splits)

lemma cluster_ok_recoverAll [inv_intros]: "cluster_ok c \<Longrightarrow> cluster_ok (recoverAll c)"
  by (simp add: cluster_ok_def recoverAll_def)

lemma cluster_sound_recoverAll [inv_intros]: "cluster_sound c \<Longrightarrow> cluster_sound (recoverAll c)"
  by (simp add: cluster_sound_def recoverAll_def)

lemma placement_valid:
  "cluster_ok c \<Longrightarrow> n \<in> set (placement h c) \<Longrightarrow> valid_node c n"
  using code.place_range [of c h] by (auto simp: nodeCount_def)

lemma put_replicated: "cluster_ok c \<Longrightarrow> code.replicated h d (cluster_put h d c)"
  by (simp add: code.replicated_def node_lookup_put placement_valid)

lemma put_other:
  "cluster_ok c \<Longrightarrow> h' \<noteq> h \<Longrightarrow> code.replicated h' d' (cluster_put h d c) \<longleftrightarrow> code.replicated h' d' c"
  by (simp add: code.replicated_def node_lookup_put placement_valid)

section \<open>Reads are content-addressed\<close>

definition cluster_fetch :: "string \<Rightarrow> cluster \<Rightarrow> bytes throws" where
  "cluster_fetch h c = (case cluster_get h c of Inl err \<Rightarrow> Inl err | Inr (d, _) \<Rightarrow> Inr d)"

definition cluster_inv :: "cluster \<Rightarrow> bool" where
  "cluster_inv c \<longleftrightarrow> cluster_ok c \<and> cluster_sound c"

lemma cluster_inv_put [inv_intros]:
  "cluster_inv c \<Longrightarrow> sha256Hex d = h \<Longrightarrow> cluster_inv (cluster_put h d c)"
  by (simp add: cluster_inv_def cluster_ok_put cluster_sound_put)

lemma cluster_inv_recoverAll [inv_intros]: "cluster_inv c \<Longrightarrow> cluster_inv (recoverAll c)"
  by (simp add: cluster_inv_def cluster_ok_recoverAll cluster_sound_recoverAll)

lemma cluster_inv_new: "new_cluster n r = Inr c \<Longrightarrow> cluster_inv c"
  by (simp add: cluster_inv_def cluster_ok_new)

lemma cluster_inv_setUp: "cluster_inv c \<Longrightarrow> setUp node up c = Inr c' \<Longrightarrow> cluster_inv c'"
  by (auto simp: cluster_inv_def dest: cluster_ok_setUp cluster_sound_setUp)

interpretation node: content_addressed cluster_fetch cluster_inv
proof unfold_locales
  fix c h d assume inv: "cluster_inv c" and "cluster_fetch h c = Inr d"
  then obtain n where "cluster_get h c = Inr (d, n)"
    by (auto simp: cluster_fetch_def split: sum.splits)
  then have n: "n \<in> set (placement h c)" "node_lookup c n h = Some d"
    using code.fetch_from by blast+
  have "n \<in> {0..<int (length (cl_data c))}"
    using n(1) code.place_range [of c h] inv by (auto simp: cluster_inv_def cluster_ok_def nodeCount_def)
  then have "list_all (\<lambda>(h, d). sha256Hex d = h) (cl_data c ! nat n)"
    using inv by (simp add: cluster_inv_def cluster_sound_def list_all_nat_nth [of "list_all _"])
  then show "sha256Hex d = h" using n(2) by (auto simp: list_all_iff dest: map_of_SomeD)
qed

section \<open>Switching nodes\<close>

lemma setUp_up:
  "setUp node b c = Inr c' \<Longrightarrow> 0 \<le> n \<Longrightarrow> node_up c' n \<longleftrightarrow> (if n = node then b else node_up c n)"
  by (auto simp: setUp_def nth_list_update nat_eq_iff split: if_splits)

lemma setUp_data: "setUp node b c = Inr c' \<Longrightarrow> cl_data c' = cl_data c \<and> length (cl_up c') = length (cl_up c)
    \<and> cl_replication c' = cl_replication c"
  by (auto simp: setUp_def split: if_splits)

lemma setUp_ok: "valid_node c node \<Longrightarrow> \<exists>c'. setUp node b c = Inr c'"
  by (auto simp: setUp_def)

lemma recoverAll_up: "valid_node c n \<Longrightarrow> node_up (recoverAll c) n"
  by (simp add: recoverAll_def nat_less_iff)

lemma recoverAll_data [simp]: "cl_data (recoverAll c) = cl_data c" "length (cl_up (recoverAll c)) = length (cl_up c)"
  "cl_replication (recoverAll c) = cl_replication c"
  by (simp_all add: recoverAll_def)

end
