(* ===== verification/Chunker.thy ===== *)
theory Chunker
  imports Sha256
begin

text \<open>
  web/src/sim/chunker.ts: fixed-size chunking. \<open>chunk_loop\<close> is the while loop as a total
  function, for the positive step that line 21 establishes; \<open>chunk_loop_js\<close> is the loop with
  any step, where not returning is \<open>None\<close>, and the two agree exactly when the step is positive
  (\<open>chunk_loop_js_returns\<close>, \<open>chunk_loop_js_stuck\<close>). \<open>pieces\<close> is the reference definition the
  loop is proved equal to.
\<close>

section \<open>The code\<close>

definition DEFAULT_CHUNK_SIZE :: int where
  "DEFAULT_CHUNK_SIZE = 64"

record chunk =
  chunk_hash :: string
  chunk_data :: bytes

definition make_chunk :: "bytes \<Rightarrow> chunk" where
  "make_chunk d = \<lparr>chunk_hash = sha256Hex d, chunk_data = d\<rparr>"

definition subarray :: "bytes \<Rightarrow> nat \<Rightarrow> nat \<Rightarrow> bytes" where
  "subarray buffer from to = take (to - from) (drop from buffer)"

text \<open>Lines 22 to 30. The step is positive after line 21; the guard \<open>0 < chunkSize\<close> only
  makes the function total.\<close>

function chunk_loop :: "bytes \<Rightarrow> nat \<Rightarrow> nat \<Rightarrow> chunk list \<Rightarrow> chunk list" where
  "chunk_loop buffer chunkSize offset chunks =
     (if offset < length buffer \<and> 0 < chunkSize
      then let len = min chunkSize (length buffer - offset);
               data = subarray buffer offset (offset + len)
           in chunk_loop buffer chunkSize (offset + len) (chunks @ [make_chunk data])
      else chunks)"
  by pat_completeness auto
termination
  by (relation "measure (\<lambda>(buffer, chunkSize, offset, chunks). length buffer - offset)") auto

declare chunk_loop.simps [simp del]

text \<open>The same loop for any step, where \<open>None\<close> is a loop that does not return.\<close>

partial_function (option) chunk_loop_js ::
  "bytes \<Rightarrow> nat \<Rightarrow> nat \<Rightarrow> chunk list \<Rightarrow> chunk list option" where
  "chunk_loop_js buffer chunkSize offset chunks =
     (if offset < length buffer
      then let len = min chunkSize (length buffer - offset);
               data = subarray buffer offset (offset + len)
           in chunk_loop_js buffer chunkSize (offset + len) (chunks @ [make_chunk data])
      else Some chunks)"

definition effective_chunk_size :: "int \<Rightarrow> int" where
  "effective_chunk_size chunkSize = (if chunkSize \<le> 0 then DEFAULT_CHUNK_SIZE else chunkSize)"

definition chunkBuffer :: "bytes \<Rightarrow> int \<Rightarrow> chunk list" where
  "chunkBuffer buffer chunkSize =
     chunk_loop buffer (nat (effective_chunk_size chunkSize)) 0 []"

section \<open>The reference definition\<close>

function pieces :: "nat \<Rightarrow> 'a list \<Rightarrow> 'a list list" where
  "pieces n xs = (if xs = [] \<or> n = 0 then [] else take n xs # pieces n (drop n xs))"
  by pat_completeness auto
termination
  by (relation "measure (\<lambda>(n, xs). length xs)") auto

declare pieces.simps [simp del]

lemma pieces_Nil [simp]: "pieces n [] = []"
  by (simp add: pieces.simps)

lemma pieces_step: "xs \<noteq> [] \<Longrightarrow> 0 < n \<Longrightarrow> pieces n xs = take n xs # pieces n (drop n xs)"
  by (simp add: pieces.simps [of n xs])

lemma concat_pieces: "0 < n \<Longrightarrow> concat (pieces n xs) = xs"
  by (induction n xs rule: pieces.induct) (auto simp: pieces.simps)

lemma pieces_length:
  assumes "p \<in> set (pieces n xs)"
  shows "0 < length p \<and> length p \<le> n"
  using assms
proof (induction n xs rule: pieces.induct)
  case (1 n xs)
  then show ?case
    by (cases "xs = [] \<or> n = 0") (auto simp: pieces.simps [of n xs])
qed

lemma nth_pieces:
  "0 < n \<Longrightarrow> i < length (pieces n xs) \<Longrightarrow> pieces n xs ! i = take n (drop (i * n) xs)"
proof (induction n xs arbitrary: i rule: pieces.induct)
  case (1 n xs)
  then show ?case
    by (cases "xs = []"; cases i) (auto simp: pieces_step add.commute)
qed

lemma length_pieces: "0 < n \<Longrightarrow> length (pieces n xs) = (length xs + n - 1) div n"
proof (induction n xs rule: pieces.induct)
  case (1 n xs)
  show ?case
  proof (cases "xs = []")
    case True
    with "1.prems" show ?thesis by simp
  next
    case False
    then have "length (pieces n xs) = Suc ((length xs - n + n - 1) div n)"
      using "1.IH" "1.prems" by (simp add: pieces_step)
    also have "\<dots> = (length xs + n - 1) div n"
    proof (cases "n \<le> length xs")
      case True
      then have "length xs + n - 1 = (length xs - n + n - 1) + n"
        using False by (simp add: Suc_leI)
      with "1.prems" show ?thesis by (simp only: div_add_self2)
    next
      case less: False
      then have "length xs - n + n - 1 = n - 1" "length xs + n - 1 = (length xs - 1) + n"
        using False by (cases xs; simp)+
      moreover have "(n - 1) div n = 0" "((length xs - 1) + n) div n = Suc ((length xs - 1) div n)"
        "(length xs - 1) div n = 0"
        using less "1.prems" by (simp_all only: div_add_self2) simp_all
      ultimately show ?thesis by (simp only:)
    qed
    finally show ?thesis .
  qed
qed

section \<open>The loop computes the pieces\<close>

lemma chunk_loop_pieces:
  "0 < n \<Longrightarrow> chunk_loop buffer n offset chunks = chunks @ map make_chunk (pieces n (drop offset buffer))"
proof (induction buffer n offset chunks rule: chunk_loop.induct)
  case (1 buffer n offset chunks)
  show ?case
  proof (cases "offset < length buffer")
    case False
    then show ?thesis by (simp add: chunk_loop.simps [of buffer])
  next
    case True
    define len where "len = min n (length buffer - offset)"
    have data: "subarray buffer offset (offset + len) = take n (drop offset buffer)"
      by (simp add: subarray_def len_def min_def)
    have rest: "drop (offset + len) buffer = drop n (drop offset buffer)"
      by (simp add: len_def min_def add.commute)
    have "pieces n (drop offset buffer) = take n (drop offset buffer) # pieces n (drop (offset + len) buffer)"
      using True "1.prems" by (simp only: rest) (rule pieces_step, simp_all)
    then show ?thesis
      using "1.IH" [OF _ refl refl] True "1.prems"
      by (simp add: chunk_loop.simps [of buffer n offset] Let_def data flip: len_def)
  qed
qed

lemma effective_chunk_size_pos: "0 < effective_chunk_size n"
  by (simp add: effective_chunk_size_def DEFAULT_CHUNK_SIZE_def)

lemma chunkBuffer_pieces:
  "chunkBuffer buffer n = map make_chunk (pieces (nat (effective_chunk_size n)) buffer)"
  using effective_chunk_size_pos [of n] by (simp add: chunkBuffer_def chunk_loop_pieces)

lemma concat_chunkBuffer: "concat (map chunk_data (chunkBuffer buffer n)) = buffer"
  using effective_chunk_size_pos [of n]
  by (simp add: chunkBuffer_pieces comp_def make_chunk_def concat_pieces)

lemma chunkBuffer_hash: "c \<in> set (chunkBuffer buffer n) \<Longrightarrow> chunk_hash c = sha256Hex (chunk_data c)"
  by (auto simp: chunkBuffer_pieces make_chunk_def)

text \<open>The loop returns for every positive step, with the value of the total function, and
  runs forever on a non-empty buffer with the step 0 that line 21 rules out.\<close>

lemma chunk_loop_js_returns:
  "0 < n \<Longrightarrow> chunk_loop_js buffer n offset chunks = Some (chunk_loop buffer n offset chunks)"
proof (induction buffer n offset chunks rule: chunk_loop.induct)
  case (1 buffer n offset chunks)
  then show ?case
    by (simp add: chunk_loop_js.simps [of buffer n offset] chunk_loop.simps [of buffer n offset] Let_def)
qed

lemma chunk_loop_js_stuck:
  assumes "offset < length buffer"
  shows "chunk_loop_js buffer 0 offset chunks = None"
proof (rule ccontr)
  assume "chunk_loop_js buffer 0 offset chunks \<noteq> None"
  then obtain r where ret: "chunk_loop_js buffer 0 offset chunks = Some r" by auto
  have "n = 0 \<longrightarrow> \<not> offset < length buffer" if "chunk_loop_js buffer n offset chunks = Some r" for n
  proof (rule chunk_loop_js.raw_induct
      [where P = "\<lambda>buffer n offset chunks r. n = 0 \<longrightarrow> \<not> offset < length buffer", OF _ that])
    fix f buffer n offset chunks r
    assume IH: "\<And>buffer n offset chunks r. f buffer n offset chunks = Some r \<Longrightarrow>
        n = 0 \<longrightarrow> \<not> offset < length (buffer :: bytes)"
      and eq: "(if offset < length buffer
        then let len = min n (length buffer - offset); data = subarray buffer offset (offset + len)
             in f buffer n (offset + len) (chunks @ [make_chunk data])
        else Some chunks) = Some r"
    show "n = 0 \<longrightarrow> \<not> offset < length buffer"
      using eq IH [of buffer n "offset + min n (length buffer - offset)"] by (auto simp: Let_def)
  qed
  from this [OF ret] assms show False by simp
qed

end
