(* ===== verification/Engine.thy ===== *)
theory Engine
  imports Chunker ContentStore
begin

text \<open>
  web/src/sim/engine.ts: manifests, incremental snapshots, restore, verify and the unique
  chunks of a manifest. The invariant \<open>engine_ok\<close> says that every stored chunk hashes to its
  address, that every manifest refers to stored chunks only and sits under its own name; it
  holds in every reachable engine. The functional lemmas give the manifest, the statistics
  and the store that a snapshot leaves, without the loops.
\<close>

section \<open>Data\<close>

record file_entry =
  fe_path :: string
  fe_size :: nat
  fe_chunks :: "string list"

record manifest =
  mf_name :: string
  mf_chunkSize :: int
  mf_files :: "file_entry list"

record source_file =
  sf_path :: string
  sf_data :: bytes

record snapshot_stats =
  st_files :: nat
  st_chunks :: nat
  st_newChunks :: nat
  st_dedupedChunks :: nat
  st_bytes :: nat

record verify_result =
  vr_checked :: nat
  vr_bad :: nat
  vr_firstBadHash :: string

record chunk_trace =
  ct_hash :: string
  ct_isNew :: bool

record file_trace =
  ft_path :: string
  ft_chunks :: "chunk_trace list"

record snapshot_result =
  sr_manifest :: manifest
  sr_stats :: snapshot_stats
  sr_trace :: "file_trace list"

record engine =
  en_store :: content_store
  en_manifests :: "(string, manifest) js_map"
  en_chunkSize :: int

definition new_engine :: "int \<Rightarrow> engine" where
  "new_engine chunkSize =
     \<lparr>en_store = new_store, en_manifests = [],
      en_chunkSize = (if chunkSize \<le> 0 then DEFAULT_CHUNK_SIZE else chunkSize)\<rparr>"

section \<open>Snapshot\<close>

text \<open>Lines 89 to 96: the chunks of one file.\<close>

fun snapshot_chunks ::
  "chunk list \<Rightarrow> content_store \<Rightarrow> snapshot_stats \<Rightarrow> file_entry \<Rightarrow> file_trace
   \<Rightarrow> content_store \<times> snapshot_stats \<times> file_entry \<times> file_trace" where
  "snapshot_chunks [] store stats fe fileTrace = (store, stats, fe, fileTrace)"
| "snapshot_chunks (c # cs) store stats fe fileTrace =
     (let fe = fe\<lparr>fe_chunks := fe_chunks fe @ [chunk_hash c]\<rparr>;
          stats = stats\<lparr>st_chunks := st_chunks stats + 1\<rparr>;
          (isNew, store) = store_put (chunk_hash c) (chunk_data c) store;
          stats = (if isNew then stats\<lparr>st_newChunks := st_newChunks stats + 1\<rparr>
                   else stats\<lparr>st_dedupedChunks := st_dedupedChunks stats + 1\<rparr>);
          fileTrace = fileTrace\<lparr>ft_chunks := ft_chunks fileTrace
                        @ [\<lparr>ct_hash = chunk_hash c, ct_isNew = isNew\<rparr>]\<rparr>
      in snapshot_chunks cs store stats fe fileTrace)"

text \<open>Lines 84 to 101: the files.\<close>

fun snapshot_files ::
  "int \<Rightarrow> source_file list \<Rightarrow> content_store \<Rightarrow> snapshot_stats \<Rightarrow> manifest \<Rightarrow> file_trace list
   \<Rightarrow> content_store \<times> snapshot_stats \<times> manifest \<times> file_trace list" where
  "snapshot_files cs [] store stats mf trace = (store, stats, mf, trace)"
| "snapshot_files cs (src # srcs) store stats mf trace =
     (let fe = \<lparr>fe_path = sf_path src, fe_size = length (sf_data src), fe_chunks = []\<rparr>;
          stats = stats\<lparr>st_bytes := st_bytes stats + length (sf_data src)\<rparr>;
          fileTrace = \<lparr>ft_path = sf_path src, ft_chunks = []\<rparr>;
          (store, stats, fe, fileTrace) =
            snapshot_chunks (chunkBuffer (sf_data src) cs) store stats fe fileTrace;
          mf = mf\<lparr>mf_files := mf_files mf @ [fe]\<rparr>;
          trace = trace @ [fileTrace];
          stats = stats\<lparr>st_files := st_files stats + 1\<rparr>
      in snapshot_files cs srcs store stats mf trace)"

definition cmp_path :: "source_file \<Rightarrow> source_file \<Rightarrow> int" where
  "cmp_path a b = (if sf_path a < sf_path b then -1 else 1)"

definition snapshot :: "string \<Rightarrow> source_file list \<Rightarrow> engine \<Rightarrow> snapshot_result \<times> engine" where
  "snapshot name files e =
     (let mf = \<lparr>mf_name = name, mf_chunkSize = en_chunkSize e, mf_files = []\<rparr>;
          stats = \<lparr>st_files = 0, st_chunks = 0, st_newChunks = 0, st_dedupedChunks = 0, st_bytes = 0\<rparr>;
          ordered = js_sort cmp_path files;
          (store, stats, mf, trace) = snapshot_files (en_chunkSize e) ordered (en_store e) stats mf []
      in (\<lparr>sr_manifest = mf, sr_stats = stats, sr_trace = trace\<rparr>,
          e\<lparr>en_store := store, en_manifests := map_set name mf (en_manifests e)\<rparr>))"

section \<open>Restore, verify, unique chunks\<close>

definition loadManifest :: "string \<Rightarrow> engine \<Rightarrow> manifest throws" where
  "loadManifest name e =
     (case map_get (en_manifests e) name of
        None \<Rightarrow> Inl (Error (''snapshot not found: '' @ name))
      | Some m \<Rightarrow> Inr m)"

text \<open>\<open>data.set(p, off)\<close> for the parts in order, into a buffer of the total size. The language
  refuses a part that does not fit with a \<open>RangeError\<close>.\<close>

definition u8_set :: "bytes \<Rightarrow> nat \<Rightarrow> bytes \<Rightarrow> bytes throws" where
  "u8_set data off p =
     (if off + length p \<le> length data then Inr (take off data @ p @ drop (off + length p) data)
      else Inl (Error ''offset is out of bounds''))"

fun set_parts :: "bytes \<Rightarrow> nat \<Rightarrow> bytes list \<Rightarrow> bytes throws" where
  "set_parts data off [] = Inr data"
| "set_parts data off (p # ps) =
     throw_bind (u8_set data off p) (\<lambda>data. set_parts data (off + length p) ps)"

definition restore_file :: "content_store \<Rightarrow> file_entry \<Rightarrow> source_file throws" where
  "restore_file store fe =
     (case map_throw (\<lambda>h. store_get h store) (fe_chunks fe) of
        Inl err \<Rightarrow> Inl err
      | Inr parts \<Rightarrow>
          let total = foldl (\<lambda>t buf. t + length buf) 0 parts
          in throw_bind (set_parts (replicate total 0) 0 parts) (\<lambda>data.
               Inr \<lparr>sf_path = fe_path fe, sf_data = data\<rparr>))"

definition engine_restore :: "string \<Rightarrow> engine \<Rightarrow> source_file list throws" where
  "engine_restore name e =
     (case loadManifest name e of
        Inl err \<Rightarrow> Inl err
      | Inr m \<Rightarrow> map_throw (restore_file (en_store e)) (mf_files m))"

text \<open>The references of a manifest in order, with repetitions.\<close>

definition chunk_refs :: "manifest \<Rightarrow> string list" where
  "chunk_refs m = concat (map fe_chunks (mf_files m))"

definition collect :: "manifest \<Rightarrow> string list \<Rightarrow> string list" where
  "collect m hashes =
     foldl (\<lambda>hs fe. foldl (\<lambda>hs h. set_add h hs) hs (fe_chunks fe)) hashes (mf_files m)"

fun verify_loop :: "content_store \<Rightarrow> string list \<Rightarrow> verify_result \<Rightarrow> verify_result throws" where
  "verify_loop store [] r = Inr r"
| "verify_loop store (h # hs) r =
     (case store_get h store of
        Inl err \<Rightarrow> Inl err
      | Inr data \<Rightarrow>
          let actual = sha256Hex data;
              r = r\<lparr>vr_checked := vr_checked r + 1\<rparr>;
              r = (if actual \<noteq> h
                   then let r = r\<lparr>vr_bad := vr_bad r + 1\<rparr>
                        in if vr_firstBadHash r = [] then r\<lparr>vr_firstBadHash := h\<rparr> else r
                   else r)
          in verify_loop store hs r)"

definition verify :: "string \<Rightarrow> engine \<Rightarrow> verify_result throws" where
  "verify name e =
     (let hashes = (if name = []
                    then Inr (foldl (\<lambda>hs m. collect m hs) [] (map_values (en_manifests e)))
                    else case loadManifest name e of Inl err \<Rightarrow> Inl err | Inr m \<Rightarrow> Inr (collect m []))
      in case hashes of
           Inl err \<Rightarrow> Inl err
         | Inr hs \<Rightarrow> verify_loop (en_store e) hs \<lparr>vr_checked = 0, vr_bad = 0, vr_firstBadHash = []\<rparr>)"

definition uniqueChunks :: "manifest \<Rightarrow> string list" where
  "uniqueChunks m =
     js_sort cmp_string (foldl (\<lambda>seen f. foldl (\<lambda>seen h. set_add h seen) seen (fe_chunks f)) [] (mf_files m))"

section \<open>What a snapshot does, without the loops\<close>

text \<open>The chunks a file is stored under, the writes it makes, and the entry it gets.\<close>

definition file_writes :: "int \<Rightarrow> source_file \<Rightarrow> (string \<times> bytes) list" where
  "file_writes cs f = map (\<lambda>c. (chunk_hash c, chunk_data c)) (chunkBuffer (sf_data f) cs)"

definition file_hashes :: "int \<Rightarrow> source_file \<Rightarrow> string list" where
  "file_hashes cs f = map chunk_hash (chunkBuffer (sf_data f) cs)"

definition entry_of :: "int \<Rightarrow> source_file \<Rightarrow> file_entry" where
  "entry_of cs f = \<lparr>fe_path = sf_path f, fe_size = length (sf_data f), fe_chunks = file_hashes cs f\<rparr>"

definition put_all :: "content_store \<Rightarrow> (string \<times> bytes) list \<Rightarrow> content_store" where
  "put_all s kvs = foldl (\<lambda>s (k, v). snd (store_put k v s)) s kvs"

lemma put_all_simps [simp]:
  "put_all s [] = s" "put_all s ((k, v) # kvs) = put_all (snd (store_put k v s)) kvs"
  "put_all s (kvs @ kvs') = put_all (put_all s kvs) kvs'"
  by (simp_all add: put_all_def)

lemma map_fst_file_writes: "map fst (file_writes cs f) = file_hashes cs f"
  by (simp add: file_writes_def file_hashes_def)

lemma file_writes_hash: "(h, d) \<in> set (file_writes cs f) \<Longrightarrow> sha256Hex d = h"
  by (auto simp: file_writes_def chunkBuffer_hash)

lemma file_hashes_writes: "file_hashes cs f = map sha256Hex (map snd (file_writes cs f))"
  using file_writes_hash by (auto simp flip: map_fst_file_writes)

lemma concat_file_writes: "concat (map snd (file_writes cs f)) = sf_data f"
  by (simp add: file_writes_def comp_def concat_chunkBuffer)

lemma snapshot_chunks_result:
  "snapshot_chunks chs store stats fe ft = (store', stats', fe', ft') \<Longrightarrow>
   store' = put_all store (map (\<lambda>c. (chunk_hash c, chunk_data c)) chs)
   \<and> fe' = fe\<lparr>fe_chunks := fe_chunks fe @ map chunk_hash chs\<rparr>
   \<and> stats' = stats\<lparr>st_chunks := st_chunks stats + length chs,
        st_newChunks := st_newChunks stats + (store_size store' - store_size store),
        st_dedupedChunks := st_dedupedChunks stats + (length chs - (store_size store' - store_size store))\<rparr>
   \<and> store_size store \<le> store_size store' \<and> store_size store' \<le> store_size store + length chs"
proof (induction chs arbitrary: store stats fe ft)
  case (Cons c chs)
  show ?case
    using Cons.prems
    by (cases rule: store_put_cases [of "chunk_hash c" store "chunk_data c"];
        auto dest!: Cons.IH simp: Let_def store_size_def)
qed auto

definition manifest_of :: "string \<Rightarrow> int \<Rightarrow> source_file list \<Rightarrow> manifest" where
  "manifest_of name cs files =
     \<lparr>mf_name = name, mf_chunkSize = cs, mf_files = map (entry_of cs) (js_sort cmp_path files)\<rparr>"

definition all_writes :: "int \<Rightarrow> source_file list \<Rightarrow> (string \<times> bytes) list" where
  "all_writes cs files = concat (map (file_writes cs) files)"

definition stats_of :: "int \<Rightarrow> source_file list \<Rightarrow> content_store \<Rightarrow> snapshot_stats" where
  "stats_of cs files store =
     (let refs = length (all_writes cs files);
          fresh = store_size (put_all store (all_writes cs files)) - store_size store
      in \<lparr>st_files = length files, st_chunks = refs, st_newChunks = fresh,
          st_dedupedChunks = refs - fresh, st_bytes = sum_list (map (length \<circ> sf_data) files)\<rparr>)"

lemma length_file_hashes: "length (file_hashes cs f) = length (file_writes cs f)"
  by (simp add: file_hashes_def file_writes_def)

lemma snapshot_files_result:
  "snapshot_files cs srcs store stats mf trace = (store', stats', mf', trace') \<Longrightarrow>
   store' = put_all store (all_writes cs srcs)
   \<and> mf' = mf\<lparr>mf_files := mf_files mf @ map (entry_of cs) srcs\<rparr>
   \<and> stats' = \<lparr>st_files = st_files stats + length srcs,
        st_chunks = st_chunks stats + length (all_writes cs srcs),
        st_newChunks = st_newChunks stats + (store_size store' - store_size store),
        st_dedupedChunks = st_dedupedChunks stats
          + (length (all_writes cs srcs) - (store_size store' - store_size store)),
        st_bytes = st_bytes stats + sum_list (map (length \<circ> sf_data) srcs)\<rparr>
   \<and> store_size store \<le> store_size store'
   \<and> store_size store' \<le> store_size store + length (all_writes cs srcs)"
proof (induction srcs arbitrary: store stats mf trace)
  case Nil
  then show ?case by (simp add: all_writes_def)
next
  case (Cons f srcs)
  define fe where "fe = \<lparr>fe_path = sf_path f, fe_size = length (sf_data f), fe_chunks = []\<rparr>"
  define ft where "ft = \<lparr>ft_path = sf_path f, ft_chunks = []\<rparr>"
  define st where "st = stats\<lparr>st_bytes := st_bytes stats + length (sf_data f)\<rparr>"
  obtain store1 stats1 fe1 ft1 where
    chunks: "snapshot_chunks (chunkBuffer (sf_data f) cs) store st fe ft = (store1, stats1, fe1, ft1)"
    by (metis prod_cases4)
  have "snapshot_files cs (f # srcs) store stats mf trace =
      snapshot_files cs srcs store1 (stats1\<lparr>st_files := st_files stats1 + 1\<rparr>)
        (mf\<lparr>mf_files := mf_files mf @ [fe1]\<rparr>) (trace @ [ft1])"
    using chunks by (simp add: Let_def fe_def ft_def st_def)
  note IH = Cons.IH [OF this [symmetric, THEN trans, OF Cons.prems]]
  have fe1: "fe1 = entry_of cs f"
    using snapshot_chunks_result [OF chunks] by (simp add: entry_of_def file_hashes_def fe_def)
  have writes: "all_writes cs (f # srcs) = file_writes cs f @ all_writes cs srcs"
    by (simp add: all_writes_def)
  show ?case
    using IH snapshot_chunks_result [OF chunks]
    unfolding writes fe1 by (auto simp: st_def file_writes_def)
qed

lemma snapshot_eq:
  "snapshot name files e = (r, e') \<Longrightarrow>
   sr_manifest r = manifest_of name (en_chunkSize e) files
   \<and> sr_stats r = stats_of (en_chunkSize e) (js_sort cmp_path files) (en_store e)
   \<and> e' = e\<lparr>en_store := put_all (en_store e) (all_writes (en_chunkSize e) (js_sort cmp_path files)),
         en_manifests := map_set name (manifest_of name (en_chunkSize e) files) (en_manifests e)\<rparr>"
  by (auto simp: snapshot_def Let_def manifest_of_def stats_of_def
      split: prod.splits dest!: snapshot_files_result)

lemma snapshot_store:
  "en_store (snd (snapshot name files e)) =
     put_all (en_store e) (all_writes (en_chunkSize e) (js_sort cmp_path files))"
  using snapshot_eq [of name files e] by (cases "snapshot name files e") auto

lemma snapshot_manifests:
  "en_manifests (snd (snapshot name files e)) =
     map_set name (manifest_of name (en_chunkSize e) files) (en_manifests e)"
  using snapshot_eq [of name files e] by (cases "snapshot name files e") auto

lemma snapshot_chunkSize: "en_chunkSize (snd (snapshot name files e)) = en_chunkSize e"
  using snapshot_eq [of name files e] by (cases "snapshot name files e") auto

lemma snapshot_manifest:
  "sr_manifest (fst (snapshot name files e)) = manifest_of name (en_chunkSize e) files"
  using snapshot_eq [of name files e] by (cases "snapshot name files e") auto

lemma snapshot_stats:
  "sr_stats (fst (snapshot name files e)) = stats_of (en_chunkSize e) (js_sort cmp_path files) (en_store e)"
  using snapshot_eq [of name files e] by (cases "snapshot name files e") auto

lemmas snapshot_parts = snapshot_store snapshot_manifests snapshot_chunkSize

lemma sort_files: "distinct (map sf_path files) \<Longrightarrow> js_sort cmp_path files = sort_key sf_path files"
  by (rule js_sort_by_key) (auto simp: cmp_path_def distinct_map inj_on_def)

section \<open>The store after a snapshot\<close>

lemma store_lookup_put_all:
  "store_lookup (put_all s kvs) h =
     (case store_lookup s h of Some d \<Rightarrow> Some d | None \<Rightarrow> map_of kvs h)"
  unfolding put_all_def by (rule wo.lookup_put_all)

lemma put_all_keeps: "store_lookup s h = Some d \<Longrightarrow> store_lookup (put_all s kvs) h = Some d"
  by (simp add: store_lookup_put_all)

lemma store_ok_put_all [inv_intros]:
  "store_ok s \<Longrightarrow> (\<And>h d. (h, d) \<in> set kvs \<Longrightarrow> sha256Hex d = h) \<Longrightarrow> store_ok (put_all s kvs)"
proof (induction kvs arbitrary: s)
  case (Cons kv kvs)
  obtain h d where kv: "kv = (h, d)" by (cases kv)
  have "store_ok (snd (store_put h d s))"
    using Cons.prems kv by (intro store_ok_put) auto
  with Cons show ?case by (simp add: kv)
qed simp

lemma all_writes_hash: "(h, d) \<in> set (all_writes cs files) \<Longrightarrow> sha256Hex d = h"
  by (auto simp: all_writes_def file_writes_hash)

lemma put_all_present: "h \<in> fst ` set kvs \<Longrightarrow> store_has h (put_all s kvs)"
  by (auto simp: store_has_iff store_lookup_put_all split: option.splits dest: weak_map_of_SomeI)

text \<open>The bytes a store holds, and that a snapshot may add to them.\<close>

definition stored_data :: "content_store \<Rightarrow> bytes set" where
  "stored_data s = snd ` set (cs_chunks s)"

lemma stored_data_put_all: "stored_data (put_all s kvs) \<subseteq> stored_data s \<union> snd ` set kvs"
proof (induction kvs arbitrary: s)
  case (Cons kv kvs)
  obtain h d where kv: "kv = (h, d)" by (cases kv)
  have "stored_data (snd (store_put h d s)) \<subseteq> insert d (stored_data s)"
    by (cases rule: store_put_cases [of h s d]) (auto simp: stored_data_def)
  with Cons.IH [of "snd (store_put h d s)"] show ?case by (auto simp: kv)
qed simp

lemma store_lookup_stored: "store_lookup s h = Some d \<Longrightarrow> d \<in> stored_data s"
  by (force simp: stored_data_def dest: map_of_SomeD)

end
