(* ===== verification/Engine_Correct.thy ===== *)
theory Engine_Correct
  imports Engine
begin

text \<open>
  What web/src/sim/engine.ts promises: the invariant of reachable engines, the round trip of
  restore after snapshot, the independence of a restore from later snapshots, the statistics
  as counts of distinct hashes, the flags of the trace, the result of verify on every branch,
  and the unique chunks as the sorted set of references.
\<close>

section \<open>Restore\<close>

text \<open>The parts fit: the buffer is as long as they are together.\<close>

lemma set_parts_concat:
  "length rest = length (concat ps) \<Longrightarrow> set_parts (before @ rest) (length before) ps = Inr (before @ concat ps)"
proof (induction ps arbitrary: before rest)
  case (Cons p ps)
  have "u8_set (before @ rest) (length before) p = Inr ((before @ p) @ drop (length p) rest)"
    using Cons.prems by (simp add: u8_set_def)
  then show ?case
    using Cons.IH [of "drop (length p) rest" "before @ p"] Cons.prems by simp
qed simp

lemma foldl_lengths: "foldl (\<lambda>t buf. t + length buf) n ps = n + length (concat ps)"
  by (induction ps arbitrary: n) auto

lemma restore_file_eq:
  "restore_file store fe =
     (case map_throw (\<lambda>h. store_get h store) (fe_chunks fe) of
        Inl err \<Rightarrow> Inl err
      | Inr parts \<Rightarrow> Inr \<lparr>sf_path = fe_path fe, sf_data = concat parts\<rparr>)"
  using set_parts_concat [of "replicate n 0" ps "[]" for n ps]
  by (simp add: restore_file_def foldl_lengths Let_def split: sum.split)

text \<open>A file restored from its own entry is the file, unless two chunks share a digest.\<close>

lemma restore_entry:
  assumes ok: "store_ok s"
    and refs: "\<And>h. h \<in> set (file_hashes cs f) \<Longrightarrow> store_has h s"
    and inj: "inj_on sha256Hex (stored_data s \<union> snd ` set (file_writes cs f))"
  shows "restore_file s (entry_of cs f) = Inr f"
proof -
  define parts where "parts = map snd (file_writes cs f)"
  have hashes: "file_hashes cs f = map sha256Hex parts"
    by (simp only: parts_def file_hashes_writes)
  define got where "got = map (\<lambda>h. the (store_lookup s h)) (file_hashes cs f)"
  have fetch: "map_throw (\<lambda>h. store_get h s) (file_hashes cs f) = Inr got"
    unfolding got_def using refs
    by (intro map_throw_map) (auto simp: store_get_Inr_iff store_has_iff)
  have "set got \<subseteq> stored_data s"
    using refs by (auto simp: got_def store_has_iff intro: store_lookup_stored)
  then have "inj_on sha256Hex (set got \<union> set parts)"
    by (intro inj_on_subset [OF inj]) (auto simp: parts_def)
  then have "got = parts"
    using store.fetch_all_exact [OF ok] fetch by (simp only: hashes)
  then show ?thesis
    using fetch by (simp add: restore_file_eq entry_of_def parts_def concat_file_writes)
qed

lemma all_writes_sub: "f \<in> set files \<Longrightarrow> set (file_writes cs f) \<subseteq> set (all_writes cs files)"
  by (auto simp: all_writes_def)

lemma set_all_writes_sort [simp]: "set (all_writes cs (js_sort c files)) = set (all_writes cs files)"
  by (simp add: all_writes_def)

lemma loadManifest_snapshot:
  "loadManifest n (snd (snapshot name files e)) =
     (if n = name then Inr (manifest_of name (en_chunkSize e) files) else loadManifest n e)"
  by (simp add: loadManifest_def snapshot_manifests jm.lookup_upd)

lemma restore_snapshot:
  assumes ok: "store_ok (en_store e)"
    and inj: "inj_on sha256Hex
      (stored_data (en_store e) \<union> snd ` set (all_writes (en_chunkSize e) files))"
  shows "engine_restore name (snd (snapshot name files e)) = Inr (js_sort cmp_path files)"
proof -
  let ?cs = "en_chunkSize e" and ?s = "en_store (snd (snapshot name files e))"
  have store: "?s = put_all (en_store e) (all_writes ?cs (js_sort cmp_path files))"
    by (rule snapshot_store)
  have ok': "store_ok ?s"
    unfolding store using ok by (intro store_ok_put_all) (auto dest: all_writes_hash)
  have stored: "stored_data ?s \<subseteq> stored_data (en_store e) \<union> snd ` set (all_writes ?cs files)"
    unfolding store using stored_data_put_all [of _ "all_writes ?cs (js_sort cmp_path files)"] by simp
  have "restore_file ?s (entry_of ?cs f) = Inr f" if f: "f \<in> set files" for f
  proof (rule restore_entry [OF ok'])
    fix h assume "h \<in> set (file_hashes ?cs f)"
    then have "h \<in> fst ` set (all_writes ?cs files)"
      using all_writes_sub [OF f, of ?cs] by (auto simp flip: map_fst_file_writes)
    then show "store_has h ?s" unfolding store by (intro put_all_present) simp
  next
    show "inj_on sha256Hex (stored_data ?s \<union> snd ` set (file_writes ?cs f))"
      using stored all_writes_sub [OF f, of ?cs] by (intro inj_on_subset [OF inj]) auto
  qed
  then have "map_throw (restore_file ?s) (map (entry_of ?cs) (js_sort cmp_path files))
      = Inr (js_sort cmp_path files)"
    by (simp add: map_throw_Inr_iff list_all2_map1 list_all2_same)
  then show ?thesis
    by (simp add: engine_restore_def loadManifest_snapshot manifest_of_def)
qed

section \<open>The invariant\<close>

definition manifest_stored :: "content_store \<Rightarrow> manifest \<Rightarrow> bool" where
  "manifest_stored s m \<longleftrightarrow> list_all (\<lambda>h. store_has h s) (chunk_refs m)"

definition engine_ok :: "engine \<Rightarrow> bool" where
  "engine_ok e \<longleftrightarrow> store_ok (en_store e) \<and> map_wf (en_manifests e) \<and> 0 < en_chunkSize e
     \<and> list_all (\<lambda>(n, m). mf_name m = n \<and> manifest_stored (en_store e) m) (en_manifests e)"

inductive engine_reachable :: "engine \<Rightarrow> bool" where
  fresh: "engine_reachable (new_engine chunkSize)"
| snap: "engine_reachable e \<Longrightarrow> engine_reachable (snd (snapshot name files e))"

lemma chunk_refs_manifest_of:
  "chunk_refs (manifest_of name cs files) = map fst (all_writes cs (js_sort cmp_path files))"
  by (simp add: chunk_refs_def manifest_of_def entry_of_def all_writes_def map_concat comp_def
      map_fst_file_writes)

lemma mf_name_manifest_of: "mf_name (manifest_of name cs files) = name"
  by (simp add: manifest_of_def)

lemma manifest_stored_put_all: "manifest_stored s m \<Longrightarrow> manifest_stored (put_all s kvs) m"
  by (auto simp: manifest_stored_def list_all_iff store_has_iff store_lookup_put_all split: option.split)

lemma manifest_stored_snapshot:
  "manifest_stored (put_all s (all_writes cs (js_sort cmp_path files))) (manifest_of name cs files)"
  by (auto simp: manifest_stored_def list_all_iff chunk_refs_manifest_of intro!: put_all_present)

lemma engine_ok_new [inv_intros]: "engine_ok (new_engine chunkSize)"
  by (simp add: engine_ok_def new_engine_def DEFAULT_CHUNK_SIZE_def store_ok_new)

lemma engine_ok_snapshot [inv_intros]:
  assumes "engine_ok e"
  shows "engine_ok (snd (snapshot name files e))"
proof -
  have ok: "store_ok (en_store e)" and wf: "map_wf (en_manifests e)"
    and ms: "\<And>n m. (n, m) \<in> set (en_manifests e) \<Longrightarrow> mf_name m = n \<and> manifest_stored (en_store e) m"
    using assms by (auto simp: engine_ok_def list_all_iff)
  have "store_ok (put_all (en_store e) (all_writes (en_chunkSize e) (js_sort cmp_path files)))"
    using ok by (intro store_ok_put_all) (auto dest: all_writes_hash)
  moreover have "mf_name m = n \<and> manifest_stored
      (put_all (en_store e) (all_writes (en_chunkSize e) (js_sort cmp_path files))) m"
    if "(n, m) \<in> set (map_set name (manifest_of name (en_chunkSize e) files) (en_manifests e))" for n m
  proof -
    have "map_of (map_set name (manifest_of name (en_chunkSize e) files) (en_manifests e)) n = Some m"
      using that wf by (simp add: distinct_update)
    then consider "n = name" "m = manifest_of name (en_chunkSize e) files" | "(n, m) \<in> set (en_manifests e)"
      by (auto simp: update_conv' split: if_splits dest: map_of_SomeD)
    then show ?thesis
      using ms [of n m] manifest_stored_snapshot mf_name_manifest_of
      by cases (simp_all add: manifest_stored_put_all)
  qed
  ultimately show ?thesis
    using assms wf by (auto simp: engine_ok_def snapshot_parts distinct_update list_all_iff)
qed

lemma reachable_ok: "engine_reachable e \<Longrightarrow> engine_ok e"
  by (induction rule: engine_reachable.induct) (auto intro: inv_intros)

lemma engine_ok_store: "engine_ok e \<Longrightarrow> store_ok (en_store e)"
  by (simp add: engine_ok_def)

lemma engine_ok_manifest:
  "engine_ok e \<Longrightarrow> loadManifest n e = Inr m \<Longrightarrow> manifest_stored (en_store e) m \<and> mf_name m = n"
  by (auto simp: engine_ok_def loadManifest_def list_all_iff split: option.splits dest!: map_of_SomeD)

section \<open>Earlier snapshots stay\<close>

lemma map_throw_cong: "(\<And>x. x \<in> set xs \<Longrightarrow> f x = g x) \<Longrightarrow> map_throw f xs = map_throw g xs"
  by (induction xs) (auto split: sum.split)

lemma restore_file_grow:
  assumes "\<And>h. h \<in> set (fe_chunks fe) \<Longrightarrow> store_lookup s' h = store_lookup s h"
  shows "restore_file s' fe = restore_file s fe"
proof -
  have "map_throw (\<lambda>h. store_get h s') (fe_chunks fe) = map_throw (\<lambda>h. store_get h s) (fe_chunks fe)"
    by (rule map_throw_cong) (simp add: assms store_get_def)
  then show ?thesis by (simp add: restore_file_def)
qed

lemma restore_unchanged:
  assumes ok: "engine_ok e" and n: "n \<noteq> name" and m: "loadManifest n e = Inr m"
  shows "engine_restore n (snd (snapshot name files e)) = engine_restore n e"
proof -
  have stored: "\<And>h. h \<in> set (chunk_refs m) \<Longrightarrow> store_has h (en_store e)"
    using engine_ok_manifest [OF ok m] by (simp add: manifest_stored_def list_all_iff)
  have "map_throw (restore_file (en_store (snd (snapshot name files e)))) (mf_files m)
      = map_throw (restore_file (en_store e)) (mf_files m)"
  proof (rule map_throw_cong, rule restore_file_grow)
    fix fe h assume "fe \<in> set (mf_files m)" "h \<in> set (fe_chunks fe)"
    then have "store_has h (en_store e)" by (intro stored) (auto simp: chunk_refs_def)
    then show "store_lookup (en_store (snd (snapshot name files e))) h = store_lookup (en_store e) h"
      by (auto simp: store_has_iff snapshot_store put_all_keeps)
  qed
  with n m show ?thesis by (simp add: engine_restore_def loadManifest_snapshot)
qed

text \<open>Any run of later snapshots under other names.\<close>

definition snapshots :: "(string \<times> source_file list) list \<Rightarrow> engine \<Rightarrow> engine" where
  "snapshots runs e = foldl (\<lambda>e (name, files). snd (snapshot name files e)) e runs"

lemma snapshots_unchanged:
  assumes "engine_ok e" "n \<notin> fst ` set runs" "loadManifest n e = Inr m"
  shows "engine_restore n (snapshots runs e) = engine_restore n e"
  using assms
proof (induction runs arbitrary: e)
  case (Cons run runs)
  obtain name files where run: "run = (name, files)" by (cases run)
  have "engine_restore n (snapshots runs (snd (snapshot name files e)))
      = engine_restore n (snd (snapshot name files e))"
    using Cons.prems run by (intro Cons.IH) (auto simp: loadManifest_snapshot intro: inv_intros)
  also have "\<dots> = engine_restore n e"
    using Cons.prems run by (intro restore_unchanged) auto
  finally show ?case by (simp add: snapshots_def run)
qed (simp add: snapshots_def)

section \<open>Verify\<close>

definition is_bad :: "content_store \<Rightarrow> string \<Rightarrow> bool" where
  "is_bad s h = (case store_lookup s h of None \<Rightarrow> False | Some d \<Rightarrow> sha256Hex d \<noteq> h)"

text \<open>The empty string marks "no bad hash yet", so an empty bad address is passed over.\<close>

definition first_bad :: "content_store \<Rightarrow> string list \<Rightarrow> string" where
  "first_bad s hs = (case find (\<lambda>h. is_bad s h \<and> h \<noteq> []) hs of None \<Rightarrow> [] | Some h \<Rightarrow> h)"

lemma first_bad_bad: "first_bad s hs \<noteq> [] \<Longrightarrow> first_bad s hs \<in> set hs \<and> is_bad s (first_bad s hs)"
  by (induction hs) (auto simp: first_bad_def)

lemma first_bad_none: "filter (is_bad s) hs = [] \<Longrightarrow> first_bad s hs = []"
  by (induction hs) (auto simp: first_bad_def split: if_splits)

lemma first_bad_some: "[] \<notin> set hs \<Longrightarrow> first_bad s hs = [] \<longleftrightarrow> filter (is_bad s) hs = []"
  by (induction hs) (auto simp: first_bad_def)

lemma verify_loop_result:
  "verify_loop s hs r =
     (case find (\<lambda>h. \<not> store_has h s) hs of
        Some h \<Rightarrow> Inl (Error (''chunk not found in store: '' @ h))
      | None \<Rightarrow> Inr \<lparr>vr_checked = vr_checked r + length hs,
                     vr_bad = vr_bad r + length (filter (is_bad s) hs),
                     vr_firstBadHash = (if vr_firstBadHash r = [] then first_bad s hs
                                        else vr_firstBadHash r)\<rparr>)"
proof (induction hs arbitrary: r)
  case Nil
  show ?case by (cases r) (simp add: first_bad_def)
next
  case (Cons h hs)
  show ?case
  proof (cases "store_lookup s h")
    case None
    then show ?thesis by (simp add: store_get_def store_has_iff)
  next
    case (Some d)
    then show ?thesis
      by (auto simp: store_get_def store_has_iff Cons.IH Let_def is_bad_def first_bad_def
          split: option.split)
  qed
qed

lemma foldl_set_add_concat:
  "foldl (\<lambda>hs x. foldl (\<lambda>hs h. set_add h hs) hs (f x)) hs xs = foldl (\<lambda>hs h. set_add h hs) hs (concat (map f xs))"
  by (induction xs arbitrary: hs) auto

lemma set_foldl_set_add [simp]: "set (foldl (\<lambda>hs h. set_add h hs) hs xs) = set hs \<union> set xs"
  by (induction xs arbitrary: hs) auto

lemma distinct_foldl_set_add [simp]: "distinct (foldl (\<lambda>hs h. set_add h hs) hs xs) = distinct hs"
  by (induction xs arbitrary: hs) auto

lemma collect_refs: "collect m hs = foldl (\<lambda>hs h. set_add h hs) hs (chunk_refs m)"
  by (simp add: collect_def chunk_refs_def foldl_set_add_concat)

text \<open>The references that \<open>verify name\<close> is about.\<close>

definition verify_refs :: "string \<Rightarrow> engine \<Rightarrow> string list" where
  "verify_refs name e =
     (if name = [] then concat (map chunk_refs (map_values (en_manifests e)))
      else case loadManifest name e of Inl err \<Rightarrow> [] | Inr m \<Rightarrow> chunk_refs m)"

lemma loadManifest_iff: "(\<exists>m. loadManifest name e = Inr m) \<longleftrightarrow> map_has (en_manifests e) name"
  by (auto simp: loadManifest_def map_has_def split: option.split)

lemma verify_eq:
  assumes "name = [] \<or> map_has (en_manifests e) name"
  shows "verify name e = verify_loop (en_store e) (foldl (\<lambda>hs h. set_add h hs) [] (verify_refs name e))
           \<lparr>vr_checked = 0, vr_bad = 0, vr_firstBadHash = []\<rparr>"
proof (cases "name = []")
  case True
  then show ?thesis
    by (simp add: verify_def verify_refs_def collect_refs [abs_def] foldl_set_add_concat)
next
  case False
  with assms obtain m where "loadManifest name e = Inr m" by (auto simp flip: loadManifest_iff)
  with False show ?thesis by (simp add: verify_def verify_refs_def collect_refs)
qed

lemma length_filter_distinct: "distinct xs \<Longrightarrow> length (filter P xs) = card {x \<in> set xs. P x}"
  by (metis distinct_card distinct_filter set_filter)

definition unique_refs :: "string \<Rightarrow> engine \<Rightarrow> string list" where
  "unique_refs name e = foldl (\<lambda>hs h. set_add h hs) [] (verify_refs name e)"

lemma unique_refs [simp]: "set (unique_refs name e) = set (verify_refs name e)" "distinct (unique_refs name e)"
  by (simp_all add: unique_refs_def)

lemma verify_stored:
  assumes name: "name = [] \<or> map_has (en_manifests e) name"
    and stored: "\<And>h. h \<in> set (verify_refs name e) \<Longrightarrow> store_has h (en_store e)"
  shows "verify name e = Inr
    \<lparr>vr_checked = card (set (verify_refs name e)),
     vr_bad = card {h \<in> set (verify_refs name e). is_bad (en_store e) h},
     vr_firstBadHash = first_bad (en_store e) (unique_refs name e)\<rparr>"
proof -
  have "find (\<lambda>h. \<not> store_has h (en_store e)) (unique_refs name e) = None"
    using stored by (simp add: find_None_iff)
  moreover have "length (unique_refs name e) = card (set (verify_refs name e))"
    using distinct_card [of "unique_refs name e"] by simp
  moreover have "length (filter (is_bad (en_store e)) (unique_refs name e))
      = card {h \<in> set (verify_refs name e). is_bad (en_store e) h}"
    using length_filter_distinct [of "unique_refs name e"] by simp
  ultimately show ?thesis
    by (simp add: verify_eq [OF name] verify_loop_result flip: unique_refs_def)
qed

text \<open>The reported hash is a bad one, and there is one whenever some chunk is bad.\<close>

lemma first_bad_reported:
  assumes "[] \<notin> set hs"
  shows "first_bad s hs \<noteq> [] \<longleftrightarrow> {h \<in> set hs. is_bad s h} \<noteq> {}"
    and "first_bad s hs \<noteq> [] \<Longrightarrow> first_bad s hs \<in> {h \<in> set hs. is_bad s h}"
  using first_bad_some [OF assms, of s] first_bad_bad [of s hs] by (auto simp: filter_empty_conv)

lemma engine_ok_refs:
  assumes "engine_ok e" "h \<in> set (verify_refs name e)"
  shows "store_has h (en_store e)"
proof (cases "name = []")
  case True
  with assms show ?thesis
    by (fastforce simp: verify_refs_def engine_ok_def manifest_stored_def list_all_iff map_values_def)
next
  case False
  with assms obtain m where "loadManifest name e = Inr m" "h \<in> set (chunk_refs m)"
    by (cases "loadManifest name e") (simp_all add: verify_refs_def)
  with engine_ok_manifest [OF assms(1)] show ?thesis
    by (auto simp: manifest_stored_def list_all_iff)
qed

lemma store_ok_not_bad: "store_ok s \<Longrightarrow> \<not> is_bad s h"
  by (auto simp: is_bad_def store_ok_def split: option.split dest: map_of_SomeD)

lemma verify_ok:
  assumes ok: "engine_ok e" and name: "name = [] \<or> map_has (en_manifests e) name"
  shows "verify name e = Inr \<lparr>vr_checked = card (set (verify_refs name e)), vr_bad = 0, vr_firstBadHash = []\<rparr>"
proof -
  have good: "\<And>h. \<not> is_bad (en_store e) h"
    by (rule store_ok_not_bad [OF engine_ok_store [OF ok]])
  have "verify name e = Inr
      \<lparr>vr_checked = card (set (verify_refs name e)),
       vr_bad = card {h \<in> set (verify_refs name e). is_bad (en_store e) h},
       vr_firstBadHash = first_bad (en_store e) (unique_refs name e)\<rparr>"
    using name by (rule verify_stored) (rule engine_ok_refs [OF ok])
  then show ?thesis by (simp add: good first_bad_none)
qed

section \<open>Unique chunks\<close>

lemma cmp_string_less: "cmp_string a b < 0 \<longleftrightarrow> a < b"
  by (auto simp: cmp_string_def)

lemma uniqueChunks_eq: "uniqueChunks m = sorted_list_of_set (set (chunk_refs m))"
proof -
  define hs where "hs = foldl (\<lambda>hs h. set_add h hs) [] (chunk_refs m)"
  have hs: "distinct hs" "set hs = set (chunk_refs m)" by (simp_all add: hs_def)
  have "uniqueChunks m = js_sort cmp_string hs"
    by (simp add: uniqueChunks_def hs_def chunk_refs_def foldl_set_add_concat)
  also have "\<dots> = sort_key (\<lambda>x. x) hs"
    by (rule js_sort_by_key) (simp_all add: cmp_string_less hs)
  also have "\<dots> = sorted_list_of_set (set hs)"
    using hs(1) by (simp add: sorted_list_of_set_sort_remdups distinct_remdups_id)
  finally show ?thesis by (simp only: hs)
qed

lemma set_uniqueChunks [simp]: "set (uniqueChunks m) = set (chunk_refs m)"
  by (simp add: uniqueChunks_eq)

lemma distinct_uniqueChunks [simp]: "distinct (uniqueChunks m)"
  by (simp add: uniqueChunks_eq)

section \<open>Statistics\<close>

lemma put_all_chunks:
  "map_wf (cs_chunks s) \<Longrightarrow>
   map_wf (cs_chunks (put_all s kvs)) \<and> fst ` set (cs_chunks (put_all s kvs)) = fst ` set (cs_chunks s) \<union> fst ` set kvs"
proof (induction kvs arbitrary: s)
  case (Cons kv kvs)
  obtain h d where kv: "kv = (h, d)" by (cases kv)
  have "map_wf (cs_chunks (snd (store_put h d s)))"
    "fst ` set (cs_chunks (snd (store_put h d s))) = insert h (fst ` set (cs_chunks s))"
    using Cons.prems
    by (cases rule: store_put_cases [of h s d]; force simp: store_has_def map_has_iff)+
  with Cons.IH [of "snd (store_put h d s)"] show ?case by (simp add: kv)
qed simp

lemma store_size_card: "map_wf (cs_chunks s) \<Longrightarrow> store_size s = card (fst ` set (cs_chunks s))"
  by (metis distinct_card length_map list.set_map store_size_def)

lemma store_growth:
  assumes wf: "map_wf (cs_chunks s)"
  shows "store_size (put_all s kvs) = store_size s + card (fst ` set kvs - fst ` set (cs_chunks s))"
proof -
  have "fst ` set (cs_chunks s) \<union> fst ` set kvs
      = fst ` set (cs_chunks s) \<union> (fst ` set kvs - fst ` set (cs_chunks s))" by blast
  then have "card (fst ` set (cs_chunks s) \<union> fst ` set kvs)
      = card (fst ` set (cs_chunks s)) + card (fst ` set kvs - fst ` set (cs_chunks s))"
    by (simp only:) (rule card_Un_disjoint, auto)
  then show ?thesis using put_all_chunks [OF wf, of kvs] by (simp add: store_size_card wf)
qed

text \<open>The references of the files of a snapshot.\<close>

definition source_refs :: "int \<Rightarrow> source_file list \<Rightarrow> string list" where
  "source_refs cs files = concat (map (file_hashes cs) files)"

lemma fst_all_writes: "map fst (all_writes cs files) = source_refs cs files"
  by (simp add: all_writes_def source_refs_def map_concat comp_def map_fst_file_writes)

lemma length_source_refs_sort: "length (source_refs cs (js_sort c files)) = length (source_refs cs files)"
proof -
  have "mset (map (length \<circ> file_hashes cs) (js_sort c files)) = mset (map (length \<circ> file_hashes cs) files)"
    by simp
  then have "sum_list (map (length \<circ> file_hashes cs) (js_sort c files)) = sum_list (map (length \<circ> file_hashes cs) files)"
    by (metis sum_mset_sum_list)
  then show ?thesis by (simp add: source_refs_def length_concat)
qed

lemma sum_list_js_sort: "sum_list (map f (js_sort c files)) = sum_list (map f files)" for f :: "'a \<Rightarrow> nat"
  by (metis mset_js_sort mset_map sum_mset_sum_list)

lemma stats_snapshot:
  fixes files :: "source_file list" and e :: engine
  assumes ok: "store_ok (en_store e)"
  defines "refs \<equiv> source_refs (en_chunkSize e) files"
  defines "fresh \<equiv> card (set refs - set (store_hashes (en_store e)))"
  shows "sr_stats (fst (snapshot name files e)) =
     \<lparr>st_files = length files, st_chunks = length refs, st_newChunks = fresh,
      st_dedupedChunks = length refs - fresh, st_bytes = sum_list (map (length \<circ> sf_data) files)\<rparr>"
    and "store_size (en_store (snd (snapshot name files e))) = store_size (en_store e) + fresh"
    and "fresh \<le> length refs"
proof -
  let ?ws = "all_writes (en_chunkSize e) (js_sort cmp_path files)"
  have wf: "map_wf (cs_chunks (en_store e))" using ok by (simp add: store_ok_def)
  have refs: "set refs = fst ` set ?ws"
    by (simp add: refs_def source_refs_def all_writes_def image_UN flip: map_fst_file_writes)
  have len: "length refs = length ?ws"
    using length_source_refs_sort [of "en_chunkSize e" cmp_path files]
    by (simp add: refs_def flip: fst_all_writes)
  have grow: "store_size (put_all (en_store e) ?ws) = store_size (en_store e) + fresh"
    by (simp add: store_growth [OF wf] fresh_def refs store_hashes_def map_keys_def)
  then show "sr_stats (fst (snapshot name files e)) =
     \<lparr>st_files = length files, st_chunks = length refs, st_newChunks = fresh,
      st_dedupedChunks = length refs - fresh, st_bytes = sum_list (map (length \<circ> sf_data) files)\<rparr>"
    by (simp add: snapshot_stats stats_of_def len sum_list_js_sort Let_def)
  show "store_size (en_store (snd (snapshot name files e))) = store_size (en_store e) + fresh"
    by (simp only: snapshot_store grow)
  have "fresh \<le> card (set refs)" unfolding fresh_def by (rule card_mono) auto
  also have "\<dots> \<le> length refs" by (rule card_length)
  finally show "fresh \<le> length refs" .
qed

text \<open>Storing chunks that are all present changes nothing.\<close>

lemma put_all_present_id: "(\<And>h. h \<in> fst ` set kvs \<Longrightarrow> store_has h s) \<Longrightarrow> put_all s kvs = s"
proof (induction kvs)
  case (Cons kv kvs)
  obtain h d where kv: "kv = (h, d)" by (cases kv)
  have "store_has h s" using Cons.prems kv by simp
  then have "snd (store_put h d s) = s" by (cases rule: store_put_cases [of h s d]) simp_all
  with Cons show ?case by (simp add: kv)
qed simp

lemma snapshot_again:
  fixes name :: string and files :: "source_file list" and e :: engine
  assumes ok: "store_ok (en_store e)"
  defines "e' \<equiv> snd (snapshot name files e)"
  shows "st_newChunks (sr_stats (fst (snapshot name' files e'))) = 0"
    and "en_store (snd (snapshot name' files e')) = en_store e'"
proof -
  let ?ws = "all_writes (en_chunkSize e) (js_sort cmp_path files)"
  have cs: "en_chunkSize e' = en_chunkSize e" and store: "en_store e' = put_all (en_store e) ?ws"
    by (simp_all add: e'_def snapshot_parts)
  have "store_has h (en_store e')" if "h \<in> fst ` set ?ws" for h
    unfolding store using that by (rule put_all_present)
  then show same: "en_store (snd (snapshot name' files e')) = en_store e'"
    by (simp only: snapshot_store cs put_all_present_id)
  then show "st_newChunks (sr_stats (fst (snapshot name' files e'))) = 0"
    by (simp add: snapshot_stats snapshot_store stats_of_def Let_def)
qed

section \<open>The trace\<close>

text \<open>A reference is new when its hash is neither stored yet nor used earlier in the list.\<close>

fun first_uses :: "string list \<Rightarrow> string list \<Rightarrow> chunk_trace list" where
  "first_uses seen [] = []"
| "first_uses seen (h # hs) = \<lparr>ct_hash = h, ct_isNew = h \<notin> set seen\<rparr> # first_uses (h # seen) hs"

lemma first_uses_cong: "set seen = set seen' \<Longrightarrow> first_uses seen hs = first_uses seen' hs"
proof (induction hs arbitrary: seen seen')
  case (Cons h hs)
  have "first_uses (h # seen) hs = first_uses (h # seen') hs"
    by (rule Cons.IH) (simp add: Cons.prems)
  with Cons.prems show ?case by simp
qed simp

lemma first_uses_append:
  "first_uses seen (hs @ hs') = first_uses seen hs @ first_uses (rev hs @ seen) hs'"
  by (induction hs arbitrary: seen) auto

lemma length_first_uses [simp]: "length (first_uses seen hs) = length hs"
  by (induction hs arbitrary: seen) auto

lemma nth_first_uses:
  "i < length hs \<Longrightarrow>
   first_uses seen hs ! i = \<lparr>ct_hash = hs ! i, ct_isNew = hs ! i \<notin> set seen \<union> set (take i hs)\<rparr>"
proof (induction hs arbitrary: seen i)
  case (Cons h hs)
  then show ?case by (cases i) auto
qed simp

lemma first_uses_hashes: "map ct_hash (first_uses seen hs) = hs"
  by (induction hs arbitrary: seen) auto

lemma store_hashes_put: "set (store_hashes (snd (store_put h d s))) = insert h (set (store_hashes s))"
  by (cases rule: store_put_cases [of h s d]) (auto simp: store_hashes_def map_keys_def store_has_def map_has_iff)

lemma store_hashes_put_all: "set (store_hashes (put_all s kvs)) = set (store_hashes s) \<union> fst ` set kvs"
proof (induction kvs arbitrary: s)
  case (Cons kv kvs)
  then show ?case by (cases kv) (simp add: store_hashes_put)
qed simp

lemma snapshot_chunks_trace:
  "snapshot_chunks chs store stats fe ft = (store', stats', fe', ft') \<Longrightarrow>
   ft' = ft\<lparr>ft_chunks := ft_chunks ft @ first_uses (store_hashes store) (map chunk_hash chs)\<rparr>"
proof (induction chs arbitrary: store stats fe ft)
  case (Cons c chs)
  obtain isNew store1 where put: "store_put (chunk_hash c) (chunk_data c) store = (isNew, store1)"
    by fastforce
  have isNew: "isNew \<longleftrightarrow> chunk_hash c \<notin> set (store_hashes store)"
    using put wo.put_reports [of "chunk_hash c" "chunk_data c" store]
    by (simp add: store_has_iff flip: store_has_hashes)
  have "set (store_hashes store1) = set (chunk_hash c # store_hashes store)"
    using store_hashes_put [of "chunk_hash c" "chunk_data c" store] put by simp
  then have uses: "first_uses (store_hashes store1) hs = first_uses (chunk_hash c # store_hashes store) hs" for hs
    by (rule first_uses_cong)
  show ?case
    using Cons.prems put by (auto dest!: Cons.IH simp: Let_def isNew uses)
qed simp

text \<open>The trace of a list of files, given the hashes that are stored already.\<close>

fun trace_of :: "int \<Rightarrow> string list \<Rightarrow> source_file list \<Rightarrow> file_trace list" where
  "trace_of cs seen [] = []"
| "trace_of cs seen (f # fs) =
     \<lparr>ft_path = sf_path f, ft_chunks = first_uses seen (file_hashes cs f)\<rparr>
     # trace_of cs (rev (file_hashes cs f) @ seen) fs"

lemma trace_of_cong: "set seen = set seen' \<Longrightarrow> trace_of cs seen fs = trace_of cs seen' fs"
proof (induction fs arbitrary: seen seen')
  case (Cons f fs)
  have "trace_of cs (rev (file_hashes cs f) @ seen) fs = trace_of cs (rev (file_hashes cs f) @ seen') fs"
    by (rule Cons.IH) (simp add: Cons.prems)
  with first_uses_cong [OF Cons.prems] show ?case by simp
qed simp

lemma trace_of_files:
  "list_all2 (\<lambda>ft f. ft_path ft = sf_path f \<and> map ct_hash (ft_chunks ft) = file_hashes cs f) (trace_of cs seen fs) fs"
  by (induction fs arbitrary: seen) (simp_all add: first_uses_hashes)

lemma trace_of_refs: "concat (map ft_chunks (trace_of cs seen fs)) = first_uses seen (source_refs cs fs)"
  by (induction fs arbitrary: seen) (simp_all add: source_refs_def first_uses_append)

lemma snapshot_files_trace:
  "snapshot_files cs srcs store stats mf trace = (store', stats', mf', trace') \<Longrightarrow>
   trace' = trace @ trace_of cs (store_hashes store) srcs"
proof (induction srcs arbitrary: store stats mf trace)
  case (Cons f srcs)
  define fe where "fe = \<lparr>fe_path = sf_path f, fe_size = length (sf_data f), fe_chunks = []\<rparr>"
  define ft where "ft = \<lparr>ft_path = sf_path f, ft_chunks = []\<rparr>"
  define st where "st = stats\<lparr>st_bytes := st_bytes stats + length (sf_data f)\<rparr>"
  obtain store1 stats1 fe1 ft1 where
    chunks: "snapshot_chunks (chunkBuffer (sf_data f) cs) store st fe ft = (store1, stats1, fe1, ft1)"
    by (metis prod_cases4)
  have "snapshot_files cs (f # srcs) store stats mf trace =
      snapshot_files cs srcs store1 (stats1\<lparr>st_files := st_files stats1 + 1\<rparr>)
        (mf\<lparr>mf_files := mf_files mf @ [fe1]\<rparr>) (trace @ [ft1])"
    using chunks by (simp add: Let_def fe_def ft_def st_def)
  from Cons.IH [OF this [symmetric, THEN trans, OF Cons.prems]]
  have rest: "trace' = (trace @ [ft1]) @ trace_of cs (store_hashes store1) srcs" .
  have ft1: "ft1 = \<lparr>ft_path = sf_path f, ft_chunks = first_uses (store_hashes store) (file_hashes cs f)\<rparr>"
    using snapshot_chunks_trace [OF chunks] by (simp add: ft_def file_hashes_def)
  have "store1 = put_all store (file_writes cs f)"
    using snapshot_chunks_result [OF chunks] by (simp add: file_writes_def)
  then have "set (store_hashes store1) = set (rev (file_hashes cs f) @ store_hashes store)"
    by (auto simp: store_hashes_put_all simp flip: map_fst_file_writes)
  from trace_of_cong [OF this] rest show ?case by (simp add: ft1)
qed simp

lemma snapshot_trace_of:
  "sr_trace (fst (snapshot name files e)) =
     trace_of (en_chunkSize e) (store_hashes (en_store e)) (js_sort cmp_path files)"
proof -
  define mf where "mf = \<lparr>mf_name = name, mf_chunkSize = en_chunkSize e, mf_files = []\<rparr>"
  define st where "st = \<lparr>st_files = 0, st_chunks = 0, st_newChunks = 0, st_dedupedChunks = 0, st_bytes = 0\<rparr>"
  obtain store' stats' mf' trace' where run:
    "snapshot_files (en_chunkSize e) (js_sort cmp_path files) (en_store e) st mf [] = (store', stats', mf', trace')"
    by (metis prod_cases4)
  then have "sr_trace (fst (snapshot name files e)) = trace'"
    by (simp add: snapshot_def mf_def st_def)
  with snapshot_files_trace [OF run] show ?thesis by simp
qed

lemma trace_snapshot:
  "list_all2 (\<lambda>ft fe. ft_path ft = fe_path fe \<and> map ct_hash (ft_chunks ft) = fe_chunks fe)
     (sr_trace (fst (snapshot name files e))) (mf_files (sr_manifest (fst (snapshot name files e))))"
  "concat (map ft_chunks (sr_trace (fst (snapshot name files e)))) =
     first_uses (store_hashes (en_store e)) (chunk_refs (sr_manifest (fst (snapshot name files e))))"
proof -
  have refs: "chunk_refs (sr_manifest (fst (snapshot name files e)))
      = source_refs (en_chunkSize e) (js_sort cmp_path files)"
    by (simp add: snapshot_manifest chunk_refs_manifest_of fst_all_writes)
  show "list_all2 (\<lambda>ft fe. ft_path ft = fe_path fe \<and> map ct_hash (ft_chunks ft) = fe_chunks fe)
     (sr_trace (fst (snapshot name files e))) (mf_files (sr_manifest (fst (snapshot name files e))))"
    using trace_of_files [of "en_chunkSize e" "store_hashes (en_store e)" "js_sort cmp_path files"]
    by (simp add: snapshot_trace_of snapshot_manifest manifest_of_def entry_of_def list_all2_map2)
  show "concat (map ft_chunks (sr_trace (fst (snapshot name files e)))) =
     first_uses (store_hashes (en_store e)) (chunk_refs (sr_manifest (fst (snapshot name files e))))"
    by (simp add: snapshot_trace_of trace_of_refs refs)
qed

section \<open>The abstract backup\<close>

text \<open>
  What the engine promises, without chunks, hashes or a store: a finite map from snapshot
  names to file trees, where a snapshot overwrites its name and a restore reads it.
\<close>

type_synonym backup = "string \<Rightarrow> source_file list option"

definition abs_snapshot :: "string \<Rightarrow> source_file list \<Rightarrow> backup \<Rightarrow> backup" where
  "abs_snapshot name files b = b(name \<mapsto> sort_key sf_path files)"

definition abs_restore :: "string \<Rightarrow> backup \<Rightarrow> source_file list throws" where
  "abs_restore name b =
     (case b name of
        None \<Rightarrow> Inl (Error (''snapshot not found: '' @ name))
      | Some files \<Rightarrow> Inr files)"

definition abs_run :: "(string \<times> source_file list) list \<Rightarrow> backup" where
  "abs_run runs = foldl (\<lambda>b (name, files). abs_snapshot name files b) Map.empty runs"

definition run_data :: "int \<Rightarrow> (string \<times> source_file list) list \<Rightarrow> bytes set" where
  "run_data cs runs = (\<Union>(name, files) \<in> set runs. snd ` set (all_writes cs files))"

lemma snapshots_snoc: "snapshots (runs @ [(name, files)]) e = snd (snapshot name files (snapshots runs e))"
  by (simp add: snapshots_def)

lemma snapshots_chunkSize [simp]: "en_chunkSize (snapshots runs e) = en_chunkSize e"
proof (induction runs rule: rev_induct)
  case (snoc run runs)
  then show ?case by (cases run) (simp add: snapshots_snoc snapshot_chunkSize)
qed (simp add: snapshots_def)

lemma snapshots_reachable: "engine_reachable (snapshots runs (new_engine cs))"
proof (induction runs rule: rev_induct)
  case (snoc run runs)
  then show ?case by (cases run) (simp add: snapshots_snoc engine_reachable.snap)
qed (simp add: snapshots_def engine_reachable.fresh)

lemma snapshots_data:
  "stored_data (en_store (snapshots runs (new_engine cs))) \<subseteq> run_data (effective_chunk_size cs) runs"
proof (induction runs rule: rev_induct)
  case Nil
  show ?case by (simp add: snapshots_def new_engine_def new_store_def stored_data_def)
next
  case (snoc run runs)
  obtain name files where run: "run = (name, files)" by (cases run)
  have cs: "en_chunkSize (new_engine cs) = effective_chunk_size cs"
    by (simp add: new_engine_def effective_chunk_size_def)
  have "stored_data (en_store (snapshots (runs @ [run]) (new_engine cs)))
      \<subseteq> stored_data (en_store (snapshots runs (new_engine cs))) \<union> snd ` set (all_writes (effective_chunk_size cs) files)"
    using stored_data_put_all [of "en_store (snapshots runs (new_engine cs))"]
    by (simp add: run snapshots_snoc snapshot_store cs)
      (metis set_all_writes_sort)
  with snoc.IH show ?case by (auto simp: run_data_def run)
qed

text \<open>Every run of snapshots is simulated: the same name restores the same tree, or the same
  error, unless two of the written chunks share a digest.\<close>

lemma engine_simulates:
  assumes "\<And>name files. (name, files) \<in> set runs \<Longrightarrow> distinct (map sf_path files)"
    and "inj_on sha256Hex (run_data (effective_chunk_size cs) runs)"
  shows "engine_restore n (snapshots runs (new_engine cs)) = abs_restore n (abs_run runs)"
  using assms
proof (induction runs rule: rev_induct)
  case Nil
  show ?case
    by (simp add: snapshots_def engine_restore_def loadManifest_def new_engine_def abs_restore_def abs_run_def)
next
  case (snoc run runs)
  obtain name files where run: "run = (name, files)" by (cases run)
  let ?e = "snapshots runs (new_engine cs)"
  have ok: "engine_ok ?e" by (rule reachable_ok [OF snapshots_reachable])
  have data: "run_data (effective_chunk_size cs) (runs @ [run])
      = run_data (effective_chunk_size cs) runs \<union> snd ` set (all_writes (effective_chunk_size cs) files)"
    by (auto simp: run_data_def run)
  have cs: "en_chunkSize ?e = effective_chunk_size cs"
    by (simp add: new_engine_def effective_chunk_size_def)
  have IH: "engine_restore n ?e = abs_restore n (abs_run runs)"
    using snoc.prems by (intro snoc.IH inj_on_subset [OF snoc.prems(2)]) (auto simp: data)
  have abs: "abs_run (runs @ [run]) = abs_snapshot name files (abs_run runs)"
    by (simp add: abs_run_def run)
  show ?case
  proof (cases "n = name")
    case True
    have "inj_on sha256Hex (stored_data (en_store ?e) \<union> snd ` set (all_writes (en_chunkSize ?e) files))"
      unfolding cs using snapshots_data [of runs cs] by (intro inj_on_subset [OF snoc.prems(2)]) (auto simp: data)
    from restore_snapshot [OF engine_ok_store [OF ok] this] True snoc.prems(1) [of name files]
    show ?thesis by (simp add: run snapshots_snoc abs [unfolded run] abs_snapshot_def abs_restore_def sort_files)
  next
    case False
    have "engine_restore n (snd (snapshot name files ?e)) = engine_restore n ?e"
    proof (cases "loadManifest n ?e")
      case (Inl err)
      with False show ?thesis by (simp add: engine_restore_def loadManifest_snapshot)
    next
      case (Inr m)
      with False ok show ?thesis by (intro restore_unchanged)
    qed
    with False IH show ?thesis
      by (simp add: run snapshots_snoc abs [unfolded run] abs_snapshot_def abs_restore_def)
  qed
qed

end
