(* ===== verification/Distribute.thy ===== *)
theory Distribute
  imports Cluster Engine_Correct
begin

text \<open>
  web/src/sim/distribute.ts: the upload of the chunks of a snapshot, the restore that fetches
  and checks them and stops at the first failure, and the fetch plan. \<open>distribute\<close> returns
  the cluster next to its result, because a chunk that the store lacks makes it throw after
  some chunks were written.
\<close>

section \<open>The code\<close>

fun distribute_loop :: "content_store \<Rightarrow> cluster \<Rightarrow> string list \<Rightarrow> unit throws \<times> cluster" where
  "distribute_loop store c [] = (Inr (), c)"
| "distribute_loop store c (h # hs) =
     (case store_get h store of
        Inl err \<Rightarrow> (Inl err, c)
      | Inr d \<Rightarrow> distribute_loop store (cluster_put h d c) hs)"

definition distribute :: "engine \<Rightarrow> cluster \<Rightarrow> manifest \<Rightarrow> nat throws \<times> cluster" where
  "distribute e c m =
     (let chunks = uniqueChunks m
      in case distribute_loop (en_store e) c chunks of
           (Inl err, c') \<Rightarrow> (Inl err, c')
         | (Inr _, c') \<Rightarrow> (Inr (length chunks), c'))"

record restore_stats =
  rs_files :: nat
  rs_chunks :: nat
  rs_verified :: nat
  rs_parallelism :: int

record fetch_event =
  ev_hash :: string
  ev_node :: int
  ev_ok :: bool
  ev_error :: "string option"

record restore_result =
  rr_stats :: restore_stats
  rr_events :: "fetch_event list"
  rr_ok :: bool
  rr_error :: "string option"

definition integrity_error :: "string \<Rightarrow> string \<Rightarrow> string" where
  "integrity_error h got = ''chunk '' @ h @ '' failed integrity check (got '' @ got @ '')''"

text \<open>Lines 58 to 77; the result \<open>Inl\<close> is a return from inside the loop.\<close>

fun restore_loop :: "cluster \<Rightarrow> string list \<Rightarrow> restore_stats \<Rightarrow> fetch_event list
    \<Rightarrow> restore_result + restore_stats \<times> fetch_event list" where
  "restore_loop c [] stats events = Inr (stats, events)"
| "restore_loop c (h # hs) stats events =
     (case cluster_get h c of
        Inl _ \<Rightarrow>
          Inl \<lparr>rr_stats = stats,
               rr_events = events @ [\<lparr>ev_hash = h, ev_node = -1, ev_ok = False,
                                      ev_error = Some ErrChunkUnavailable\<rparr>],
               rr_ok = False, rr_error = Some ErrChunkUnavailable\<rparr>
      | Inr (data, node) \<Rightarrow>
          let got = sha256Hex data
          in if got \<noteq> h
             then let events = events @ [\<lparr>ev_hash = h, ev_node = node, ev_ok = False,
                                          ev_error = Some (integrity_error h got)\<rparr>]
                  in Inl \<lparr>rr_stats = stats, rr_events = events, rr_ok = False,
                          rr_error = ev_error (last events)\<rparr>
             else restore_loop c hs (stats\<lparr>rs_verified := rs_verified stats + 1\<rparr>)
                    (events @ [\<lparr>ev_hash = h, ev_node = node, ev_ok = True, ev_error = None\<rparr>]))"

definition restore :: "cluster \<Rightarrow> manifest \<Rightarrow> int \<Rightarrow> restore_result" where
  "restore c m parallel =
     (let parallel = (if parallel < 1 then 1 else parallel);
          unique = uniqueChunks m;
          stats = \<lparr>rs_files = 0, rs_chunks = length unique, rs_verified = 0, rs_parallelism = parallel\<rparr>
      in case restore_loop c unique stats [] of
           Inl r \<Rightarrow> r
         | Inr (stats, events) \<Rightarrow>
             \<lparr>rr_stats = stats\<lparr>rs_files := length (mf_files m)\<rparr>, rr_events = events,
              rr_ok = True, rr_error = None\<rparr>)"

record planned_fetch =
  pf_hash :: string
  pf_node :: int
  pf_available :: bool

definition plan_one :: "cluster \<Rightarrow> string \<Rightarrow> planned_fetch" where
  "plan_one c hash =
     (case cluster_get hash c of
        Inr (_, node) \<Rightarrow> \<lparr>pf_hash = hash, pf_node = node, pf_available = True\<rparr>
      | Inl _ \<Rightarrow> \<lparr>pf_hash = hash, pf_node = -1, pf_available = False\<rparr>)"

definition planRestore :: "cluster \<Rightarrow> manifest \<Rightarrow> planned_fetch list" where
  "planRestore c m = map (plan_one c) (uniqueChunks m)"

section \<open>Upload\<close>

text \<open>The upload of chunks whose bytes are known.\<close>

definition put_chunks :: "(string \<Rightarrow> bytes) \<Rightarrow> cluster \<Rightarrow> string list \<Rightarrow> cluster" where
  "put_chunks g c hs = foldl (\<lambda>c h. cluster_put h (g h) c) c hs"

lemma put_chunks_simps [simp]:
  "put_chunks g c [] = c" "put_chunks g c (h # hs) = put_chunks g (cluster_put h (g h) c) hs"
  by (simp_all add: put_chunks_def)

lemma put_chunks_frame [simp]:
  "cl_up (put_chunks g c hs) = cl_up c" "cl_replication (put_chunks g c hs) = cl_replication c"
  "length (cl_data (put_chunks g c hs)) = length (cl_data c)" "placement h (put_chunks g c hs) = placement h c"
  by (induction hs arbitrary: c) simp_all

text \<open>The bytes the store has for an address (no bytes when it has none).\<close>

definition stored_bytes :: "content_store \<Rightarrow> string \<Rightarrow> bytes" where
  "stored_bytes s h = (case store_lookup s h of None \<Rightarrow> [] | Some d \<Rightarrow> d)"

lemma stored_bytes_lookup: "store_has h s \<Longrightarrow> store_lookup s h = Some (stored_bytes s h)"
  by (auto simp: stored_bytes_def store_has_iff)

lemma stored_bytes_hash: "store_ok s \<Longrightarrow> store_has h s \<Longrightarrow> sha256Hex (stored_bytes s h) = h"
  using stored_bytes_lookup [of h s] by (auto intro: store.fetch_sound simp: store_get_Inr_iff)

text \<open>The upload stops at the first chunk the store lacks, with the earlier chunks written.\<close>

lemma distribute_loop_eq:
  "distribute_loop s c hs =
     (case dropWhile (\<lambda>h. store_has h s) hs of
        [] \<Rightarrow> (Inr (), put_chunks (stored_bytes s) c hs)
      | h # _ \<Rightarrow> (Inl (Error (''chunk not found in store: '' @ h)),
                  put_chunks (stored_bytes s) c (takeWhile (\<lambda>h. store_has h s) hs)))"
proof (induction hs arbitrary: c)
  case (Cons h hs)
  show ?case
  proof (cases "store_lookup s h")
    case None
    then show ?thesis by (simp add: store_get_def store_has_iff)
  next
    case (Some d)
    then have "store_has h s" "stored_bytes s h = d" "store_get h s = Inr d"
      by (simp_all add: store_get_def store_has_iff stored_bytes_def)
    then show ?thesis by (cases "dropWhile (\<lambda>h. store_has h s) hs")
        (simp_all add: Cons.IH del: dropWhile_eq_Nil_conv)
  qed
qed simp

lemma distribute_stored:
  assumes "manifest_stored (en_store e) m"
  shows "distribute e c m = (Inr (card (set (chunk_refs m))), put_chunks (stored_bytes (en_store e)) c (uniqueChunks m))"
proof -
  have stored: "dropWhile (\<lambda>h. store_has h (en_store e)) (uniqueChunks m) = []"
    using assms by (simp add: dropWhile_eq_Nil_conv manifest_stored_def list_all_iff)
  have "distribute_loop (en_store e) c (uniqueChunks m)
      = (Inr (), put_chunks (stored_bytes (en_store e)) c (uniqueChunks m))"
    by (simp only: distribute_loop_eq stored list.case)
  moreover have "length (uniqueChunks m) = card (set (chunk_refs m))"
    using distinct_card [OF distinct_uniqueChunks, of m] by simp
  ultimately show ?thesis by (simp add: distribute_def)
qed

lemma cluster_inv_put_chunks [inv_intros]:
  "cluster_inv c \<Longrightarrow> (\<And>h. h \<in> set hs \<Longrightarrow> sha256Hex (g h) = h) \<Longrightarrow> cluster_inv (put_chunks g c hs)"
proof (induction hs arbitrary: c)
  case (Cons h hs)
  have "cluster_inv (cluster_put h (g h) c)"
    using Cons.prems by (intro cluster_inv_put) auto
  with Cons show ?case by simp
qed simp

lemma put_chunks_replicated:
  assumes "cluster_ok c" "h \<in> set hs \<or> code.replicated h (g h) c"
  shows "code.replicated h (g h) (put_chunks g c hs)"
  using assms
proof (induction hs arbitrary: c)
  case (Cons k hs)
  have "code.replicated h (g h) (cluster_put k (g k) c)" if "h = k \<or> code.replicated h (g h) c"
    using that Cons.prems(1) by (cases "h = k") (auto simp: put_replicated put_other)
  with Cons show ?case by (auto intro: inv_intros)
qed simp

text \<open>What each node holds after an upload to empty nodes: the chunks placed on it, in order.\<close>

lemma node_data_put_chunks:
  assumes "cluster_ok c" "0 \<le> n" "distinct hs" "\<And>h. h \<in> set hs \<Longrightarrow> node_lookup c n h = None"
  shows "cl_data (put_chunks g c hs) ! nat n
    = cl_data c ! nat n @ map (\<lambda>h. (h, g h)) (filter (\<lambda>h. n \<in> set (placement h c)) hs)"
  using assms
proof (induction hs arbitrary: c)
  case (Cons h hs)
  have "\<not> map_has (cl_data c ! nat n) h" using Cons.prems(4) [of h] by (simp add: map_has_def)
  then have put: "cl_data (cluster_put h (g h) c) ! nat n
      = cl_data c ! nat n @ (if n \<in> set (placement h c) then [(h, g h)] else [])"
    using Cons.prems(1,2) by (simp add: node_data_put map_set_fresh)
  have "cl_data (put_chunks g (cluster_put h (g h) c) hs) ! nat n
      = cl_data (cluster_put h (g h) c) ! nat n
        @ map (\<lambda>h. (h, g h)) (filter (\<lambda>k. n \<in> set (placement k (cluster_put h (g h) c))) hs)"
    using Cons.prems by (intro Cons.IH) (auto simp: node_lookup_put intro: inv_intros)
  then show ?case by (simp add: put)
qed simp

section \<open>Restore\<close>

text \<open>A chunk passes when some replica serves it and its bytes hash to the address.\<close>

definition passes :: "cluster \<Rightarrow> string \<Rightarrow> bool" where
  "passes c h = (case cluster_get h c of Inl _ \<Rightarrow> False | Inr (d, _) \<Rightarrow> sha256Hex d = h)"

text \<open>The event of one fetch.\<close>

definition event_of :: "cluster \<Rightarrow> string \<Rightarrow> fetch_event" where
  "event_of c h =
     (case cluster_get h c of
        Inl _ \<Rightarrow> \<lparr>ev_hash = h, ev_node = -1, ev_ok = False, ev_error = Some ErrChunkUnavailable\<rparr>
      | Inr (d, n) \<Rightarrow>
          if sha256Hex d = h then \<lparr>ev_hash = h, ev_node = n, ev_ok = True, ev_error = None\<rparr>
          else \<lparr>ev_hash = h, ev_node = n, ev_ok = False,
                ev_error = Some (integrity_error h (sha256Hex d))\<rparr>)"

lemma event_of_ok: "ev_ok (event_of c h) \<longleftrightarrow> passes c h"
  by (auto simp: event_of_def passes_def split: sum.split)

lemma restore_loop_eq:
  "restore_loop c hs stats events =
     (case dropWhile (passes c) hs of
        [] \<Rightarrow> Inr (stats\<lparr>rs_verified := rs_verified stats + length hs\<rparr>, events @ map (event_of c) hs)
      | h # _ \<Rightarrow> Inl \<lparr>rr_stats = stats\<lparr>rs_verified := rs_verified stats + length (takeWhile (passes c) hs)\<rparr>,
                     rr_events = events @ map (event_of c) (takeWhile (passes c) hs @ [h]),
                     rr_ok = False, rr_error = ev_error (event_of c h)\<rparr>)"
proof (induction hs arbitrary: stats events)
  case (Cons h hs)
  show ?case
  proof (cases "passes c h")
    case True
    then obtain d n where "cluster_get h c = Inr (d, n)" "sha256Hex d = h"
      by (auto simp: passes_def split: sum.splits)
    with True show ?thesis
      by (cases "dropWhile (passes c) hs") (simp_all add: Cons.IH event_of_def del: dropWhile_eq_Nil_conv)
  next
    case False
    then show ?thesis
      by (auto simp: passes_def event_of_def Let_def split: sum.splits)
  qed
qed simp

text \<open>Lines 38 to 81 without the loop.\<close>

lemma restore_eq:
  "restore c m p =
     (let hs = uniqueChunks m;
          stats = \<lparr>rs_files = 0, rs_chunks = length hs, rs_verified = length (takeWhile (passes c) hs),
                   rs_parallelism = max 1 p\<rparr>
      in case dropWhile (passes c) hs of
           [] \<Rightarrow> \<lparr>rr_stats = stats\<lparr>rs_files := length (mf_files m)\<rparr>,
                 rr_events = map (event_of c) hs, rr_ok = True, rr_error = None\<rparr>
         | h # _ \<Rightarrow> \<lparr>rr_stats = stats, rr_events = map (event_of c) (takeWhile (passes c) hs @ [h]),
                    rr_ok = False, rr_error = ev_error (event_of c h)\<rparr>)"
proof (cases "dropWhile (passes c) (uniqueChunks m)")
  case Nil
  then have "takeWhile (passes c) (uniqueChunks m) = uniqueChunks m"
    by (simp add: takeWhile_eq_all_conv dropWhile_eq_Nil_conv)
  with Nil show ?thesis
    by (simp add: restore_def restore_loop_eq max_def Let_def del: dropWhile_eq_Nil_conv takeWhile_eq_all_conv)
next
  case (Cons h hs)
  then show ?thesis by (simp add: restore_def restore_loop_eq max_def Let_def)
qed

lemma restore_ok_iff: "rr_ok (restore c m p) \<longleftrightarrow> (\<forall>h \<in> set (chunk_refs m). passes c h)"
proof -
  have "rr_ok (restore c m p) \<longleftrightarrow> dropWhile (passes c) (uniqueChunks m) = []"
    by (simp add: restore_eq Let_def del: dropWhile_eq_Nil_conv split: list.split)
  then show ?thesis by (simp add: dropWhile_eq_Nil_conv)
qed

text \<open>In a cluster whose copies are intact a chunk passes when it is reachable at all.\<close>

lemma passes_iff:
  assumes "cluster_inv c"
  shows "passes c h \<longleftrightarrow> chunkAvailable h c"
proof (cases "cluster_get h c")
  case (Inl err)
  then have "\<not> code.reachable_copy h c"
    using code.fetch_Inr_iff [of h c] by auto
  with Inl show ?thesis by (simp add: passes_def chunkAvailable_iff)
next
  case (Inr r)
  obtain d n where r: "r = (d, n)" by (cases r)
  have "code.reachable_copy h c"
    using Inr code.fetch_Inr_iff [of h c] by auto
  moreover have "sha256Hex d = h"
    using Inr r by (intro node.fetch_sound [OF assms]) (simp add: cluster_fetch_def)
  ultimately show ?thesis using Inr r by (simp add: passes_def chunkAvailable_iff)
qed

text \<open>With intact copies the only way to fail is an unavailable chunk.\<close>

lemma restore_clean_failure:
  assumes "cluster_inv c" "\<not> rr_ok (restore c m p)"
  shows "rr_error (restore c m p) = Some ErrChunkUnavailable"
proof -
  have "dropWhile (passes c) (uniqueChunks m) \<noteq> []"
    using assms(2) by (auto simp: restore_ok_iff dropWhile_eq_Nil_conv)
  then obtain h hs where drop: "dropWhile (passes c) (uniqueChunks m) = h # hs"
    by (meson neq_Nil_conv)
  then have "\<not> passes c h" by (metis hd_dropWhile list.sel(1) list.distinct(1))
  then have "cluster_get h c = Inl (Error ErrChunkUnavailable)"
    using code.fetch_Inl_iff passes_iff [OF assms(1)] by (simp add: chunkAvailable_iff)
  then show ?thesis by (simp add: restore_eq Let_def drop event_of_def)
qed

text \<open>When every chunk passes, all of them are counted as verified.\<close>

lemma restore_all:
  assumes "\<And>h. h \<in> set (chunk_refs m) \<Longrightarrow> passes c h"
  shows "restore c m p =
    \<lparr>rr_stats = \<lparr>rs_files = length (mf_files m), rs_chunks = card (set (chunk_refs m)),
                 rs_verified = card (set (chunk_refs m)), rs_parallelism = max 1 p\<rparr>,
     rr_events = map (event_of c) (uniqueChunks m), rr_ok = True, rr_error = None\<rparr>"
proof -
  have "takeWhile (passes c) (uniqueChunks m) = uniqueChunks m" "dropWhile (passes c) (uniqueChunks m) = []"
    using assms by (simp_all add: takeWhile_eq_all_conv dropWhile_eq_Nil_conv)
  moreover have "length (uniqueChunks m) = card (set (chunk_refs m))"
    using distinct_card [OF distinct_uniqueChunks, of m] by simp
  ultimately show ?thesis
    by (simp add: restore_eq Let_def del: dropWhile_eq_Nil_conv takeWhile_eq_all_conv)
qed

section \<open>The plan\<close>

lemma plan_available: "pf_available (plan_one c h) \<longleftrightarrow> chunkAvailable h c"
  using code.fetch_Inr_iff [of h c]
  by (auto simp: plan_one_def chunkAvailable_iff split: sum.splits)

lemma plan_event:
  "passes c h \<Longrightarrow> pf_node (plan_one c h) = ev_node (event_of c h) \<and> pf_available (plan_one c h)"
  by (auto simp: passes_def plan_one_def event_of_def split: sum.splits)

section \<open>Failures\<close>

definition down_nodes :: "cluster \<Rightarrow> int set" where
  "down_nodes c = {n. valid_node c n \<and> \<not> node_up c n}"

lemma finite_down [simp]: "finite (down_nodes c)"
  by (rule finite_subset [of _ "{0..<int (length (cl_up c))}"]) (auto simp: down_nodes_def)

text \<open>Fewer failed nodes than copies: every chunk that was uploaded passes.\<close>

lemma survives:
  assumes ok: "cluster_ok c" and rep: "code.replicated h d c" and hash: "sha256Hex d = h"
    and down: "int (card (down_nodes c)) < cl_replication c"
  shows "passes c h"
proof -
  have "\<exists>n \<in> set (placement h c). node_up c n \<and> cluster_get h c = Inr (d, n)"
    using ok rep finite_down down
    by (rule code.fetch_survives) (auto simp: down_nodes_def dest: placement_valid [OF ok])
  then show ?thesis by (auto simp: passes_def hash)
qed

text \<open>A chunk is lost exactly when every node it was placed on is down.\<close>

lemma lost_iff:
  assumes "code.replicated h d c" "cluster_ok c"
  shows "\<not> chunkAvailable h c \<longleftrightarrow> set (placement h c) \<subseteq> down_nodes c"
  using code.replicated_reachable [OF assms(1)] placement_valid [OF assms(2)]
  by (auto simp: chunkAvailable_iff down_nodes_def)

section \<open>The copies on the nodes\<close>

lemma status_chunks:
  "map ns_chunks (status c) = map (\<lambda>i. length (cl_data c ! i)) [0..<length (cl_up c)]"
  by (rule nth_equalityI) (simp_all add: status_def nth_enumerate_eq)

definition empty_nodes :: "cluster \<Rightarrow> bool" where
  "empty_nodes c \<longleftrightarrow> list_all (\<lambda>m. m = []) (cl_data c)"

lemma empty_nodes_new: "new_cluster n r = Inr c \<Longrightarrow> empty_nodes c"
  by (auto simp: new_cluster_def empty_nodes_def list_all_iff split: if_splits)

text \<open>A node holds one copy of each chunk that the placement puts on it.\<close>

lemma status_put_chunks:
  assumes "cluster_ok c" "empty_nodes c" "distinct hs"
  shows "map ns_chunks (status (put_chunks g c hs)) =
     map (\<lambda>i. length (filter (\<lambda>h. int i \<in> set (placement h c)) hs)) [0..<length (cl_up c)]"
proof -
  have "length (cl_data (put_chunks g c hs) ! i) = length (filter (\<lambda>h. int i \<in> set (placement h c)) hs)"
    if "i < length (cl_up c)" for i
  proof -
    have "cl_data c ! nat (int i) = []"
      using assms(1,2) that by (simp add: empty_nodes_def cluster_ok_def list_all_length)
    then show ?thesis
      using node_data_put_chunks [of c "int i" hs g] assms by simp
  qed
  then show ?thesis by (simp add: status_chunks)
qed

lemma copies_put_chunks:
  assumes ok: "cluster_ok c" and "empty_nodes c" "distinct hs"
  shows "int (sum_list (map ns_chunks (status (put_chunks g c hs)))) = int (length hs) * cl_replication c"
proof -
  let ?N = "length (cl_up c)"
  have row: "int (\<Sum>i\<leftarrow>[0..<?N]. of_bool (int i \<in> set (placement h c))) = cl_replication c" for h
  proof -
    have count: "(\<Sum>i\<leftarrow>is. of_bool (P i)) = length (filter P is)" for P and "is" :: "nat list"
      by (induction "is") auto
    have "(\<Sum>i\<leftarrow>[0..<?N]. of_bool (int i \<in> set (placement h c))) = card {i \<in> {0..<?N}. int i \<in> set (placement h c)}"
      by (simp only: count length_filter_distinct distinct_upt set_upt)
    also have "\<dots> = card (int ` {i \<in> {0..<?N}. int i \<in> set (placement h c)})"
      by (rule card_image [symmetric]) simp
    also have "int ` {i \<in> {0..<?N}. int i \<in> set (placement h c)} = set (placement h c)"
    proof (intro equalityI subsetI)
      fix n assume n: "n \<in> set (placement h c)"
      with placement_valid [OF ok n] show "n \<in> int ` {i \<in> {0..<?N}. int i \<in> set (placement h c)}"
        by (intro image_eqI [of _ _ "nat n"]) auto
    qed auto
    finally show ?thesis using code.place_card [OF ok, of h] by simp
  qed
  have "int (\<Sum>i\<leftarrow>[0..<?N]. length (filter (\<lambda>h. int i \<in> set (placement h c)) ks)) = int (length ks) * cl_replication c" for ks
  proof (induction ks)
    case (Cons k ks)
    have "(\<Sum>i\<leftarrow>[0..<?N]. length (filter (\<lambda>h. int i \<in> set (placement h c)) (k # ks)))
        = (\<Sum>i\<leftarrow>[0..<?N]. of_bool (int i \<in> set (placement k c)) + length (filter (\<lambda>h. int i \<in> set (placement h c)) ks))"
      by (intro arg_cong [of _ _ sum_list] map_cong) auto
    with row [of k] Cons show ?case by (simp add: sum_list_addf algebra_simps)
  qed simp
  then show ?thesis by (simp only: status_put_chunks [OF assms])
qed

end
