(* ===== verification/Sha256_Gates.thy ===== *)
theory Sha256_Gates
  imports Sha256
begin

text \<open>
  SHA-256 on lists of bits (least significant first), proved equal to FIPS 180-4 and so to
  the code's \<open>sha256Hex\<close>. It exists to compute digests inside the kernel: a round is a few
  hundred rewrite steps on truth values, so that concrete digests (the test vectors of the
  standard, the chunks of the demonstration data set) are theorems, with no evaluation oracle.
\<close>

unbundle bit_operations_syntax

section \<open>Words as lists of bits\<close>

type_synonym bits = "bool list"

definition bits8 :: "8 word \<Rightarrow> bits" where
  "bits8 w = map (bit w) [0..<8]"

definition bits32 :: "u32 \<Rightarrow> bits" where
  "bits32 w = map (bit w) [0..<32]"

abbreviation bits_val :: "bits \<Rightarrow> nat" where
  "bits_val \<equiv> horner_sum of_bool 2"

lemma length_bits32 [simp]: "length (bits32 w) = 32"
  by (simp add: bits32_def)

lemma nth_bits32 [simp]: "i < 32 \<Longrightarrow> bits32 w ! i = bit w i"
  by (simp add: bits32_def)

lemma bits_val_bits32: "bits_val (bits32 w) = unat w"
proof -
  have "bits32 w = map (bit (unat w)) [0..<32]"
    by (simp add: bits32_def bit_simps)
  then have "bits_val (bits32 w) = take_bit 32 (unat w)"
    by (simp only: horner_sum_bit_eq_take_bit)
  then show ?thesis
    using unsigned_less [of w, where ?'a = nat] by (simp add: take_bit_nat_eq_self)
qed

lemma bits_val_inj: "length xs = length ys \<Longrightarrow> bits_val xs = bits_val ys \<Longrightarrow> xs = ys"
proof (induction xs ys rule: list_induct2)
  case (Cons x xs y ys)
  then have "of_bool x + 2 * bits_val xs = (of_bool y + 2 * bits_val ys :: nat)" by simp
  then have "x = y \<and> bits_val xs = bits_val ys" by (cases x; cases y; simp; presburger)
  with Cons show ?case by simp
qed simp

section \<open>The gates\<close>

definition parity :: "bool \<Rightarrow> bool \<Rightarrow> bool \<Rightarrow> bool" where
  "parity a b c = ((a \<noteq> b) \<noteq> c)"

definition majority :: "bool \<Rightarrow> bool \<Rightarrow> bool \<Rightarrow> bool" where
  "majority a b c = ((a \<and> b) \<or> (a \<and> c) \<or> (b \<and> c))"

fun map3 :: "(bool \<Rightarrow> bool \<Rightarrow> bool \<Rightarrow> bool) \<Rightarrow> bits \<Rightarrow> bits \<Rightarrow> bits \<Rightarrow> bits" where
  "map3 f (a # as) (b # bs) (c # cs) = f a b c # map3 f as bs cs"
| "map3 f _ _ _ = []"

fun gate_add :: "bool \<Rightarrow> bits \<Rightarrow> bits \<Rightarrow> bits" where
  "gate_add c (a # as) (b # bs) = parity a b c # gate_add (majority a b c) as bs"
| "gate_add c _ _ = []"

definition rotate_bits :: "nat \<Rightarrow> bits \<Rightarrow> bits" where
  "rotate_bits n xs = drop n xs @ take n xs"

definition shift_bits :: "nat \<Rightarrow> bits \<Rightarrow> bits" where
  "shift_bits n xs = drop n xs @ replicate n False"

definition gate_S0 :: "bits \<Rightarrow> bits" where
  "gate_S0 x = map3 parity (rotate_bits 2 x) (rotate_bits 13 x) (rotate_bits 22 x)"

definition gate_S1 :: "bits \<Rightarrow> bits" where
  "gate_S1 x = map3 parity (rotate_bits 6 x) (rotate_bits 11 x) (rotate_bits 25 x)"

definition gate_s0 :: "bits \<Rightarrow> bits" where
  "gate_s0 x = map3 parity (rotate_bits 7 x) (rotate_bits 18 x) (shift_bits 3 x)"

definition gate_s1 :: "bits \<Rightarrow> bits" where
  "gate_s1 x = map3 parity (rotate_bits 17 x) (rotate_bits 19 x) (shift_bits 10 x)"

definition select :: "bool \<Rightarrow> bool \<Rightarrow> bool \<Rightarrow> bool" where
  "select a b c = (if a then b else c)"

lemma length_map3 [simp]:
  "length (map3 f as bs cs) = min (length as) (min (length bs) (length cs))"
  by (induction f as bs cs rule: map3.induct) simp_all

lemma nth_map3:
  "i < length as \<Longrightarrow> i < length bs \<Longrightarrow> i < length cs \<Longrightarrow>
   map3 f as bs cs ! i = f (as ! i) (bs ! i) (cs ! i)"
  by (induction f as bs cs arbitrary: i rule: map3.induct) (auto simp: nth_Cons split: nat.splits)

lemma length_gate_add [simp]: "length (gate_add c as bs) = min (length as) (length bs)"
  by (induction c as bs rule: gate_add.induct) simp_all

lemma bits_val_gate_add:
  "length as = length bs \<Longrightarrow>
   bits_val (gate_add c as bs) = (bits_val as + bits_val bs + of_bool c) mod 2 ^ length as"
proof (induction as bs arbitrary: c rule: list_induct2)
  case (Cons a as b bs)
  define M where "M = bits_val as + bits_val bs + of_bool (majority a b c)"
  have "bits_val (gate_add c (a # as) (b # bs)) = of_bool (parity a b c) + 2 * (M mod 2 ^ length as)"
    unfolding M_def by (simp only: gate_add.simps horner_sum_simps Cons.IH)
  also have "\<dots> = (of_bool (parity a b c) + 2 * M) mod (2 * 2 ^ length as)"
    by (cases "parity a b c") (simp_all add: mod_mult2_eq)
  also have "of_bool (parity a b c) + 2 * M = bits_val (a # as) + bits_val (b # bs) + of_bool c"
    by (cases a; cases b; cases c) (simp_all add: M_def parity_def majority_def)
  finally show ?case by (simp only: length_Cons power_Suc)
qed simp

lemma bits32_add: "bits32 (x + y) = gate_add False (bits32 x) (bits32 y)"
  by (rule bits_val_inj) (simp_all add: bits_val_gate_add bits_val_bits32 unat_word_ariths)

lemma length_rotate_bits [simp]: "length (rotate_bits n xs) = length xs"
  by (simp add: rotate_bits_def)

lemma bits32_rotr: "n < 32 \<Longrightarrow> bits32 (word_rotr n w) = rotate_bits n (bits32 w)"
  by (rule nth_equalityI)
    (auto simp: rotate_bits_def nth_append bit_simps add.commute le_mod_geq)

lemma bits32_shr: "n < 32 \<Longrightarrow> bits32 (drop_bit n w) = shift_bits n (bits32 w)"
  by (rule nth_equalityI)
    (auto simp: shift_bits_def nth_append bit_simps dest: bit_imp_le_length)

lemma bits32_xor3: "bits32 (x XOR y XOR z) = map3 parity (bits32 x) (bits32 y) (bits32 z)"
  by (rule nth_equalityI) (auto simp: nth_map3 bit_simps parity_def)

lemma bits32_Ch: "bits32 (Ch x y z) = map3 select (bits32 x) (bits32 y) (bits32 z)"
  by (rule nth_equalityI) (auto simp: Ch_def nth_map3 bit_simps select_def)

lemma bits32_Maj: "bits32 (Maj x y z) = map3 majority (bits32 x) (bits32 y) (bits32 z)"
  by (rule nth_equalityI) (auto simp: Maj_def nth_map3 bit_simps majority_def)

lemma bits32_sigma:
  "bits32 (big_sigma0 w) = gate_S0 (bits32 w)" "bits32 (big_sigma1 w) = gate_S1 (bits32 w)"
  "bits32 (small_sigma0 w) = gate_s0 (bits32 w)" "bits32 (small_sigma1 w) = gate_s1 (bits32 w)"
  by (simp_all add: big_sigma0_def big_sigma1_def small_sigma0_def small_sigma1_def
      gate_S0_def gate_S1_def gate_s0_def gate_s1_def bits32_xor3 bits32_rotr bits32_shr)

lemmas bits32_gates = bits32_add bits32_Ch bits32_Maj bits32_sigma

section \<open>Blocks\<close>

type_synonym words = "bits list"

definition gate_shuffle ::
  "bits \<Rightarrow> bits \<Rightarrow> bits \<Rightarrow> bits \<Rightarrow> bits \<Rightarrow> bits \<Rightarrow> bits \<Rightarrow> bits \<Rightarrow> bits \<Rightarrow> words" where
  "gate_shuffle t1 t2 a b c d e f g =
     [gate_add False t1 t2, a, b, c, gate_add False d t1, e, f, g]"

fun gate_round :: "bits \<Rightarrow> words \<Rightarrow> words" where
  "gate_round kw [a, b, c, d, e, f, g, h] =
     gate_shuffle
       (gate_add False (gate_add False h (gate_S1 e)) (gate_add False (map3 select e f g) kw))
       (gate_add False (gate_S0 a) (map3 majority a b c)) a b c d e f g"
| "gate_round kw _ = []"

text \<open>The last 16 schedule words move on by one.\<close>

fun next_window :: "words \<Rightarrow> words" where
  "next_window [w0, w1, w2, w3, w4, w5, w6, w7, w8, w9, w10, w11, w12, w13, w14, w15] =
     [w1, w2, w3, w4, w5, w6, w7, w8, w9, w10, w11, w12, w13, w14, w15,
      gate_add False (gate_add False (gate_s1 w14) w9) (gate_add False (gate_s0 w1) w0)]"
| "next_window _ = []"

fun gate_rounds :: "words \<Rightarrow> words \<Rightarrow> words \<Rightarrow> words" where
  "gate_rounds (k # ks) ws s =
     gate_rounds ks (next_window ws) (gate_round (gate_add False k (hd ws)) s)"
| "gate_rounds [] ws s = s"

definition gate_K :: words where
  "gate_K = map bits32 K256"

definition gate_compress :: "words \<Rightarrow> words \<Rightarrow> words" where
  "gate_compress H M = map2 (gate_add False) H (gate_rounds gate_K M H)"

text \<open>Bytes are given by their eight bits.\<close>

fun gate_words :: "bits list \<Rightarrow> words" where
  "gate_words (a # b # c # d # bs) = (d @ c @ b @ a) # gate_words bs"
| "gate_words _ = []"

definition gate_sha :: "bits list \<Rightarrow> words" where
  "gate_sha bs = foldl gate_compress (map bits32 (regs_list H256)) (parse_blocks (gate_words bs))"

section \<open>The gates compute SHA-256\<close>

abbreviation gate_regs :: "u32 octet_regs \<Rightarrow> words" where
  "gate_regs r \<equiv> map bits32 (regs_list r)"

lemma gate_round_fips:
  "gate_round (gate_add False (bits32 k) (bits32 w)) (gate_regs r) = gate_regs (fips_round k w r)"
  by (induction k w r rule: fips_round.induct)
    (simp add: gate_shuffle_def Let_def add.assoc flip: bits32_gates)

definition window :: "u32 list \<Rightarrow> nat \<Rightarrow> words" where
  "window M t = map (\<lambda>i. bits32 (schedule M (i + t)))
     [0, 1, 2, 3, 4, 5, 6, 7, 8, 9, 10, 11, 12, 13, 14, 15]"

lemma next_window_schedule: "next_window (window M t) = window M (Suc t)"
proof -
  have "schedule M (16 + t) = small_sigma1 (schedule M (14 + t)) + schedule M (9 + t)
      + (small_sigma0 (schedule M (Suc t)) + schedule M t)"
    by (subst schedule.simps) (simp add: add.commute add.left_commute)
  then have "bits32 (schedule M (16 + t)) =
      gate_add False (gate_add False (gate_s1 (bits32 (schedule M (14 + t)))) (bits32 (schedule M (9 + t))))
        (gate_add False (gate_s0 (bits32 (schedule M (Suc t)))) (bits32 (schedule M t)))"
    by (simp only: bits32_gates)
  then show ?thesis by (simp add: window_def Suc3_eq_add_3)
qed

lemma gate_rounds_fips:
  "t + n = 64 \<Longrightarrow>
   gate_rounds (drop t gate_K) (window M t) (gate_regs r) =
     gate_regs (foldl (\<lambda>r t. fips_round (K256 ! t) (schedule M t) r) r [t..<64])"
proof (induction n arbitrary: t r)
  case 0
  then show ?case by (simp add: gate_K_def K256_def)
next
  case (Suc n)
  then have t: "t < 64" by simp
  then have "drop t gate_K = bits32 (K256 ! t) # drop (Suc t) gate_K"
    using Cons_nth_drop_Suc [of t gate_K] by (simp add: gate_K_def K256_def)
  moreover have "hd (window M t) = bits32 (schedule M t)"
    by (simp add: window_def)
  moreover have "[t..<64] = t # [Suc t..<64]"
    using t by (rule upt_conv_Cons)
  ultimately show ?case
    using Suc by (simp add: gate_round_fips next_window_schedule)
qed

lemma gate_compress_fips:
  assumes "length M = 16"
  shows "gate_compress (gate_regs H) (map bits32 M) = gate_regs (fips_compress H M)"
proof -
  have "[0, 1, 2, 3, 4, 5, 6, 7, 8, 9, 10, 11, 12, 13, 14, 15] = [0..<16 :: nat]"
    by (simp add: upt_rec)
  then have "window M 0 = map (\<lambda>i. bits32 (M ! i)) [0..<16]"
    unfolding window_def by (simp only:) (rule map_cong, auto simp: schedule.simps)
  moreover have "map bits32 M = map (\<lambda>i. bits32 (M ! i)) [0..<16]"
    using map_nth [of M] assms by (metis (no_types) list.map_comp comp_apply map_eq_conv)
  ultimately have "map bits32 M = window M 0"
    by (simp only:)
  moreover have "gate_rounds gate_K (window M 0) (gate_regs H) =
      gate_regs (foldl (\<lambda>r t. fips_round (K256 ! t) (schedule M t) r) H [0..<64])"
    using gate_rounds_fips [of 0 64 M H] by simp
  moreover have "map2 (gate_add False) (gate_regs r) (gate_regs r') = gate_regs (add_regs r r')" for r r'
    by (induction r r' rule: add_regs.induct) (simp add: bits32_add)
  ultimately show ?thesis by (simp only: gate_compress_def fips_compress_def)
qed

lemma length_parse_blocks:
  "length xs mod 16 = 0 \<Longrightarrow> x \<in> set (parse_blocks xs) \<Longrightarrow> length x = 16"
proof (induction xs rule: parse_blocks.induct)
  case (1 xs)
  show ?case
  proof (cases "xs = []")
    case True
    with "1.prems" show ?thesis by (simp add: parse_blocks.simps)
  next
    case False
    with "1.prems"(1) have len: "16 \<le> length xs"
      by (cases "16 \<le> length xs") simp_all
    with False "1.prems"(2) have "x = take 16 xs \<or> x \<in> set (parse_blocks (drop 16 xs))"
      by (simp add: parse_blocks.simps [of xs])
    with len "1.IH" [OF False] "1.prems"(1) show ?thesis
      by (auto simp: le_mod_geq)
  qed
qed

lemma map_parse_blocks: "map (map f) (parse_blocks xs) = parse_blocks (map f xs)"
  by (induction xs rule: parse_blocks.induct)
    (simp add: parse_blocks.simps [of "map f _"] parse_blocks.simps take_map drop_map)

lemma gate_words_be: "gate_words (map bits8 bs) = map bits32 (be_words bs)"
proof (induction bs rule: be_words.induct)
  case (1 a b c d bs)
  define w :: u32 where
    "w = push_bit 24 (ucast a) OR push_bit 16 (ucast b) OR push_bit 8 (ucast c) OR ucast d"
  have "bits8 d @ bits8 c @ bits8 b @ bits8 a = bits32 w"
    by (rule nth_equalityI) (auto simp: bits8_def w_def nth_append bit_simps dest: bit_imp_le_length)
  with 1 show ?case by (simp add: w_def)
qed simp_all

lemma gate_sha_fips: "gate_sha (map bits8 (fips_pad m)) = gate_regs (fips_sha256 m)"
proof -
  define Ms where "Ms = parse_blocks (be_words (fips_pad m))"
  obtain n where "length (fips_pad m) = 64 * n"
    using fips_pad_blocks [of m] by (metis mod_0_imp_dvd dvdE)
  then have "length (be_words (fips_pad m)) = 16 * n"
    by (simp add: length_be_words)
  then have "length (be_words (fips_pad m)) mod 16 = 0"
    by simp
  then have "\<forall>M \<in> set Ms. length M = 16"
    unfolding Ms_def by (intro ballI length_parse_blocks [of "be_words (fips_pad m)"])
  then have "foldl gate_compress (gate_regs H) (map (map bits32) Ms) = gate_regs (foldl fips_compress H Ms)" for H
    by (induction Ms arbitrary: H) (simp_all add: gate_compress_fips)
  then show ?thesis
    by (simp add: gate_sha_def fips_sha256_def gate_words_be Ms_def map_parse_blocks)
qed

section \<open>Digests as strings\<close>

definition nibble :: "bool \<Rightarrow> bool \<Rightarrow> bool \<Rightarrow> bool \<Rightarrow> char" where
  "nibble a b c d = digit_char (of_bool a + 2 * (of_bool b + 2 * (of_bool c + 2 * of_bool d)))"

fun gate_hex :: "bits \<Rightarrow> string \<Rightarrow> string" where
  "gate_hex (a # b # c # d # bs) acc = gate_hex bs (nibble a b c d # acc)"
| "gate_hex _ acc = acc"

lemma gate_hex_digits:
  "length bs = 4 * k \<Longrightarrow> gate_hex bs acc = fixed_digits 16 k (bits_val bs) @ acc"
proof (induction k arbitrary: bs acc)
  case (Suc k)
  then have "length bs = Suc (Suc (Suc (Suc (4 * k))))" by simp
  then obtain a b c d cs where bs: "bs = a # b # c # d # cs" and cs: "length cs = 4 * k"
    by (auto simp: length_Suc_conv)
  define n :: nat where "n = of_bool a + 2 * (of_bool b + 2 * (of_bool c + 2 * of_bool d))"
  have "n < 16" by (cases a; cases b; cases c; cases d) (simp_all add: n_def)
  moreover have "bits_val bs = n + 16 * bits_val cs"
    by (simp add: bs n_def algebra_simps)
  ultimately have "bits_val bs mod 16 = n" "bits_val bs div 16 = bits_val cs"
    by simp_all
  moreover have "nibble a b c d = digit_char n"
    by (simp only: nibble_def n_def)
  moreover have "gate_hex bs acc = gate_hex cs (nibble a b c d # acc)"
    by (simp only: bs gate_hex.simps)
  ultimately show ?case
    by (simp only: Suc.IH [OF cs] fixed_digits.simps append_assoc append_Cons append_Nil)
qed simp

fun gate_digest :: "words \<Rightarrow> string" where
  "gate_digest [] = []"
| "gate_digest (w # ws) = gate_hex w [] @ gate_digest ws"

lemma gate_digest_fips: "gate_digest (gate_regs r) = concat (map hex_word (regs_list r))"
proof -
  have "gate_hex (bits32 w) [] = hex_word w" for w
    by (simp add: gate_hex_digits [of _ 8] hex_word_def bits_val_bits32)
  then have "gate_digest (map bits32 ws) = concat (map hex_word ws)" for ws
    by (induction ws) simp_all
  then show ?thesis .
qed

text \<open>
  The rule by which a concrete digest is computed: the bits of the padded message, the
  chaining value and the digest are computed by rewriting.
\<close>

lemma sha256Hex_by_gates: "sha256Hex bs = gate_digest (gate_sha (map bits8 (fips_pad bs)))"
  by (simp add: sha256Hex_eq fips_hex_def gate_sha_fips gate_digest_fips)

declare gate_add.simps [simp del] map3.simps [simp del] gate_round.simps [simp del]
  next_window.simps [simp del] gate_rounds.simps [simp del] gate_words.simps [simp del]
  gate_hex.simps [simp del] gate_digest.simps [simp del]

section \<open>Rewrite rules for evaluation\<close>

lemma parity_eval:
  "parity True True True = True"
  "parity True True False = False"
  "parity True False True = False"
  "parity True False False = True"
  "parity False True True = False"
  "parity False True False = True"
  "parity False False True = True"
  "parity False False False = False"
  by (simp_all add: parity_def)

lemma gate_add_eval:
  "gate_add c [] [] = []"
  "gate_add True (True # as) (True # bs) = True # gate_add True as bs"
  "gate_add False (True # as) (True # bs) = False # gate_add True as bs"
  "gate_add True (True # as) (False # bs) = False # gate_add True as bs"
  "gate_add False (True # as) (False # bs) = True # gate_add False as bs"
  "gate_add True (False # as) (True # bs) = False # gate_add True as bs"
  "gate_add False (False # as) (True # bs) = True # gate_add False as bs"
  "gate_add True (False # as) (False # bs) = True # gate_add False as bs"
  "gate_add False (False # as) (False # bs) = False # gate_add False as bs"
  by (simp_all add: gate_add.simps parity_def majority_def)

lemma map3_select_eval:
  "map3 select [] [] [] = []"
  "map3 select (True # as) (b # bs) (c # cs) = b # map3 select as bs cs"
  "map3 select (False # as) (b # bs) (c # cs) = c # map3 select as bs cs"
  by (simp_all add: map3.simps select_def)

lemma map3_majority_eval:
  "map3 majority [] [] [] = []"
  "map3 majority (True # as) (True # bs) (c # cs) = True # map3 majority as bs cs"
  "map3 majority (False # as) (False # bs) (c # cs) = False # map3 majority as bs cs"
  "map3 majority (True # as) (False # bs) (c # cs) = c # map3 majority as bs cs"
  "map3 majority (False # as) (True # bs) (c # cs) = c # map3 majority as bs cs"
  by (simp_all add: map3.simps majority_def)

lemma gate_S0_eval:
  "gate_S0 [b0, b1, b2, b3, b4, b5, b6, b7, b8, b9, b10, b11, b12, b13, b14, b15,
    b16, b17, b18, b19, b20, b21, b22, b23, b24, b25, b26, b27, b28, b29, b30, b31] =
   [parity b2 b13 b22, parity b3 b14 b23, parity b4 b15 b24, parity b5 b16 b25,
    parity b6 b17 b26, parity b7 b18 b27, parity b8 b19 b28, parity b9 b20 b29,
    parity b10 b21 b30, parity b11 b22 b31, parity b12 b23 b0, parity b13 b24 b1,
    parity b14 b25 b2, parity b15 b26 b3, parity b16 b27 b4, parity b17 b28 b5,
    parity b18 b29 b6, parity b19 b30 b7, parity b20 b31 b8, parity b21 b0 b9,
    parity b22 b1 b10, parity b23 b2 b11, parity b24 b3 b12, parity b25 b4 b13,
    parity b26 b5 b14, parity b27 b6 b15, parity b28 b7 b16, parity b29 b8 b17,
    parity b30 b9 b18, parity b31 b10 b19, parity b0 b11 b20, parity b1 b12 b21]"
  by (simp add: gate_S0_def map3.simps rotate_bits_def shift_bits_def numeral_eq_Suc)

lemma gate_S1_eval:
  "gate_S1 [b0, b1, b2, b3, b4, b5, b6, b7, b8, b9, b10, b11, b12, b13, b14, b15,
    b16, b17, b18, b19, b20, b21, b22, b23, b24, b25, b26, b27, b28, b29, b30, b31] =
   [parity b6 b11 b25, parity b7 b12 b26, parity b8 b13 b27, parity b9 b14 b28,
    parity b10 b15 b29, parity b11 b16 b30, parity b12 b17 b31, parity b13 b18 b0,
    parity b14 b19 b1, parity b15 b20 b2, parity b16 b21 b3, parity b17 b22 b4,
    parity b18 b23 b5, parity b19 b24 b6, parity b20 b25 b7, parity b21 b26 b8,
    parity b22 b27 b9, parity b23 b28 b10, parity b24 b29 b11, parity b25 b30 b12,
    parity b26 b31 b13, parity b27 b0 b14, parity b28 b1 b15, parity b29 b2 b16,
    parity b30 b3 b17, parity b31 b4 b18, parity b0 b5 b19, parity b1 b6 b20, parity b2 b7 b21,
    parity b3 b8 b22, parity b4 b9 b23, parity b5 b10 b24]"
  by (simp add: gate_S1_def map3.simps rotate_bits_def shift_bits_def numeral_eq_Suc)

lemma gate_s0_eval:
  "gate_s0 [b0, b1, b2, b3, b4, b5, b6, b7, b8, b9, b10, b11, b12, b13, b14, b15,
    b16, b17, b18, b19, b20, b21, b22, b23, b24, b25, b26, b27, b28, b29, b30, b31] =
   [parity b7 b18 b3, parity b8 b19 b4, parity b9 b20 b5, parity b10 b21 b6, parity b11 b22 b7,
    parity b12 b23 b8, parity b13 b24 b9, parity b14 b25 b10, parity b15 b26 b11,
    parity b16 b27 b12, parity b17 b28 b13, parity b18 b29 b14, parity b19 b30 b15,
    parity b20 b31 b16, parity b21 b0 b17, parity b22 b1 b18, parity b23 b2 b19,
    parity b24 b3 b20, parity b25 b4 b21, parity b26 b5 b22, parity b27 b6 b23,
    parity b28 b7 b24, parity b29 b8 b25, parity b30 b9 b26, parity b31 b10 b27,
    parity b0 b11 b28, parity b1 b12 b29, parity b2 b13 b30, parity b3 b14 b31,
    parity b4 b15 False, parity b5 b16 False, parity b6 b17 False]"
  by (simp add: gate_s0_def map3.simps rotate_bits_def shift_bits_def numeral_eq_Suc)

lemma gate_s1_eval:
  "gate_s1 [b0, b1, b2, b3, b4, b5, b6, b7, b8, b9, b10, b11, b12, b13, b14, b15,
    b16, b17, b18, b19, b20, b21, b22, b23, b24, b25, b26, b27, b28, b29, b30, b31] =
   [parity b17 b19 b10, parity b18 b20 b11, parity b19 b21 b12, parity b20 b22 b13,
    parity b21 b23 b14, parity b22 b24 b15, parity b23 b25 b16, parity b24 b26 b17,
    parity b25 b27 b18, parity b26 b28 b19, parity b27 b29 b20, parity b28 b30 b21,
    parity b29 b31 b22, parity b30 b0 b23, parity b31 b1 b24, parity b0 b2 b25,
    parity b1 b3 b26, parity b2 b4 b27, parity b3 b5 b28, parity b4 b6 b29, parity b5 b7 b30,
    parity b6 b8 b31, parity b7 b9 False, parity b8 b10 False, parity b9 b11 False,
    parity b10 b12 False, parity b11 b13 False, parity b12 b14 False, parity b13 b15 False,
    parity b14 b16 False, parity b15 b17 False, parity b16 b18 False]"
  by (simp add: gate_s1_def map3.simps rotate_bits_def shift_bits_def numeral_eq_Suc)

lemma nibble_eval:
  "nibble False False False False = CHR ''0''"
  "nibble True False False False = CHR ''1''"
  "nibble False True False False = CHR ''2''"
  "nibble True True False False = CHR ''3''"
  "nibble False False True False = CHR ''4''"
  "nibble True False True False = CHR ''5''"
  "nibble False True True False = CHR ''6''"
  "nibble True True True False = CHR ''7''"
  "nibble False False False True = CHR ''8''"
  "nibble True False False True = CHR ''9''"
  "nibble False True False True = CHR ''a''"
  "nibble True True False True = CHR ''b''"
  "nibble False False True True = CHR ''c''"
  "nibble True False True True = CHR ''d''"
  "nibble False True True True = CHR ''e''"
  "nibble True True True True = CHR ''f''"
  by (simp_all add: nibble_def digit_char_def)

text \<open>A padded block: the bits of each byte.\<close>

definition char_bits :: "char \<Rightarrow> bits" where
  "char_bits c = bits8 (of_char c)"

lemma char_bits_eval: "char_bits (Char b0 b1 b2 b3 b4 b5 b6 b7) = [b0, b1, b2, b3, b4, b5, b6, b7]"
proof -
  have "[0..<8 :: nat] = [0, 1, 2, 3, 4, 5, 6, 7]"
    by (simp add: upt_rec)
  then show ?thesis
    unfolding char_bits_def bits8_def of_char_Char by (simp add: bit_horner_sum_bit_word_iff)
qed

lemma bits8_of_nat: "bits8 (of_nat n) =
  map (\<lambda>d. odd (n div d)) [1, 2, 4, 8, 16, 32, 64, 128]"
proof -
  have "bits8 (of_nat n) = map (\<lambda>i. odd (n div 2 ^ i)) [0..<8]"
    unfolding bits8_def by (rule map_cong) (simp_all add: bit_simps flip: bit_iff_odd)
  then show ?thesis by (simp add: upt_rec)
qed

lemma be_bytes_8_small:
  "n < 65536 \<Longrightarrow> be_bytes 8 n = [0, 0, 0, 0, 0, 0, of_nat (n div 256), of_nat n]"
  by (simp add: be_bytes_numeral flip: div_mult2_eq)

definition gate_padding :: "nat \<Rightarrow> bits list" where
  "gate_padding l = bits8 0x80 # replicate (zero_bytes l) (bits8 0)
     @ [bits8 0, bits8 0, bits8 0, bits8 0, bits8 0, bits8 0,
        bits8 (of_nat (8 * l div 256)), bits8 (of_nat (8 * l))]"

text \<open>The same for the bytes of an ASCII string, as the data set builds them.\<close>

lemma sha256Hex_text:
  assumes "list_all (\<lambda>c. (of_char c :: nat) < 128) s" "8 * length s < 65536"
  shows "sha256Hex (text_encode s) =
    gate_digest (gate_sha (map char_bits s @ gate_padding (length s)))"
proof -
  have "text_encode s = map of_char s"
    using assms(1) by (intro text_encode_ascii) (simp add: list_all_iff)
  then have "map bits8 (fips_pad (text_encode s)) = map char_bits s @ gate_padding (length s)"
    using assms(2) by (simp add: fips_pad_def gate_padding_def be_bytes_8_small char_bits_def)
  then show ?thesis by (simp only: sha256Hex_by_gates)
qed

lemma parse_blocks_Cons:
  "parse_blocks (x0 # x1 # x2 # x3 # x4 # x5 # x6 # x7 # x8 # x9 # x10 # x11 # x12 # x13 # x14 # x15 # xs) =
   [x0, x1, x2, x3, x4, x5, x6, x7, x8, x9, x10, x11, x12, x13, x14, x15] # parse_blocks xs"
  "parse_blocks [] = []"
  by (simp_all add: parse_blocks.simps [of "_ # _"] parse_blocks.simps [of "[]"])

lemma bits32_int: "bits32 (w32 x) = map (\<lambda>d. odd (x div d))
  [1, 2, 4, 8, 16, 32, 64, 128, 256, 512, 1024, 2048, 4096, 8192, 16384, 32768,
   65536, 131072, 262144, 524288, 1048576, 2097152, 4194304, 8388608, 16777216, 33554432,
   67108864, 134217728, 268435456, 536870912, 1073741824, 2147483648]"
proof -
  have "bits32 (w32 x) = map (\<lambda>i. odd (x div 2 ^ i)) [0..<32]"
    unfolding bits32_def by (rule map_cong) (simp_all add: bit_simps flip: bit_iff_odd)
  then show ?thesis by (simp add: upt_rec)
qed

lemmas bits32_numeral = bits32_int [of "numeral k", unfolded of_int_numeral] for k

lemma gate_H256: "map bits32 (regs_list H256) = map (\<lambda>x. bits32 (w32 x)) (regs_list sha_init)"
  by (simp add: H256_def sha_init_def)

lemma bits8_eval:
  "bits8 0 = [False, False, False, False, False, False, False, False]"
  "bits8 0x80 = [False, False, False, False, False, False, False, True]"
  using bits8_of_nat [of 0] bits8_of_nat [of 128] by simp_all

lemma replicate_numeral_Cons:
  "replicate (numeral k) x = x # replicate (pred_numeral k) x" "replicate (Suc 0) x = [x]"
  by (simp_all add: numeral_eq_Suc [of k])

lemmas bits8_numeral = bits8_of_nat [of "numeral k", unfolded of_nat_numeral] for k

lemmas bits8_one = bits8_of_nat [of 1, unfolded of_nat_1]

lemmas gate_K_eval = gate_K_def [unfolded K256_def round_constants_def concat.simps list.map append.simps
  append_Nil2 of_int_numeral bits32_numeral, simplified]

lemmas gate_init_eval = gate_H256 [unfolded sha_init_def regs_list.simps, simplified bits32_int, simplified]

lemmas padding_eval = gate_padding_def zero_bytes_def bits8_eval bits8_numeral bits8_one char_bits_eval
  replicate_numeral_Cons

lemmas gate_eval = gate_sha_def gate_init_eval gate_words.simps parse_blocks_Cons foldl.simps
  gate_compress_def gate_K_eval gate_rounds.simps list.sel(1) next_window.simps(1)
  gate_round.simps(1) gate_shuffle_def gate_add_eval map3_select_eval map3_majority_eval
  parity_eval gate_S0_eval gate_S1_eval gate_s0_eval gate_s1_eval
  zip_Cons_Cons zip_Nil list.map prod.case append.simps

lemmas digest_eval = gate_digest.simps gate_hex.simps(1,2) nibble_eval append.simps

section \<open>The test vectors of the standard\<close>

lemma sha256_empty: "sha256Hex (text_encode []) =
    ''e3b0c44298fc1c149afbf4c8996fb92427ae41e4649b934ca495991b7852b855''"
  by (rule trans [OF sha256Hex_text], simp, simp, simp add: padding_eval, simp only: gate_eval,
      simp only: digest_eval)

lemma sha256_abc: "sha256Hex (text_encode ''abc'') =
    ''ba7816bf8f01cfea414140de5dae2223b00361a396177a9cb410ff61f20015ad''"
  by (rule trans [OF sha256Hex_text], simp, simp, simp add: padding_eval, simp only: gate_eval,
      simp only: digest_eval)

lemma sha256_two_blocks:
  "sha256Hex (text_encode ''abcdbcdecdefdefgefghfghighijhijkijkljklmklmnlmnomnopnopq'') =
    ''248d6a61d20638b8e5c026930c3e6039a33ce45964ff2167f6ecedd419db06c1''"
  by (rule trans [OF sha256Hex_text], simp, simp, simp add: padding_eval, simp only: gate_eval,
      simp only: digest_eval)

end
