(* ===== verification/Dataset.thy ===== *)
theory Dataset
  imports Engine
begin

text \<open>
  web/src/sim/dataset.ts: the demonstration data set, its one edit, and the comparison of two
  file trees.
\<close>

section \<open>The code\<close>

definition logBody :: "nat \<Rightarrow> string" where
  "logBody lines = foldl (\<lambda>s i. s @ ''record '' @ js_show (int i) @ '' payload data line\<newline>'') [] [1..<Suc lines]"

definition makeDataset :: "source_file list" where
  "makeDataset =
     (let appLog = logBody 24
      in [\<lparr>sf_path = ''logs/app.log'', sf_data = text_encode appLog\<rparr>,
          \<lparr>sf_path = ''logs/app.log.bak'', sf_data = text_encode appLog\<rparr>,
          \<lparr>sf_path = ''config/settings.ini'',
           sf_data = text_encode ''name = snapvault\<newline>nodes = 5\<newline>replicas = 3\<newline>''\<rparr>,
          \<lparr>sf_path = ''config/blob.dat'', sf_data = text_encode (concat (replicate 200 ''Z''))\<rparr>])"

definition editOneFile :: "source_file list \<Rightarrow> source_file list" where
  "editOneFile files =
     map (\<lambda>f. if sf_path f = ''config/settings.ini''
              then \<lparr>sf_path = sf_path f,
                    sf_data = text_encode ''name = snapvault\<newline>nodes = 7\<newline>replicas = 3\<newline>changed = true\<newline>''\<rparr>
              else f) files"

text \<open>Lines 49 to 54. The lengths are equal when the inner loop runs, so no read is out of
  range.\<close>

fun bytes_equal_from :: "nat \<Rightarrow> nat \<Rightarrow> bytes \<Rightarrow> bytes \<Rightarrow> bool" where
  "bytes_equal_from i 0 a b = True"
| "bytes_equal_from i (Suc k) a b = (if a ! i \<noteq> b ! i then False else bytes_equal_from (Suc i) k a b)"

fun trees_loop :: "(string, bytes) js_map \<Rightarrow> source_file list \<Rightarrow> bool" where
  "trees_loop byPath [] = True"
| "trees_loop byPath (f # fs) =
     (case map_get byPath (sf_path f) of
        None \<Rightarrow> False
      | Some other \<Rightarrow>
          if length other \<noteq> length (sf_data f) then False
          else if bytes_equal_from 0 (length (sf_data f)) (sf_data f) other
          then trees_loop byPath fs else False)"

definition treesEqual :: "source_file list \<Rightarrow> source_file list \<Rightarrow> bool" where
  "treesEqual a b =
     (if length a \<noteq> length b then False
      else trees_loop (map_new (map (\<lambda>f. (sf_path f, sf_data f)) b)) a)"

section \<open>What the comparison decides\<close>

lemma bytes_equal_from_iff:
  "bytes_equal_from i k a b \<longleftrightarrow> (\<forall>j. i \<le> j \<and> j < i + k \<longrightarrow> a ! j = b ! j)"
proof (induction k arbitrary: i)
  case (Suc k)
  have "(\<forall>j. i \<le> j \<and> j < i + Suc k \<longrightarrow> a ! j = b ! j)
      \<longleftrightarrow> a ! i = b ! i \<and> (\<forall>j. Suc i \<le> j \<and> j < Suc i + k \<longrightarrow> a ! j = b ! j)"
    by (auto simp: less_Suc_eq_le Suc_le_eq) (metis le_neq_implies_less)
  then show ?case by (simp add: Suc.IH)
qed auto

lemma trees_loop_iff:
  "trees_loop m fs \<longleftrightarrow> (\<forall>f \<in> set fs. map_get m (sf_path f) = Some (sf_data f))"
proof (induction fs)
  case (Cons f fs)
  have "bytes_equal_from 0 (length a) a b \<longleftrightarrow> b = a" if "length b = length a" for a b
    using that by (auto simp: bytes_equal_from_iff intro: nth_equalityI)
  with Cons show ?case by (auto split: option.split)
qed simp

definition tree_map :: "source_file list \<Rightarrow> string \<Rightarrow> bytes option" where
  "tree_map fs = map_of (map (\<lambda>f. (sf_path f, sf_data f)) fs)"

lemma treesEqual_iff:
  "treesEqual a b \<longleftrightarrow> length a = length b \<and> (\<forall>f \<in> set a. tree_map (rev b) (sf_path f) = Some (sf_data f))"
  by (simp add: treesEqual_def trees_loop_iff map_of_map_new tree_map_def rev_map)

lemma source_file_eta [simp]: "\<lparr>sf_path = sf_path f, sf_data = sf_data f\<rparr> = f"
  by (cases f) simp

lemma tree_map_Some:
  assumes "distinct (map sf_path fs)"
  shows "tree_map fs p = Some d \<longleftrightarrow> \<lparr>sf_path = p, sf_data = d\<rparr> \<in> set fs"
proof -
  have "distinct (map fst (map (\<lambda>f. (sf_path f, sf_data f)) fs))"
    using assms by (simp add: comp_def)
  then have "tree_map fs p = Some d \<longleftrightarrow> (p, d) \<in> (\<lambda>f. (sf_path f, sf_data f)) ` set fs"
    unfolding tree_map_def by (simp only: map_of_eq_Some_iff list.set_map)
  also have "\<dots> \<longleftrightarrow> (\<exists>f \<in> set fs. p = sf_path f \<and> d = sf_data f)"
    by auto
  also have "\<dots> \<longleftrightarrow> \<lparr>sf_path = p, sf_data = d\<rparr> \<in> set fs"
    by (metis source_file.select_convs source_file_eta)
  finally show ?thesis .
qed

text \<open>On trees without a repeated path the comparison is equality of the trees as sets.\<close>

lemma treesEqual_sets:
  assumes "distinct (map sf_path a)" "distinct (map sf_path b)"
  shows "treesEqual a b \<longleftrightarrow> set a = set b"
proof -
  have dist: "distinct (map sf_path (rev b))" using assms(2) by (simp add: rev_map [symmetric])
  have "(\<forall>f \<in> set a. tree_map (rev b) (sf_path f) = Some (sf_data f)) \<longleftrightarrow> set a \<subseteq> set b"
    by (auto simp: tree_map_Some [OF dist] subset_iff)
  moreover have "length a = card (set a)" "length b = card (set b)"
    using assms by (simp_all add: distinct_card distinct_map)
  ultimately have "treesEqual a b \<longleftrightarrow> card (set a) = card (set b) \<and> set a \<subseteq> set b"
    by (simp add: treesEqual_iff)
  also have "\<dots> \<longleftrightarrow> set a = set b"
    using card_subset_eq [of "set b" "set a"] by auto
  finally show ?thesis .
qed

lemma editOneFile_paths: "map sf_path (editOneFile files) = map sf_path files"
  by (simp add: editOneFile_def)

lemma makeDataset_paths: "distinct (map sf_path makeDataset)"
  by (simp add: makeDataset_def Let_def)

end
