(* ===== verification/Demo_Digests.thy ===== *)
theory Demo_Digests
  imports Sha256_Gates Dataset Engine_Correct
begin

text \<open>
  The digests of the fifteen distinct chunks of the demonstration data set and its edit,
  computed in the kernel by the gate-level SHA-256, and the chunk references of each file.
\<close>

section \<open>The digests\<close>

definition demo_table :: "(string \<times> string) list" where
  "demo_table =
    [(''record 1 payload data line\<newline>record 2 payload data line\<newline>record 3 p'',
       ''af45ca4782d3c22cd682600e484a88ae4fc78483dc4193dc4fec3c8823cbbe48''),
     (''ayload data line\<newline>record 4 payload data line\<newline>record 5 payload dat'',
       ''4c6d91f9baae0b7e5bbfe650cae1c32ebcbf24e0bb978880db4c1ec88def56ed''),
     (''a line\<newline>record 6 payload data line\<newline>record 7 payload data line\<newline>rec'',
       ''ddd67ec7a397bd24f38de6e668b2ca20f48bca769c7ca37d1efcc1a008e504c3''),
     (''ord 8 payload data line\<newline>record 9 payload data line\<newline>record 10 pay'',
       ''1725686d28cb298f7b83747f97e3a91fe80386cc6f8e1824c6fd5ce60831daf4''),
     (''load data line\<newline>record 11 payload data line\<newline>record 12 payload dat'',
       ''1e8a0f2e98dca19c3aabf97a0a1869e92215843efe17c869ae17dc63b9e2793c''),
     (''a line\<newline>record 13 payload data line\<newline>record 14 payload data line\<newline>r'',
       ''9c7245b3977c771eb64490fcb3c6a442dc2eea5eb38706782a1dcd07726dfa8f''),
     (''ecord 15 payload data line\<newline>record 16 payload data line\<newline>record 17'',
       ''b190ee6658aae70686587d793d2a644bdb299c0cac90d176f0c937e8a5027f68''),
     ('' payload data line\<newline>record 18 payload data line\<newline>record 19 payload'',
       ''208135f90dd4a21a0af0696c56655628354224b961a86f65ad0bb74b9068258e''),
     ('' data line\<newline>record 20 payload data line\<newline>record 21 payload data li'',
       ''33ce16b458368d3615799d26c300d16cce72a59c93063cd150f3cef2305a8813''),
     (''ne\<newline>record 22 payload data line\<newline>record 23 payload data line\<newline>recor'',
       ''29668b3731cf867173bbcfcc0906ca55eaecc2ff42ab6589c1767177e86c55b4''),
     (''d 24 payload data line\<newline>'',
       ''706ea9e4a6eb500f1ee60bc158b08ba283cd47bf6822892318c531cd6a648771''),
     (''name = snapvault\<newline>nodes = 5\<newline>replicas = 3\<newline>'',
       ''c750f5d048f05bb22f5aeecff808d3ec46f4d12df4ebf716674e144922bc5d6c''),
     (''name = snapvault\<newline>nodes = 7\<newline>replicas = 3\<newline>changed = true\<newline>'',
       ''fcf82dcf5f27557a480ee9fd6c1b82226b980192318bc06a0c7a972cf8492814''),
     (''ZZZZZZZZZZZZZZZZZZZZZZZZZZZZZZZZZZZZZZZZZZZZZZZZZZZZZZZZZZZZZZZZ'',
       ''cc7321cce5e4409bd8077d58422e1214969059bbd40b4eeb0de0a642f40f7282''),
     (''ZZZZZZZZ'',
       ''e6a4ff9df5c3e4523900da36e7b538681c2ae36b0170cb17e1a3522a94e08c86'')]"

definition table_ok :: "(string \<times> string) list \<Rightarrow> bool" where
  "table_ok ps \<longleftrightarrow> (\<forall>(t, h) \<in> set ps. sha256Hex (text_encode t) = h)"

lemma table_ok_intros:
  "table_ok []" "sha256Hex (text_encode t) = h \<Longrightarrow> table_ok ps \<Longrightarrow> table_ok ((t, h) # ps)"
  by (simp_all add: table_ok_def)

lemma demo_table_ok: "table_ok demo_table"
  unfolding demo_table_def
  by (intro table_ok_intros; rule trans [OF sha256Hex_text], simp, simp, simp add: padding_eval,
      simp only: gate_eval, simp only: digest_eval)

lemma demo_table_digest: "(t, h) \<in> set demo_table \<Longrightarrow> sha256Hex (text_encode t) = h"
  using demo_table_ok by (auto simp: table_ok_def)

lemma demo_table_distinct: "distinct (map snd demo_table)"
  by (simp add: demo_table_def)

definition demo_digest :: "string \<Rightarrow> string" where
  "demo_digest t = the (map_of demo_table t)"

lemma demo_digest:
  assumes "t \<in> fst ` set demo_table"
  shows "sha256Hex (text_encode t) = demo_digest t"
proof -
  from assms obtain h where h: "map_of demo_table t = Some h"
    by (force dest: weak_map_of_SomeI)
  then show ?thesis
    using demo_table_ok by (auto simp: demo_digest_def table_ok_def dest: map_of_SomeD)
qed

section \<open>The chunks of the files\<close>

lemma demo_fst: "map fst (take 11 demo_table) =
    [''record 1 payload data line\<newline>record 2 payload data line\<newline>record 3 p'',
     ''ayload data line\<newline>record 4 payload data line\<newline>record 5 payload dat'',
     ''a line\<newline>record 6 payload data line\<newline>record 7 payload data line\<newline>rec'',
     ''ord 8 payload data line\<newline>record 9 payload data line\<newline>record 10 pay'',
     ''load data line\<newline>record 11 payload data line\<newline>record 12 payload dat'',
     ''a line\<newline>record 13 payload data line\<newline>record 14 payload data line\<newline>r'',
     ''ecord 15 payload data line\<newline>record 16 payload data line\<newline>record 17'',
     '' payload data line\<newline>record 18 payload data line\<newline>record 19 payload'',
     '' data line\<newline>record 20 payload data line\<newline>record 21 payload data li'',
     ''ne\<newline>record 22 payload data line\<newline>record 23 payload data line\<newline>recor'',
     ''d 24 payload data line\<newline>'']"
  by (simp add: demo_table_def)

lemma log_pieces: "pieces 64 (logBody 24) = map fst (take 11 demo_table)"
  unfolding demo_fst
  by (simp add: logBody_def upt_rec js_to_string_def nat_to_string.simps digit_char_def pieces_step)

lemma settings_pieces:
  "pieces 64 ''name = snapvault\<newline>nodes = 5\<newline>replicas = 3\<newline>'' = map fst (take 1 (drop 11 demo_table))"
  "pieces 64 ''name = snapvault\<newline>nodes = 7\<newline>replicas = 3\<newline>changed = true\<newline>'' = map fst (take 1 (drop 12 demo_table))"
  by (simp_all add: demo_table_def pieces_step)

lemma blob_pieces:
  "pieces 64 (concat (replicate 200 ''Z'')) = map fst [demo_table ! 13, demo_table ! 13, demo_table ! 13, demo_table ! 14]"
  by (simp add: demo_table_def pieces_step numeral_eq_Suc)

section \<open>The references and the bytes of the files\<close>

abbreviation ascii :: "string \<Rightarrow> bool" where
  "ascii \<equiv> list_all (\<lambda>c. (of_char c :: nat) < 128)"

lemma demo_table_ascii: "list_all ascii (map fst demo_table)"
  by (simp add: demo_table_def)

lemma pieces_map: "pieces n (map f xs) = map (map f) (pieces n xs)"
proof (induction n xs rule: pieces.induct)
  case (1 n xs)
  then show ?case
    by (cases "xs = [] \<or> n = 0") (auto simp: pieces.simps [of n] pieces_step take_map drop_map)
qed

lemma text_pieces:
  assumes "ascii s" "0 < n"
  shows "pieces n (text_encode s) = map text_encode (pieces n s)"
proof -
  have "text_encode t = map of_char t" if "set t \<subseteq> set s" for t
    using assms(1) that by (intro text_encode_ascii) (auto simp: list_all_iff)
  moreover have "set t \<subseteq> set s" if "t \<in> set (pieces n s)" for t
    using that concat_pieces [OF assms(2), of s] by (metis UN_upper set_concat)
  ultimately show ?thesis by (simp add: pieces_map)
qed

text \<open>A file whose pieces are texts of the table is stored under their digests.\<close>

lemma file_from_table:
  assumes data: "sf_data f = text_encode s"
    and pieces: "pieces 64 s = map fst xs" and table: "set xs \<subseteq> set demo_table"
  shows "file_writes 64 f = map (\<lambda>(t, h). (h, text_encode t)) xs"
proof -
  have "\<forall>t \<in> set (map fst xs). ascii t"
    using demo_table_ascii table by (auto simp: list_all_iff [of ascii])
  moreover have "s = concat (map fst xs)"
    using concat_pieces [of 64 s] by (simp add: pieces)
  ultimately have "ascii s" by (auto simp: list_all_iff)
  then have "pieces 64 (sf_data f) = map (text_encode \<circ> fst) xs"
    by (simp add: data text_pieces pieces)
  moreover have "\<And>t h. (t, h) \<in> set xs \<Longrightarrow> sha256Hex (text_encode t) = h"
    using table demo_table_digest by blast
  ultimately show ?thesis
    by (auto simp: file_writes_def chunkBuffer_pieces effective_chunk_size_def make_chunk_def)
qed

lemma length_demo_table: "length demo_table = 15"
  by (simp add: demo_table_def)

lemma demo_table_parts:
  "set (take n demo_table) \<subseteq> set demo_table" "set (take n (drop m demo_table)) \<subseteq> set demo_table"
  "i < 15 \<Longrightarrow> demo_table ! i \<in> set demo_table"
  by (auto dest: in_set_takeD in_set_dropD simp: length_demo_table)

text \<open>The table rows behind the files of the two snapshots.\<close>

definition v1_index :: "nat list" where
  "v1_index = [0..<11] @ [0..<11] @ [11, 13, 13, 13, 14]"

definition v2_index :: "nat list" where
  "v2_index = [0..<11] @ [0..<11] @ [12, 13, 13, 13, 14]"

definition table_rows :: "nat list \<Rightarrow> (string \<times> string) list" where
  "table_rows is = map (\<lambda>i. demo_table ! i) is"

lemma rows_upt: "m \<le> n \<Longrightarrow> n \<le> 15 \<Longrightarrow> table_rows [m..<n] = take (n - m) (drop m demo_table)"
  unfolding table_rows_def by (rule nth_equalityI) (simp_all add: length_demo_table)

lemma rows_append [simp]: "table_rows [] = []" "table_rows (is @ js) = table_rows is @ table_rows js" "table_rows (i # is) = demo_table ! i # table_rows is"
  by (simp_all add: table_rows_def)

lemma demo_rows: "take 11 demo_table = table_rows [0..<11]" "take (Suc 0) (drop 11 demo_table) = [demo_table ! 11]"
  "take (Suc 0) (drop 12 demo_table) = [demo_table ! 12]"
  using rows_upt [of 0 11] rows_upt [of 11 12] rows_upt [of 12 13] by (simp_all add: table_rows_def)

text \<open>Different rows have different digests.\<close>

lemma rows_hashes:
  assumes "set is \<subseteq> {0..<15}" "set js \<subseteq> {0..<15}"
  shows "card (set (map snd (table_rows is)) - set (map snd (table_rows js))) = card (set is - set js)"
proof -
  let ?f = "\<lambda>i. map snd demo_table ! i"
  have inj: "inj_on ?f {0..<15}"
    by (rule inj_onI)
      (use nth_eq_iff_index_eq [OF demo_table_distinct] length_demo_table in \<open>simp del: nth_map\<close>)
  have image: "set (map snd (table_rows ks)) = ?f ` set ks" if "set ks \<subseteq> {0..<15}" for ks
    using that length_demo_table by (auto simp: table_rows_def image_iff subset_iff)
  have "set (map snd (table_rows is)) - set (map snd (table_rows js)) = ?f ` (set is - set js)"
    unfolding image [OF assms(1)] image [OF assms(2)]
    by (rule inj_on_image_set_diff [symmetric, OF inj]) (use assms in auto)
  moreover have "inj_on ?f (set is - set js)"
    using assms by (intro inj_on_subset [OF inj]) auto
  ultimately show ?thesis by (simp only: card_image)
qed

lemmas demo_files = file_from_table [OF _ log_pieces demo_table_parts(1)]
  file_from_table [OF _ settings_pieces(1) demo_table_parts(2)]
  file_from_table [OF _ settings_pieces(2) demo_table_parts(2)]
  file_from_table [OF _ blob_pieces]

lemma v1_writes: "all_writes 64 makeDataset = map (\<lambda>(t, h). (h, text_encode t)) (table_rows v1_index)"
  by (simp add: makeDataset_def Let_def all_writes_def demo_files demo_table_parts v1_index_def demo_rows)

lemma v2_writes: "all_writes 64 (editOneFile makeDataset) = map (\<lambda>(t, h). (h, text_encode t)) (table_rows v2_index)"
  by (simp add: makeDataset_def editOneFile_def Let_def all_writes_def demo_files demo_table_parts v2_index_def demo_rows)

text \<open>No two of the texts share a digest.\<close>

lemma demo_injective: "inj_on sha256Hex (text_encode ` fst ` set demo_table)"
proof (rule inj_onI)
  fix a b
  assume "a \<in> text_encode ` fst ` set demo_table" "b \<in> text_encode ` fst ` set demo_table"
  then obtain t h t' h' where both: "(t, h) \<in> set demo_table" "(t', h') \<in> set demo_table"
    and ab: "a = text_encode t" "b = text_encode t'" by auto
  assume "sha256Hex a = sha256Hex b"
  then have "h = h'"
    using both by (simp add: ab demo_table_digest)
  then have "(t, h) = (t', h')"
    using both demo_table_distinct inj_onD [of snd "set demo_table" "(t, h)" "(t', h')"]
    by (simp add: distinct_map)
  then show "a = b" by (simp add: ab)
qed

lemma rows_set: "set is \<subseteq> {0..<15} \<Longrightarrow> set (table_rows is) \<subseteq> set demo_table"
  by (auto simp: table_rows_def subset_iff length_demo_table)

lemma index_range: "set v1_index \<subseteq> {0..<15}" "set v2_index \<subseteq> {0..<15}"
  by (auto simp: v1_index_def v2_index_def)

lemma v1_data: "snd ` set (all_writes 64 makeDataset) \<subseteq> text_encode ` fst ` set demo_table"
  using rows_set [OF index_range(1)] by (force simp: v1_writes)

lemma v2_data: "snd ` set (all_writes 64 (editOneFile makeDataset)) \<subseteq> text_encode ` fst ` set demo_table"
  using rows_set [OF index_range(2)] by (force simp: v2_writes)

lemma v1_source_refs: "source_refs 64 makeDataset = map snd (table_rows v1_index)"
  by (simp add: v1_writes comp_def case_prod_beta flip: fst_all_writes)

lemma v2_source_refs: "source_refs 64 (editOneFile makeDataset) = map snd (table_rows v2_index)"
  by (simp add: v2_writes comp_def case_prod_beta flip: fst_all_writes)

end
