(* ===== verification/Selfcheck.thy ===== *)
theory Selfcheck
  imports Distribute Demo_Digests
begin

text \<open>
  web/src/sim/selfcheck.ts: the pipeline that the browser runs on the demonstration data set.
  The run is evaluated on the digests of that data set, so its four verdicts and its console
  lines are a theorem without hypotheses.
\<close>

section \<open>The code\<close>

record self_check_report =
  sc_dedupOk :: bool
  sc_incrementalOk :: bool
  sc_survivedFailureOk :: bool
  sc_cleanFailureOk :: bool
  sc_lines :: "string list"

abbreviation show_nat :: "nat \<Rightarrow> string" where
  "show_nat n \<equiv> js_show (int n)"

text \<open>Lines 28 to 31 and 37 to 40.\<close>

definition snapshot_line :: "snapshot_stats \<Rightarrow> string" where
  "snapshot_line st =
     ''snapshot v1: files='' @ show_nat (st_files st) @ '' chunkRefs='' @ show_nat (st_chunks st)
       @ '' new='' @ show_nat (st_newChunks st) @ '' deduped='' @ show_nat (st_dedupedChunks st)"

definition incremental_line :: "snapshot_stats \<Rightarrow> string" where
  "incremental_line st =
     ''snapshot v2 (incremental): chunkRefs='' @ show_nat (st_chunks st)
       @ '' new='' @ show_nat (st_newChunks st) @ '' deduped='' @ show_nat (st_dedupedChunks st)"

definition distributed_line :: "cluster \<Rightarrow> nat \<Rightarrow> string" where
  "distributed_line c unique =
     ''distributed v2: nodes='' @ js_show (nodeCount c) @ '' replicas='' @ js_show (cl_replication c)
       @ '' uniqueChunks='' @ show_nat unique @ '' copies='' @ js_show (int unique * cl_replication c)"

text \<open>Lines 50 to 59: fail node 2, restore, compare the trees.\<close>

definition survive_step :: "engine \<Rightarrow> cluster \<Rightarrow> manifest \<Rightarrow> source_file list \<Rightarrow> (bool \<times> string) throws" where
  "survive_step engine cluster m files =
     throw_bind (setUp 2 False cluster) (\<lambda>cluster.
       let r = restore cluster m 4
       in throw_bind (if rr_ok r then engine_restore ''v2'' engine else Inr []) (\<lambda>restored.
            let ok = (rr_ok r \<and> rs_verified (rr_stats r) = rs_chunks (rr_stats r) \<and> treesEqual files restored)
            in Inr (ok, ''node 2 down; restore v2: verified='' @ show_nat (rs_verified (rr_stats r)) @ ''/''
                 @ show_nat (rs_chunks (rr_stats r)) @ '' parallel='' @ js_show (rs_parallelism (rr_stats r))
                 @ '' ok='' @ show_bool (rr_ok r) @ '' treeMatch='' @ show_bool ok)))"

text \<open>Line 65: \<open>for (const id of ids) c.setUp(id, false)\<close>.\<close>

fun down_all :: "int list \<Rightarrow> cluster \<Rightarrow> cluster throws" where
  "down_all [] c = Inr c"
| "down_all (n # ns) c = throw_bind (setUp n False c) (down_all ns)"

text \<open>Lines 61 to 71. With no chunk at all, reading the length of \<open>undefined\<close> throws.\<close>

definition clean_step :: "engine \<Rightarrow> manifest \<Rightarrow> (bool \<times> string) throws" where
  "clean_step engine m =
     throw_bind (new_cluster 5 3) (\<lambda>c2.
       let (n, c2) = distribute engine c2 m
       in throw_bind n (\<lambda>_.
         case uniqueChunks m of
           [] \<Rightarrow> Inl (Error ''Cannot read properties of undefined'')
         | anyChunk # _ \<Rightarrow>
             throw_bind (down_all (placement anyChunk c2) c2) (\<lambda>c2.
               let rf = restore c2 m 4;
                   ok = (\<not> rr_ok rf \<and> rr_error rf = Some ''chunk unavailable: all replicas down'')
               in Inr (ok, ''all replicas of '' @ take 7 anyChunk @ '' down; restore failed cleanly: ''
                    @ show_bool ok @ '' ('' @ (case rr_error rf of None \<Rightarrow> ''no error'' | Some x \<Rightarrow> x) @ '')''))))"

definition runSelfCheck :: "self_check_report throws" where
  "runSelfCheck =
     (let engine = new_engine DEFAULT_CHUNK_SIZE;
          v1 = makeDataset;
          (s1, engine) = snapshot ''v1'' v1 engine;
          dedupOk = (st_dedupedChunks (sr_stats s1) > 0
                     \<and> st_newChunks (sr_stats s1) < st_chunks (sr_stats s1));
          v2files = editOneFile v1;
          (s2, engine) = snapshot ''v2'' v2files engine;
          incrementalOk = (st_newChunks (sr_stats s2) \<ge> 1
                           \<and> st_newChunks (sr_stats s2) < st_chunks (sr_stats s2))
      in throw_bind (new_cluster 5 3) (\<lambda>cluster.
         let (unique, cluster) = distribute engine cluster (sr_manifest s2)
         in throw_bind unique (\<lambda>unique.
            throw_bind (survive_step engine cluster (sr_manifest s2) v2files) (\<lambda>(survivedFailureOk, l4).
            throw_bind (clean_step engine (sr_manifest s2)) (\<lambda>(cleanFailureOk, l5).
              Inr \<lparr>sc_dedupOk = dedupOk, sc_incrementalOk = incrementalOk,
                   sc_survivedFailureOk = survivedFailureOk, sc_cleanFailureOk = cleanFailureOk,
                   sc_lines = [snapshot_line (sr_stats s1), incremental_line (sr_stats s2),
                               distributed_line cluster unique, l4, l5]\<rparr>)))))"

section \<open>The two snapshots\<close>

definition engine0 :: engine where
  "engine0 = new_engine DEFAULT_CHUNK_SIZE"

definition engine1 :: engine where
  "engine1 = snd (snapshot ''v1'' makeDataset engine0)"

definition engine2 :: engine where
  "engine2 = snd (snapshot ''v2'' (editOneFile makeDataset) engine1)"

definition v2_manifest :: manifest where
  "v2_manifest = sr_manifest (fst (snapshot ''v2'' (editOneFile makeDataset) engine1))"

lemma chunk_sizes: "en_chunkSize engine0 = 64" "en_chunkSize engine1 = 64"
  by (simp_all add: engine0_def engine1_def new_engine_def DEFAULT_CHUNK_SIZE_def snapshot_chunkSize)

lemma engines_reachable: "engine_reachable engine0" "engine_reachable engine1" "engine_reachable engine2"
  unfolding engine0_def engine1_def engine2_def by (intro engine_reachable.intros)+

lemmas engines_ok = engines_reachable [THEN reachable_ok]

lemma hashes0: "store_hashes (en_store engine0) = []"
  by (simp add: engine0_def new_engine_def new_store_def store_hashes_def map_keys_def)

lemma hashes1: "set (store_hashes (en_store engine1)) = set (map snd (table_rows v1_index))"
  using v1_source_refs hashes0
  by (simp add: engine1_def snapshot_store store_hashes_put_all chunk_sizes flip: fst_all_writes)
    (metis list.set_map)

lemma index_cards: "card (set v1_index) = 14" "card (set v2_index - set v1_index) = 1"
  "card (set v2_index) = 14" "length v1_index = 27" "length v2_index = 27"
  by code_simp+

lemma demo_lengths:
  "length (text_encode (logBody 24)) = 663"
  "length (text_encode ''name = snapvault\<newline>nodes = 5\<newline>replicas = 3\<newline>'') = 40"
  "length (text_encode ''name = snapvault\<newline>nodes = 7\<newline>replicas = 3\<newline>changed = true\<newline>'') = 55"
  "length (text_encode (replicate 200 CHR ''Z'')) = 200"
proof -
  have ascii: "length (text_encode s) = length s" if "ascii s" for s
    using that by (subst text_encode_ascii) (simp_all add: list_all_iff)
  have "logBody 24 = concat (map fst (take 11 demo_table))"
    using concat_pieces [of 64 "logBody 24"] by (simp add: log_pieces)
  then show "length (text_encode (logBody 24)) = 663"
    by (simp add: demo_table_def ascii)
qed (simp_all add: text_encode_def encode_char_def Let_def)

lemma v1_stats: "sr_stats (fst (snapshot ''v1'' makeDataset engine0)) =
    \<lparr>st_files = 4, st_chunks = 27, st_newChunks = 14, st_dedupedChunks = 13, st_bytes = 1566\<rparr>"
proof -
  have "card (set (map snd (table_rows v1_index)) - set (store_hashes (en_store engine0))) = 14"
    using rows_hashes [OF index_range(1), of "[]"] by (simp add: hashes0 index_cards)
  then show ?thesis
    using stats_snapshot(1) [OF engine_ok_store [OF engines_ok(1)], of "''v1''" makeDataset]
    by (simp add: chunk_sizes v1_source_refs index_cards table_rows_def [of v1_index])
      (simp add: makeDataset_def Let_def demo_lengths)
qed

lemma v2_stats: "sr_stats (fst (snapshot ''v2'' (editOneFile makeDataset) engine1)) =
    \<lparr>st_files = 4, st_chunks = 27, st_newChunks = 1, st_dedupedChunks = 26, st_bytes = 1581\<rparr>"
proof -
  have "card (set (map snd (table_rows v2_index)) - set (store_hashes (en_store engine1))) = 1"
    using rows_hashes [OF index_range(2,1)] by (simp only: hashes1 index_cards)
  then show ?thesis
    using stats_snapshot(1) [OF engine_ok_store [OF engines_ok(2)], of "''v2''" "editOneFile makeDataset"]
    by (simp add: chunk_sizes v2_source_refs index_cards table_rows_def [of v2_index])
      (simp add: makeDataset_def editOneFile_def Let_def demo_lengths)
qed

lemma v2_loaded: "loadManifest ''v2'' engine2 = Inr v2_manifest"
  by (simp add: engine2_def v2_manifest_def loadManifest_snapshot snapshot_manifest)

lemma v2_stored: "manifest_stored (en_store engine2) v2_manifest"
  using engine_ok_manifest [OF engines_ok(3) v2_loaded] ..

lemma v2_refs: "set (chunk_refs v2_manifest) = set (map snd (table_rows v2_index))"
proof -
  have "set (chunk_refs v2_manifest) = set (source_refs 64 (editOneFile makeDataset))"
    by (simp add: v2_manifest_def snapshot_manifest chunk_refs_manifest_of chunk_sizes flip: fst_all_writes)
  then show ?thesis by (simp only: v2_source_refs)
qed

lemma v2_unique: "card (set (chunk_refs v2_manifest)) = 14"
  using rows_hashes [OF index_range(2), of "[]"] by (simp add: v2_refs index_cards del: list.set_map)

text \<open>The restore of the second snapshot is the edited tree: no digests collide.\<close>

lemma v2_injective: "inj_on sha256Hex
    (stored_data (en_store engine1) \<union> snd ` set (all_writes (en_chunkSize engine1) (editOneFile makeDataset)))"
proof -
  have "stored_data (en_store engine1) \<subseteq> snd ` set (all_writes 64 makeDataset)"
    using stored_data_put_all [of "en_store engine0" "all_writes 64 (js_sort cmp_path makeDataset)"]
    by (simp add: engine1_def snapshot_store chunk_sizes)
      (simp add: engine0_def new_engine_def new_store_def stored_data_def)
  then show ?thesis
    using v1_data v2_data by (intro inj_on_subset [OF demo_injective]) (auto simp: chunk_sizes)
qed

lemma v2_restored: "engine_restore ''v2'' engine2 = Inr (js_sort cmp_path (editOneFile makeDataset))"
  unfolding engine2_def using engine_ok_store [OF engines_ok(2)] v2_injective by (rule restore_snapshot)

lemma v2_tree: "treesEqual (editOneFile makeDataset) (js_sort cmp_path (editOneFile makeDataset))"
proof -
  have "distinct (map sf_path (editOneFile makeDataset))"
    by (simp only: editOneFile_paths makeDataset_paths)
  moreover have "mset (map sf_path (js_sort cmp_path fs)) = mset (map sf_path fs)" for fs
    by simp
  ultimately show ?thesis
    by (subst treesEqual_sets) (auto dest: mset_eq_imp_distinct_iff simp del: mset_map)
qed

section \<open>The cluster\<close>

definition demo_cluster :: cluster where
  "demo_cluster = \<lparr>cl_up = replicate 5 True, cl_data = replicate 5 [], cl_replication = 3\<rparr>"

definition loaded_cluster :: cluster where
  "loaded_cluster = put_chunks (stored_bytes (en_store engine2)) demo_cluster (uniqueChunks v2_manifest)"

lemma demo_cluster_new: "new_cluster 5 3 = Inr demo_cluster"
  by (simp add: new_cluster_def demo_cluster_def)

lemma v2_distributed: "distribute engine2 demo_cluster v2_manifest = (Inr 14, loaded_cluster)"
  using distribute_stored [OF v2_stored] by (simp add: loaded_cluster_def v2_unique)

lemma v2_bytes: "h \<in> set (chunk_refs v2_manifest) \<Longrightarrow> sha256Hex (stored_bytes (en_store engine2) h) = h"
  using v2_stored engine_ok_store [OF engines_ok(3)]
  by (intro stored_bytes_hash) (auto simp: manifest_stored_def list_all_iff)

lemma loaded_inv: "cluster_inv loaded_cluster"
  unfolding loaded_cluster_def
  by (rule cluster_inv_put_chunks [OF cluster_inv_new [OF demo_cluster_new]]) (simp add: v2_bytes)

lemma loaded_replicated:
  "h \<in> set (chunk_refs v2_manifest) \<Longrightarrow> code.replicated h (stored_bytes (en_store engine2) h) loaded_cluster"
  unfolding loaded_cluster_def
  using cluster_ok_new [OF demo_cluster_new] by (intro put_chunks_replicated) auto

lemma loaded_frame: "cl_up loaded_cluster = replicate 5 True" "cl_replication loaded_cluster = 3"
  "nodeCount loaded_cluster = 5"
  by (simp_all add: loaded_cluster_def demo_cluster_def nodeCount_def)

section \<open>Node 2 down\<close>

lemma node2_down:
  "\<exists>c. setUp 2 False loaded_cluster = Inr c \<and> (\<forall>h \<in> set (chunk_refs v2_manifest). passes c h)"
proof -
  obtain c where c: "setUp 2 False loaded_cluster = Inr c"
    using setUp_ok [where c = loaded_cluster and node = 2 and b = False] by (auto simp: loaded_frame)
  have ok: "cluster_ok c" using cluster_inv_setUp [OF loaded_inv c] by (simp add: cluster_inv_def)
  have same: "cl_data c = cl_data loaded_cluster" "length (cl_up c) = 5" "cl_replication c = 3"
    using setUp_data [OF c] by (simp_all add: loaded_frame)
  have "down_nodes c \<subseteq> {2}"
    using setUp_up [OF c] by (auto simp: down_nodes_def same loaded_frame nat_less_iff split: if_splits)
  then have down: "int (card (down_nodes c)) < cl_replication c"
    using card_mono [of "{2}" "down_nodes c"] by (simp add: same)
  have "passes c h" if h: "h \<in> set (chunk_refs v2_manifest)" for h
  proof (rule survives [OF ok _ v2_bytes [OF h] down])
    show "code.replicated h (stored_bytes (en_store engine2) h) c"
      using loaded_replicated [OF h] by (simp add: code.replicated_def same placement_setUp [OF c])
  qed
  with c show ?thesis by blast
qed

lemma v2_files: "length (mf_files v2_manifest) = 4"
  by (simp add: v2_manifest_def snapshot_manifest manifest_of_def editOneFile_def makeDataset_def Let_def)

lemmas js_show_eval = js_to_string_def nat_to_string.simps digit_char_def show_bool_def

lemma survive_result: "survive_step engine2 loaded_cluster v2_manifest (editOneFile makeDataset) =
    Inr (True, ''node 2 down; restore v2: verified=14/14 parallel=4 ok=true treeMatch=true'')"
proof -
  obtain c where c: "setUp 2 False loaded_cluster = Inr c"
    and pass: "\<And>h. h \<in> set (chunk_refs v2_manifest) \<Longrightarrow> passes c h"
    using node2_down by blast
  show ?thesis
    by (simp add: survive_step_def c restore_all [OF pass] v2_restored v2_tree v2_unique js_show_eval)
qed

section \<open>All replicas of one chunk down\<close>

lemma down_all_result:
  assumes "cluster_inv c" "\<And>n. n \<in> set ns \<Longrightarrow> valid_node c n"
  shows "\<exists>c'. down_all ns c = Inr c' \<and> cluster_inv c' \<and> (\<forall>h. placement h c' = placement h c)
    \<and> (\<forall>n \<in> set ns. \<not> node_up c' n)"
proof -
  have "\<exists>c'. down_all ns c = Inr c' \<and> cluster_inv c' \<and> (\<forall>h. placement h c' = placement h c)
    \<and> length (cl_up c') = length (cl_up c) \<and> (\<forall>n. 0 \<le> n \<longrightarrow> node_up c' n \<longleftrightarrow> node_up c n \<and> n \<notin> set ns)"
    using assms
  proof (induction ns arbitrary: c)
    case (Cons n ns)
    obtain c1 where c1: "setUp n False c = Inr c1"
      using setUp_ok [where c = c and node = n and b = False] Cons.prems(2) by auto
    obtain c' where "down_all ns c1 = Inr c'" "cluster_inv c'" "\<forall>h. placement h c' = placement h c1"
      "length (cl_up c') = length (cl_up c1)" "\<forall>n. 0 \<le> n \<longrightarrow> node_up c' n \<longleftrightarrow> node_up c1 n \<and> n \<notin> set ns"
      using Cons.IH [of c1] cluster_inv_setUp [OF Cons.prems(1) c1] Cons.prems(2) setUp_data [OF c1] by auto
    then show ?case
      using setUp_up [OF c1] setUp_data [OF c1] placement_setUp [OF c1] by (auto simp: c1)
  qed simp
  with assms(2) show ?thesis by fastforce
qed

text \<open>What a run of failures leaves.\<close>

lemma down_all_frame:
  assumes "down_all ns c = Inr c'"
  shows "cl_data c' = cl_data c \<and> cl_replication c' = cl_replication c \<and> length (cl_up c') = length (cl_up c)
    \<and> (\<forall>n. 0 \<le> n \<longrightarrow> node_up c' n \<longleftrightarrow> node_up c n \<and> n \<notin> set ns)"
  using assms
proof (induction ns arbitrary: c)
  case (Cons n ns)
  then obtain c1 where c1: "setUp n False c = Inr c1" and rest: "down_all ns c1 = Inr c'"
    by (auto simp: throw_bind_def split: sum.splits)
  from Cons.IH [OF rest] show ?case
    using setUp_up [OF c1] setUp_data [OF c1] by auto
qed simp

lemma first_chunk: "\<exists>hs. uniqueChunks v2_manifest =
    ''1725686d28cb298f7b83747f97e3a91fe80386cc6f8e1824c6fd5ce60831daf4'' # hs"
proof -
  let ?d = "''1725686d28cb298f7b83747f97e3a91fe80386cc6f8e1824c6fd5ce60831daf4''"
  let ?A = "set (chunk_refs v2_manifest)"
  have d: "?d \<in> ?A"
    by (simp add: v2_refs table_rows_def v2_index_def upt_rec) (simp add: demo_table_def)
  have "list_all (\<lambda>h. ?d \<le> h) (map snd demo_table)"
    by (simp add: demo_table_def)
  moreover have "?A \<subseteq> set (map snd demo_table)"
    using rows_set [OF index_range(2)] by (auto simp: v2_refs)
  ultimately have "Min ?A = ?d" using d by (intro Min_eqI) (auto simp: list_all_iff)
  moreover have "?A \<noteq> {}" "finite ?A" using d by auto
  ultimately show ?thesis by (simp add: uniqueChunks_eq sorted_list_of_set_nonempty)
qed

lemma clean_result: "clean_step engine2 v2_manifest = Inr (True,
    ''all replicas of 1725686 down; restore failed cleanly: true (chunk unavailable: all replicas down)'')"
proof -
  obtain d hs where chunks: "uniqueChunks v2_manifest = d # hs" "take 7 d = ''1725686''"
    using first_chunk by auto
  have d: "d \<in> set (chunk_refs v2_manifest)"
    using chunks(1) by (metis list.set_intros(1) set_uniqueChunks)
  have ok: "cluster_ok loaded_cluster" using loaded_inv by (simp add: cluster_inv_def)
  obtain c where c: "down_all (placement d loaded_cluster) loaded_cluster = Inr c" "cluster_inv c"
    "placement d c = placement d loaded_cluster" "\<forall>n \<in> set (placement d loaded_cluster). \<not> node_up c n"
    using down_all_result [of loaded_cluster "placement d loaded_cluster"] loaded_inv placement_valid [OF ok]
    by blast
  then have "\<not> chunkAvailable d c"
    by (simp add: chunkAvailable_iff code.reachable_copy_def)
  then have fails: "\<not> rr_ok (restore c v2_manifest 4)"
    using d by (auto simp: restore_ok_iff passes_iff [OF c(2)])
  have "rr_error (restore c v2_manifest 4) = Some ErrChunkUnavailable"
    by (rule restore_clean_failure [OF c(2) fails])
  with fails show ?thesis
    by (simp add: clean_step_def demo_cluster_new v2_distributed chunks c(1) Let_def
        ErrChunkUnavailable_def show_bool_def)
qed

section \<open>The report\<close>

lemma self_check_result: "runSelfCheck = Inr
    \<lparr>sc_dedupOk = True, sc_incrementalOk = True, sc_survivedFailureOk = True, sc_cleanFailureOk = True,
     sc_lines = [''snapshot v1: files=4 chunkRefs=27 new=14 deduped=13'',
       ''snapshot v2 (incremental): chunkRefs=27 new=1 deduped=26'',
       ''distributed v2: nodes=5 replicas=3 uniqueChunks=14 copies=42'',
       ''node 2 down; restore v2: verified=14/14 parallel=4 ok=true treeMatch=true'',
       ''all replicas of 1725686 down; restore failed cleanly: true (chunk unavailable: all replicas down)'']\<rparr>"
proof -
  obtain s1 s2 where s1: "snapshot ''v1'' makeDataset engine0 = (s1, engine1)"
    and s2: "snapshot ''v2'' (editOneFile makeDataset) engine1 = (s2, engine2)"
    by (metis engine1_def engine2_def prod.collapse)
  have m: "sr_manifest s2 = v2_manifest" by (simp add: v2_manifest_def s2)
  have "sr_stats s1 = \<lparr>st_files = 4, st_chunks = 27, st_newChunks = 14, st_dedupedChunks = 13, st_bytes = 1566\<rparr>"
    "sr_stats s2 = \<lparr>st_files = 4, st_chunks = 27, st_newChunks = 1, st_dedupedChunks = 26, st_bytes = 1581\<rparr>"
    using v1_stats v2_stats by (simp_all add: s1 s2)
  then show ?thesis
    by (simp add: runSelfCheck_def s1 s2 m demo_cluster_new v2_distributed survive_result clean_result
        snapshot_line_def incremental_line_def distributed_line_def loaded_frame js_show_eval
        flip: engine0_def)
qed

section \<open>Upload, failures, restore\<close>

text \<open>
  From any reachable engine to any new cluster: the upload succeeds, and after fewer failures
  than copies every chunk of the manifest is fetched and verified.
\<close>

lemma pipeline:
  assumes e: "engine_reachable e" and m: "loadManifest name e = Inr m" and c0: "new_cluster n r = Inr c0"
    and down: "down_all ns (snd (distribute e c0 m)) = Inr c" and few: "int (card (set ns)) < r"
  shows "fst (distribute e c0 m) = Inr (card (set (chunk_refs m)))
    \<and> rr_ok (restore c m p) \<and> rs_verified (rr_stats (restore c m p)) = card (set (chunk_refs m))
    \<and> rs_files (rr_stats (restore c m p)) = length (mf_files m)"
proof -
  let ?g = "stored_bytes (en_store e)"
  have ok: "engine_ok e" by (rule reachable_ok [OF e])
  have stored: "manifest_stored (en_store e) m" using engine_ok_manifest [OF ok m] ..
  define c1 where "c1 = put_chunks ?g c0 (uniqueChunks m)"
  have dist: "distribute e c0 m = (Inr (card (set (chunk_refs m))), c1)"
    using distribute_stored [OF stored] by (simp add: c1_def)
  have hash: "sha256Hex (?g h) = h" if "h \<in> set (chunk_refs m)" for h
    using that stored engine_ok_store [OF ok]
    by (intro stored_bytes_hash) (auto simp: manifest_stored_def list_all_iff)
  have new: "cluster_ok c0" "cl_replication c0 = r" "cl_up c0 = replicate (nat n) True"
    using cluster_ok_new [OF c0] c0 by (auto simp: new_cluster_def split: if_splits)
  have frame: "cl_data c = cl_data c1" "cl_replication c = r" "length (cl_up c) = nat n"
    and up: "\<And>k. 0 \<le> k \<Longrightarrow> node_up c k \<longleftrightarrow> node_up c1 k \<and> k \<notin> set ns"
    using down_all_frame [OF down] by (simp_all add: dist c1_def new)
  have "cluster_ok c1"
    using new(1) cluster_inv_put_chunks [of c0 "uniqueChunks m" ?g] hash cluster_inv_new [OF c0]
    by (simp add: c1_def cluster_inv_def)
  then have okc: "cluster_ok c" by (simp add: cluster_ok_def frame c1_def new)
  have place: "placement h c = placement h c1" for h
    by (rule placement_cong) (simp_all add: frame c1_def new)
  have rep: "code.replicated h (?g h) c" if "h \<in> set (chunk_refs m)" for h
    using put_chunks_replicated [OF new(1), of h "uniqueChunks m" ?g] that
    by (simp add: code.replicated_def frame place flip: c1_def)
  have "down_nodes c \<subseteq> set ns"
    using up by (auto simp: down_nodes_def frame c1_def new nat_less_iff)
  then have "int (card (down_nodes c)) < cl_replication c"
    using few card_mono [of "set ns" "down_nodes c"] by (simp add: frame)
  then have "passes c h" if "h \<in> set (chunk_refs m)" for h
    using survives [OF okc rep hash] that by blast
  then show ?thesis by (simp add: dist restore_all)
qed

end
