(* ===== verification/Vault.thy ===== *)
theory Vault
  imports Selfcheck
begin

text \<open>
  web/src/useVault.ts: the model behind the page, built once, and the set of nodes that the
  user has taken down. The callbacks of the hook are the operations; a query applies the set
  to the one cluster object first (\<open>sync\<close>), so it returns the model it leaves next to its
  answer. React state is a field of the record, and its update functions are its setters.
\<close>

section \<open>The code\<close>

definition NODES :: int where
  "NODES = 5"

definition REPLICAS :: int where
  "REPLICAS = 3"

record vault =
  va_engine :: engine
  va_v1 :: snapshot_result
  va_v2 :: snapshot_result
  va_v1files :: "source_file list"
  va_v2files :: "source_file list"
  va_cluster :: cluster
  va_unique :: nat
  va_nodes :: int
  va_replicas :: int
  va_down :: "int list"

text \<open>Lines 12 to 33, with the initial state of line 60.\<close>

definition buildModel :: "vault throws" where
  "buildModel =
     (let engine = new_engine DEFAULT_CHUNK_SIZE;
          v1files = makeDataset;
          (v1, engine) = snapshot ''v1'' v1files engine;
          v2files = editOneFile v1files;
          (v2, engine) = snapshot ''v2'' v2files engine
      in throw_bind (new_cluster NODES REPLICAS) (\<lambda>cluster.
         let (unique, cluster) = distribute engine cluster (sr_manifest v2)
         in throw_bind unique (\<lambda>unique.
              Inr \<lparr>va_engine = engine, va_v1 = v1, va_v2 = v2, va_v1files = v1files, va_v2files = v2files,
                   va_cluster = cluster, va_unique = unique, va_nodes = NODES, va_replicas = REPLICAS,
                   va_down = []\<rparr>)))"

text \<open>Lines 63 to 67.\<close>

fun sync_loop :: "int list \<Rightarrow> int list \<Rightarrow> cluster \<Rightarrow> cluster throws" where
  "sync_loop down [] c = Inr c"
| "sync_loop down (n # ns) c = throw_bind (setUp n (n \<notin> set down) c) (sync_loop down ns)"

definition sync :: "vault \<Rightarrow> vault throws" where
  "sync v = throw_bind (sync_loop (va_down v) [0..nodeCount (va_cluster v) - 1] (va_cluster v))
              (\<lambda>c. Inr (v\<lparr>va_cluster := c\<rparr>))"

definition toggleNode :: "int \<Rightarrow> vault \<Rightarrow> vault" where
  "toggleNode n v =
     v\<lparr>va_down := (if n \<in> set (va_down v) then set_delete n (va_down v) else set_add n (va_down v))\<rparr>"

definition vault_recoverAll :: "vault \<Rightarrow> vault" where
  "vault_recoverAll v = v\<lparr>va_down := []\<rparr>"

definition uniqueHashes :: "vault \<Rightarrow> string list" where
  "uniqueHashes v = uniqueChunks (sr_manifest (va_v2 v))"

definition placementOf :: "string \<Rightarrow> vault \<Rightarrow> int list" where
  "placementOf hash v = placement hash (va_cluster v)"

definition nodeChunkCounts :: "vault \<Rightarrow> (nat list \<times> vault) throws" where
  "nodeChunkCounts v = throw_bind (sync v) (\<lambda>v. Inr (map ns_chunks (status (va_cluster v)), v))"

definition chunksUp :: "vault \<Rightarrow> (nat \<times> vault) throws" where
  "chunksUp v = throw_bind (sync v) (\<lambda>v.
     Inr (length (filter (\<lambda>h. chunkAvailable h (va_cluster v)) (uniqueHashes v)), v))"

definition vault_plan :: "vault \<Rightarrow> (planned_fetch list \<times> vault) throws" where
  "vault_plan v = throw_bind (sync v) (\<lambda>v. Inr (planRestore (va_cluster v) (sr_manifest (va_v2 v)), v))"

definition restoreValid :: "vault \<Rightarrow> (bool \<times> vault) throws" where
  "restoreValid v = throw_bind (sync v) (\<lambda>v.
     let p = planRestore (va_cluster v) (sr_manifest (va_v2 v))
     in if list_ex (\<lambda>f. \<not> pf_available f) p then Inr (False, v)
        else throw_bind (engine_restore ''v2'' (va_engine v)) (\<lambda>restored.
               Inr (treesEqual (va_v2files v) restored, v)))"

text \<open>The page: the user switches nodes, and renders and buttons run queries.\<close>

inductive vault_step :: "vault \<Rightarrow> vault \<Rightarrow> bool" where
  toggle: "vault_step v (toggleNode n v)"
| recover: "vault_step v (vault_recoverAll v)"
| query: "sync v = Inr v' \<Longrightarrow> vault_step v v'"

inductive_cases vault_stepE: "vault_step v v'"

inductive vault_reachable :: "vault \<Rightarrow> bool" where
  start: "buildModel = Inr v \<Longrightarrow> vault_reachable v"
| step: "vault_reachable v \<Longrightarrow> vault_step v v' \<Longrightarrow> vault_reachable v'"

section \<open>The cluster follows the set\<close>

lemma sync_loop_result:
  assumes "cluster_inv c" "\<And>n. n \<in> set ns \<Longrightarrow> valid_node c n"
  shows "\<exists>c'. sync_loop down ns c = Inr c' \<and> cluster_inv c' \<and> cl_data c' = cl_data c
    \<and> cl_replication c' = cl_replication c \<and> length (cl_up c') = length (cl_up c)
    \<and> (\<forall>n. 0 \<le> n \<longrightarrow> node_up c' n \<longleftrightarrow> (if n \<in> set ns then n \<notin> set down else node_up c n))"
  using assms
proof (induction ns arbitrary: c)
  case (Cons n ns)
  obtain c1 where c1: "setUp n (n \<notin> set down) c = Inr c1"
    using setUp_ok [where c = c and node = n and b = "n \<notin> set down"] Cons.prems(2) by auto
  obtain c' where "sync_loop down ns c1 = Inr c'" "cluster_inv c'" "cl_data c' = cl_data c1"
    "cl_replication c' = cl_replication c1" "length (cl_up c') = length (cl_up c1)"
    "\<forall>n. 0 \<le> n \<longrightarrow> node_up c' n \<longleftrightarrow> (if n \<in> set ns then n \<notin> set down else node_up c1 n)"
    using Cons.IH [of c1] cluster_inv_setUp [OF Cons.prems(1) c1] Cons.prems(2) setUp_data [OF c1] by auto
  then show ?case
    using setUp_up [OF c1] setUp_data [OF c1] by (auto simp: c1)
qed simp

text \<open>Nodes that are as they should be stay so.\<close>

lemma setUp_current: "valid_node c n \<Longrightarrow> node_up c n = b \<Longrightarrow> setUp n b c = Inr c"
  using list_update_id [of "cl_up c" "nat n"] by (auto simp: setUp_def)

lemma sync_loop_current:
  "(\<And>n. n \<in> set ns \<Longrightarrow> valid_node c n \<and> (node_up c n \<longleftrightarrow> n \<notin> set down)) \<Longrightarrow> sync_loop down ns c = Inr c"
  by (induction ns) (simp_all add: setUp_current)

text \<open>
  The invariant: everything but the up flags is as \<open>buildModel\<close> left it. \<open>synced\<close> is the
  state after a query: exactly the nodes of the set are down.
\<close>

definition vault_ok :: "vault \<Rightarrow> bool" where
  "vault_ok v \<longleftrightarrow> va_engine v = engine2 \<and> sr_manifest (va_v2 v) = v2_manifest
     \<and> va_v2files v = editOneFile makeDataset \<and> va_unique v = 14 \<and> va_nodes v = 5 \<and> va_replicas v = 3
     \<and> cluster_inv (va_cluster v) \<and> cl_data (va_cluster v) = cl_data loaded_cluster
     \<and> cl_replication (va_cluster v) = 3 \<and> length (cl_up (va_cluster v)) = 5
     \<and> distinct (va_down v)"

definition synced :: "vault \<Rightarrow> bool" where
  "synced v \<longleftrightarrow> (\<forall>n. valid_node (va_cluster v) n \<longrightarrow> (node_up (va_cluster v) n \<longleftrightarrow> n \<notin> set (va_down v)))"

lemma build_value: "buildModel = Inr
    \<lparr>va_engine = engine2, va_v1 = fst (snapshot ''v1'' makeDataset engine0),
     va_v2 = fst (snapshot ''v2'' (editOneFile makeDataset) engine1), va_v1files = makeDataset,
     va_v2files = editOneFile makeDataset, va_cluster = loaded_cluster, va_unique = 14, va_nodes = 5,
     va_replicas = 3, va_down = []\<rparr>"
proof -
  obtain s1 s2 where s1: "snapshot ''v1'' makeDataset engine0 = (s1, engine1)"
    and s2: "snapshot ''v2'' (editOneFile makeDataset) engine1 = (s2, engine2)"
    by (metis engine1_def engine2_def prod.collapse)
  have m: "sr_manifest s2 = v2_manifest" by (simp add: v2_manifest_def s2)
  show ?thesis
    by (simp add: buildModel_def s1 s2 m demo_cluster_new v2_distributed NODES_def REPLICAS_def
        flip: engine0_def)
qed

lemma vault_ok_build: "buildModel = Inr v \<Longrightarrow> vault_ok v \<and> synced v \<and> va_down v = []"
  using loaded_inv
  by (auto simp: build_value vault_ok_def synced_def loaded_frame nat_less_iff simp flip: v2_manifest_def)

lemma build_returns: "\<exists>v. buildModel = Inr v"
  by (simp add: build_value)

lemma vault_ok_toggle [inv_intros]: "vault_ok v \<Longrightarrow> vault_ok (toggleNode n v)"
  by (simp add: vault_ok_def toggleNode_def)

lemma vault_ok_recover [inv_intros]: "vault_ok v \<Longrightarrow> vault_ok (vault_recoverAll v)"
  by (simp add: vault_ok_def vault_recoverAll_def)

lemma sync_result:
  assumes "vault_ok v"
  shows "\<exists>v'. sync v = Inr v' \<and> vault_ok v' \<and> synced v' \<and> va_down v' = va_down v"
proof -
  let ?c = "va_cluster v"
  have ids: "\<And>n. n \<in> set [0..nodeCount ?c - 1] \<longleftrightarrow> valid_node ?c n"
    by (auto simp: nodeCount_def)
  obtain c' where c': "sync_loop (va_down v) [0..nodeCount ?c - 1] ?c = Inr c'" "cluster_inv c'"
    "cl_data c' = cl_data ?c" "cl_replication c' = cl_replication ?c" "length (cl_up c') = length (cl_up ?c)"
    "\<forall>n. 0 \<le> n \<longrightarrow> node_up c' n \<longleftrightarrow> (if valid_node ?c n then n \<notin> set (va_down v) else node_up ?c n)"
    using sync_loop_result [of ?c "[0..nodeCount ?c - 1]" "va_down v"] assms
    unfolding ids by (auto simp: vault_ok_def)
  then show ?thesis
    using assms by (auto simp: sync_def vault_ok_def synced_def)
qed

lemma vault_step_ok: "vault_step v v' \<Longrightarrow> vault_ok v \<Longrightarrow> vault_ok v'"
  by (erule vault_stepE) (use sync_result in \<open>fastforce intro: inv_intros\<close>)+

lemma vault_reachable_ok: "vault_reachable v \<Longrightarrow> vault_ok v"
  by (induction rule: vault_reachable.induct) (use vault_ok_build vault_step_ok in blast)+

lemma vault_reachable_toggle: "vault_reachable v \<Longrightarrow> vault_reachable (toggleNode n v)"
  by (rule vault_reachable.step [OF _ vault_step.toggle])

section \<open>The answers of the queries\<close>

text \<open>The replica set of a hash on five nodes with three copies.\<close>

definition replicas_of :: "string \<Rightarrow> int set" where
  "replicas_of h = set (placement h demo_cluster)"

lemma replicas_vault: "vault_ok v \<Longrightarrow> set (placementOf h v) = replicas_of h"
  unfolding replicas_of_def placementOf_def
  by (intro arg_cong [of _ _ set] placement_cong) (simp_all add: vault_ok_def demo_cluster_def)

lemma replicas_card: "card (replicas_of h) = 3" "replicas_of h \<subseteq> {0..<5}"
proof -
  have ok: "cluster_ok demo_cluster" using cluster_ok_new [OF demo_cluster_new] ..
  show "card (replicas_of h) = 3"
    using code.place_card [OF ok, of h] by (simp add: replicas_of_def demo_cluster_def)
  show "replicas_of h \<subseteq> {0..<5}"
    using code.place_range [OF ok, of h] by (simp add: replicas_of_def demo_cluster_def nodeCount_def)
qed

lemma synced_available:
  assumes ok: "vault_ok v" and "synced v" and h: "h \<in> set (chunk_refs v2_manifest)"
  shows "chunkAvailable h (va_cluster v) \<longleftrightarrow> \<not> replicas_of h \<subseteq> set (va_down v)"
proof -
  let ?c = "va_cluster v"
  have place: "placement h ?c = placement h loaded_cluster"
    using ok by (intro placement_cong) (simp_all add: vault_ok_def loaded_frame)
  then have "code.replicated h (stored_bytes (en_store engine2) h) ?c"
    using loaded_replicated [OF h] ok by (simp add: code.replicated_def vault_ok_def)
  moreover have "cluster_ok ?c" using ok by (simp add: vault_ok_def cluster_inv_def)
  ultimately have "\<not> chunkAvailable h ?c \<longleftrightarrow> set (placement h ?c) \<subseteq> down_nodes ?c"
    by (rule lost_iff)
  also have "set (placement h ?c) = replicas_of h"
    using replicas_vault [OF ok, of h] by (simp add: placementOf_def)
  also have "replicas_of h \<subseteq> down_nodes ?c \<longleftrightarrow> replicas_of h \<subseteq> set (va_down v)"
    using replicas_card(2) [of h] \<open>synced v\<close> ok by (auto simp: down_nodes_def synced_def vault_ok_def subset_iff)
  finally show ?thesis by blast
qed

lemma set_uniqueHashes: "vault_ok v \<Longrightarrow> set (uniqueHashes v) = set (chunk_refs v2_manifest)"
  by (simp add: uniqueHashes_def vault_ok_def)

lemma uniqueHashes_same: "vault_ok v \<Longrightarrow> uniqueHashes v = uniqueChunks v2_manifest"
  by (simp add: uniqueHashes_def vault_ok_def)

text \<open>A chunk is lost when all of its replicas are in the set.\<close>

definition lost :: "vault \<Rightarrow> string \<Rightarrow> bool" where
  "lost v h \<longleftrightarrow> replicas_of h \<subseteq> set (va_down v)"

lemma chunksUp_result:
  assumes "vault_ok v"
  shows "\<exists>v'. chunksUp v = Inr (length (filter (\<lambda>h. \<not> lost v h) (uniqueHashes v)), v')"
proof -
  obtain v' where v': "sync v = Inr v'" "vault_ok v'" "synced v'" "va_down v' = va_down v"
    using sync_result [OF assms] by blast
  have "filter (\<lambda>h. chunkAvailable h (va_cluster v')) (uniqueHashes v') = filter (\<lambda>h. \<not> lost v h) (uniqueHashes v)"
    unfolding uniqueHashes_same [OF assms] uniqueHashes_same [OF v'(2)]
    by (rule filter_cong) (use synced_available [OF v'(2,3)] in \<open>auto simp: lost_def v'(4)\<close>)
  then show ?thesis by (simp add: chunksUp_def v'(1))
qed

lemma restoreValid_result:
  assumes "vault_ok v"
  shows "\<exists>v'. restoreValid v = Inr ((\<forall>h \<in> set (uniqueHashes v). \<not> lost v h), v')"
proof -
  obtain v' where v': "sync v = Inr v'" "vault_ok v'" "synced v'" "va_down v' = va_down v"
    using sync_result [OF assms] by blast
  have plan: "list_ex (\<lambda>f. \<not> pf_available f) (planRestore (va_cluster v') (sr_manifest (va_v2 v')))
      \<longleftrightarrow> \<not> (\<forall>h \<in> set (uniqueHashes v). \<not> lost v h)"
    using synced_available [OF v'(2,3)] v'(2)
    by (auto simp: planRestore_def list_ex_iff plan_available set_uniqueHashes [OF assms] lost_def v'(4) vault_ok_def)
  have "engine_restore ''v2'' (va_engine v') = Inr (js_sort cmp_path (editOneFile makeDataset))"
    "va_v2files v' = editOneFile makeDataset"
    using v'(2) v2_restored by (simp_all add: vault_ok_def)
  then show ?thesis
    by (simp add: restoreValid_def v'(1) plan v2_tree)
qed

text \<open>On the cluster that the check leaves, the restore that verifies every digest gives the same
  answer: the copies on the nodes of a reachable vault are intact.\<close>

lemma restoreValid_restore:
  assumes ok: "vault_ok v" and valid: "restoreValid v = Inr (b, v')"
  shows "rr_ok (restore (va_cluster v') (sr_manifest (va_v2 v')) p) \<longleftrightarrow> b"
proof -
  obtain v0 where v0: "sync v = Inr v0" "vault_ok v0" "synced v0" "va_down v0 = va_down v"
    using sync_result [OF ok] by blast
  have b: "b \<longleftrightarrow> (\<forall>h \<in> set (chunk_refs v2_manifest). \<not> lost v h)"
    using restoreValid_result [OF ok] valid by (auto simp: set_uniqueHashes [OF ok])
  have "engine_restore ''v2'' (va_engine v0) = Inr (js_sort cmp_path (editOneFile makeDataset))"
    using v0(2) v2_restored by (simp add: vault_ok_def)
  then have "v' = v0" using valid by (simp add: restoreValid_def v0(1) Let_def split: if_splits)
  moreover have "cluster_inv (va_cluster v0)" "sr_manifest (va_v2 v0) = v2_manifest"
    using v0(2) by (simp_all add: vault_ok_def)
  ultimately show ?thesis
    using synced_available [OF v0(2,3)] by (simp add: restore_ok_iff passes_iff b lost_def v0(4))
qed

text \<open>At most two failed nodes lose no chunk; three failed nodes that hold one do.\<close>

lemma two_down_safe:
  assumes "card (set (va_down v) \<inter> {0..<5}) \<le> 2"
  shows "\<not> lost v h"
proof
  assume "lost v h"
  then have "replicas_of h \<subseteq> set (va_down v) \<inter> {0..<5}"
    using replicas_card(2) [of h] by (auto simp: lost_def)
  then have "card (replicas_of h) \<le> card (set (va_down v) \<inter> {0..<5})"
    by (intro card_mono) auto
  with assms replicas_card(1) [of h] show False by simp
qed

lemma nodeChunkCounts_result:
  assumes "vault_ok v"
  shows "\<exists>v'. nodeChunkCounts v = Inr (map (\<lambda>i. length (filter (\<lambda>h. int i \<in> replicas_of h) (uniqueHashes v))) [0..<5], v')"
proof -
  obtain v' where v': "sync v = Inr v'" "vault_ok v'"
    using sync_result [OF assms] by blast
  have "map ns_chunks (status (va_cluster v')) = map ns_chunks (status loaded_cluster)"
    using v'(2) by (simp add: status_chunks vault_ok_def loaded_frame)
  also have "\<dots> = map (\<lambda>i. length (filter (\<lambda>h. int i \<in> set (placement h demo_cluster)) (uniqueChunks v2_manifest)))
      [0..<length (cl_up demo_cluster)]"
    unfolding loaded_cluster_def
    by (rule status_put_chunks) (use cluster_ok_new empty_nodes_new demo_cluster_new in auto)
  finally show ?thesis
    by (simp add: nodeChunkCounts_def v'(1) uniqueHashes_same [OF assms] replicas_of_def demo_cluster_def)
qed

lemma loaded_copies: "sum_list (map ns_chunks (status loaded_cluster)) = 42"
proof -
  have "int (sum_list (map ns_chunks (status loaded_cluster))) = int (length (uniqueChunks v2_manifest)) * cl_replication demo_cluster"
    unfolding loaded_cluster_def
    by (rule copies_put_chunks) (use cluster_ok_new empty_nodes_new demo_cluster_new in auto)
  also have "length (uniqueChunks v2_manifest) = 14"
    using distinct_card [OF distinct_uniqueChunks, of v2_manifest] v2_unique by simp
  finally show ?thesis by (simp add: demo_cluster_def)
qed

text \<open>The plan is a function of the set of failed nodes: each chunk is served by its first
  replica outside the set.\<close>

definition planned :: "int list \<Rightarrow> string \<Rightarrow> planned_fetch" where
  "planned down h =
     (case find (\<lambda>n. n \<notin> set down) (placement h demo_cluster) of
        None \<Rightarrow> \<lparr>pf_hash = h, pf_node = -1, pf_available = False\<rparr>
      | Some n \<Rightarrow> \<lparr>pf_hash = h, pf_node = n, pf_available = True\<rparr>)"

definition plan_for :: "int list \<Rightarrow> planned_fetch list" where
  "plan_for down = map (planned down) (uniqueChunks v2_manifest)"

lemma synced_plan:
  assumes ok: "vault_ok v" and "synced v" and h: "h \<in> set (chunk_refs v2_manifest)"
  shows "plan_one (va_cluster v) h = planned (va_down v) h"
proof -
  let ?c = "va_cluster v"
  have place: "placement h ?c = placement h demo_cluster" "placement h loaded_cluster = placement h demo_cluster"
    using ok by (intro placement_cong; simp add: vault_ok_def loaded_frame demo_cluster_def)+
  have held: "node_lookup ?c n h \<noteq> None" if "n \<in> set (placement h ?c)" for n
    using loaded_replicated [OF h] ok that by (simp add: code.replicated_def vault_ok_def place)
  have up: "node_up ?c n \<longleftrightarrow> n \<notin> set (va_down v)" if "n \<in> set (placement h ?c)" for n
    using that \<open>synced v\<close> ok placement_valid [of ?c n h] by (simp add: synced_def vault_ok_def cluster_inv_def)
  have "find (\<lambda>n. node_up ?c n \<and> node_lookup ?c n h \<noteq> None) (placement h ?c)
      = find (\<lambda>n. n \<notin> set (va_down v)) (placement h ?c)"
    by (rule find_cong) (simp_all add: held up)
  then show ?thesis
    by (simp add: plan_one_def planned_def code.fetch_first place(1) split: option.split)
qed

lemma vault_plan_result:
  assumes "vault_ok v"
  shows "\<exists>v'. vault_plan v = Inr (plan_for (va_down v), v') \<and> vault_ok v' \<and> va_down v' = va_down v"
proof -
  obtain v' where v': "sync v = Inr v'" "vault_ok v'" "synced v'" "va_down v' = va_down v"
    using sync_result [OF assms] by blast
  then have "planRestore (va_cluster v') (sr_manifest (va_v2 v')) = plan_for (va_down v)"
    using synced_plan [OF v'(2,3)] by (simp add: planRestore_def plan_for_def vault_ok_def)
  with v' show ?thesis by (simp add: vault_plan_def)
qed

lemma planned_available: "pf_available (planned down h) \<longleftrightarrow> \<not> replicas_of h \<subseteq> set down"
proof -
  have "pf_available (planned down h) \<longleftrightarrow> find (\<lambda>n. n \<notin> set down) (placement h demo_cluster) \<noteq> None"
    by (simp add: planned_def split: option.split)
  then show ?thesis by (auto simp: find_None_iff replicas_of_def)
qed

lemma plan_for_available:
  "vault_ok v \<Longrightarrow> list_all pf_available (plan_for (va_down v)) \<longleftrightarrow> (\<forall>h \<in> set (uniqueHashes v). \<not> lost v h)"
  by (simp add: plan_for_def list_all_iff planned_available set_uniqueHashes lost_def)

lemma length_plan_for: "length (plan_for down) = 14"
  using distinct_card [OF distinct_uniqueChunks, of v2_manifest] v2_unique by (simp add: plan_for_def)

section \<open>What the validity check does not look at\<close>

text \<open>A cluster in which every copy on every node has lost its bytes but kept its address.\<close>

definition corrupt_cluster :: "cluster \<Rightarrow> cluster" where
  "corrupt_cluster c = c\<lparr>cl_data := map (map (\<lambda>(h, _). (h, []))) (cl_data c)\<rparr>"

lemma corrupt_frame [simp]: "cl_up (corrupt_cluster c) = cl_up c" "cl_replication (corrupt_cluster c) = cl_replication c"
  "placement h (corrupt_cluster c) = placement h c" "nodeCount (corrupt_cluster c) = nodeCount c"
  by (simp_all add: corrupt_cluster_def placement_def nodeCount_def)

lemma map_of_corrupt: "map_of (map (\<lambda>(h, _). (h, [])) m) h = map_option (\<lambda>_. []) (map_of m h)"
  by (induction m) auto

lemma corrupt_lookup:
  assumes "cluster_ok c" "n \<in> set (placement h c)"
  shows "node_lookup (corrupt_cluster c) n h = map_option (\<lambda>_. []) (node_lookup c n h)"
  using assms(1) placement_valid [OF assms]
  by (simp add: corrupt_cluster_def cluster_ok_def nat_less_iff map_of_corrupt)

lemma corrupt_available: "cluster_ok c \<Longrightarrow> chunkAvailable h (corrupt_cluster c) \<longleftrightarrow> chunkAvailable h c"
  by (simp add: chunkAvailable_iff code.reachable_copy_def corrupt_lookup)

lemma corrupt_passes:
  assumes ok: "cluster_ok c" and h: "h \<noteq> sha256Hex []"
  shows "\<not> passes (corrupt_cluster c) h"
proof
  assume "passes (corrupt_cluster c) h"
  then obtain d n where get: "cluster_get h (corrupt_cluster c) = Inr (d, n)" "sha256Hex d = h"
    by (auto simp: passes_def split: sum.splits)
  then have "n \<in> set (placement h c)" "node_lookup (corrupt_cluster c) n h = Some d"
    using code.fetch_from [OF get(1)] by simp_all
  then have "d = []" using corrupt_lookup [OF ok] by auto
  with get(2) h show False by simp
qed

lemma restoreValid_corrupt:
  assumes "buildModel = Inr v"
  defines "v' \<equiv> v\<lparr>va_cluster := corrupt_cluster (va_cluster v)\<rparr>"
  shows "restoreValid v' = Inr (True, v')"
    and "\<not> rr_ok (restore (va_cluster v') (sr_manifest (va_v2 v')) p)"
proof -
  let ?c = "va_cluster v"
  have ok: "vault_ok v" "synced v" using vault_ok_build [OF assms(1)] by blast+
  then have okc: "cluster_ok ?c" by (simp add: vault_ok_def cluster_inv_def)
  have down: "va_down v = []" using vault_ok_build [OF assms(1)] by blast
  have m: "sr_manifest (va_v2 v) = v2_manifest" using ok(1) by (simp add: vault_ok_def)
  have "sync_loop [] [0..nodeCount ?c - 1] (corrupt_cluster ?c) = Inr (corrupt_cluster ?c)"
    using ok(2) by (intro sync_loop_current) (auto simp: synced_def down nodeCount_def)
  then have sync: "sync v' = Inr v'" by (simp add: sync_def v'_def down)
  have "chunkAvailable h (corrupt_cluster ?c)" if "h \<in> set (chunk_refs v2_manifest)" for h
    using synced_available [OF ok that] replicas_card(1) [of h] okc
    by (auto simp: corrupt_available down)
  then have "\<not> list_ex (\<lambda>f. \<not> pf_available f) (planRestore (va_cluster v') (sr_manifest (va_v2 v')))"
    by (simp add: planRestore_def list_ex_iff plan_available v'_def m)
  moreover have "engine_restore ''v2'' (va_engine v') = Inr (js_sort cmp_path (editOneFile makeDataset))"
    "va_v2files v' = editOneFile makeDataset"
    using ok(1) v2_restored by (simp_all add: vault_ok_def v'_def)
  ultimately show "restoreValid v' = Inr (True, v')"
    by (simp add: restoreValid_def sync v2_tree)
  obtain h where h: "h \<in> set (chunk_refs v2_manifest)"
    "h = ''1725686d28cb298f7b83747f97e3a91fe80386cc6f8e1824c6fd5ce60831daf4''"
    using first_chunk by (metis list.set_intros(1) set_uniqueChunks)
  have "h \<noteq> sha256Hex []"
    using sha256_empty h(2) by (simp add: text_encode_def)
  with corrupt_passes [OF okc] h(1)
  show "\<not> rr_ok (restore (va_cluster v') (sr_manifest (va_v2 v')) p)"
    by (auto simp: restore_ok_iff v'_def m)
qed

end
