(* ===== verification/RestoreView.thy ===== *)
theory RestoreView
  imports Vault
begin

text \<open>
  web/src/components/FailureRestore.tsx: the state machine of the animated restore. A run takes
  the plan, shows every row as pending and sets one timer per row and one that settles the
  phase; a change of the set of failed nodes resets the view in an effect that runs after the
  change. Timers are kept in the order in which they fire: by delay, equal delays in the order
  they were set. All pending timers come from one run, since a run clears the earlier ones,
  so the delays of a run compare without a clock. What it renders is in Panels and Render.
\<close>

section \<open>The code\<close>

datatype phase = Idle | Running | Done | Failed

datatype row_state = Pending | Verified | Unavailable

record fetch_row =
  fr_hash :: string
  fr_node :: int
  fr_available :: bool
  fr_state :: row_state

text \<open>The two callbacks: row \<open>i\<close> with the availability of its planned fetch, and the end.\<close>

datatype timer = ResolveRow nat bool | Settle bool

record restore_view =
  rv_phase :: phase
  rv_rows :: "fetch_row list"
  rv_timers :: "(nat \<times> timer) list"

definition PARALLEL :: nat where
  "PARALLEL = 4"

definition init_view :: restore_view where
  "init_view = \<lparr>rv_phase = Idle, rv_rows = [], rv_timers = []\<rparr>"

definition setTimeout :: "timer \<Rightarrow> nat \<Rightarrow> (nat \<times> timer) list \<Rightarrow> (nat \<times> timer) list" where
  "setTimeout act delay ts =
     takeWhile (\<lambda>t. fst t \<le> delay) ts @ (delay, act) # dropWhile (\<lambda>t. fst t \<le> delay) ts"

text \<open>Lines 36 to 43.\<close>

definition reset_view :: "restore_view \<Rightarrow> restore_view" where
  "reset_view w = w\<lparr>rv_timers := [], rv_phase := Idle, rv_rows := []\<rparr>"

definition row_delay :: "bool \<Rightarrow> nat \<Rightarrow> nat" where
  "row_delay reduce i =
     (let lane = i mod PARALLEL;
          wave = i div PARALLEL;
          step = (if reduce then 0 else 150)
      in if reduce then 0 else wave * step + lane * 30)"

definition settle_delay :: "bool \<Rightarrow> nat \<Rightarrow> nat" where
  "settle_delay reduce n =
     (let step = (if reduce then 0 else 150)
      in if reduce then 0 else (n + PARALLEL - 1) div PARALLEL * step + 200)"

text \<open>Lines 45 to 85, on the plan that line 47 asks the vault for.\<close>

definition run_view :: "bool \<Rightarrow> planned_fetch list \<Rightarrow> restore_view \<Rightarrow> restore_view" where
  "run_view reduce plan w =
     (let initial = map (\<lambda>p. \<lparr>fr_hash = pf_hash p, fr_node = pf_node p, fr_available = pf_available p,
                              fr_state = Pending\<rparr>) plan;
          willFail = list_ex (\<lambda>p. \<not> pf_available p) plan;
          timers = foldl (\<lambda>ts (i, p). setTimeout (ResolveRow i (pf_available p)) (row_delay reduce i) ts)
                     [] (enumerate 0 plan);
          timers = setTimeout (Settle willFail) (settle_delay reduce (length plan)) timers
      in w\<lparr>rv_rows := initial, rv_phase := Running, rv_timers := timers\<rparr>)"

text \<open>
  The next timer fires. A row callback writes \<open>next[i]\<close>; \<open>None\<close> is a write past the end of
  the array, which would extend it with an incomplete row.
\<close>

fun run_timer :: "timer \<Rightarrow> restore_view \<Rightarrow> restore_view option" where
  "run_timer (ResolveRow i available) w =
     (if i < length (rv_rows w)
      then Some (w\<lparr>rv_rows := (rv_rows w)[i := (rv_rows w ! i)
             \<lparr>fr_state := (if available then Verified else Unavailable)\<rparr>]\<rparr>)
      else None)"
| "run_timer (Settle willFail) w = Some (w\<lparr>rv_phase := (if willFail then Failed else Done)\<rparr>)"

definition fire :: "restore_view \<Rightarrow> restore_view option" where
  "fire w = (case rv_timers w of [] \<Rightarrow> Some w | (d, act) # ts \<Rightarrow> run_timer act (w\<lparr>rv_timers := ts\<rparr>))"

definition verified_count :: "restore_view \<Rightarrow> nat" where
  "verified_count w = length (filter (\<lambda>r. fr_state r = Verified) (rv_rows w))"

text \<open>
  The page: the vault, the view, whether a change of the failed nodes still has its effect to
  run, and the setting for reduced motion.
\<close>

record page =
  pg_vault :: vault
  pg_view :: restore_view
  pg_dirty :: bool

inductive page_step :: "bool \<Rightarrow> page \<Rightarrow> page \<Rightarrow> bool" for reduce where
  toggle: "page_step reduce p (p\<lparr>pg_vault := toggleNode n (pg_vault p), pg_dirty := True\<rparr>)"
| recover: "page_step reduce p (p\<lparr>pg_vault := vault_recoverAll (pg_vault p), pg_dirty := True\<rparr>)"
| effect: "pg_dirty p \<Longrightarrow> page_step reduce p (p\<lparr>pg_view := reset_view (pg_view p), pg_dirty := False\<rparr>)"
| query: "sync (pg_vault p) = Inr v \<Longrightarrow> page_step reduce p (p\<lparr>pg_vault := v\<rparr>)"
| run: "rv_phase (pg_view p) \<noteq> Running \<Longrightarrow> vault_plan (pg_vault p) = Inr (plan, v) \<Longrightarrow>
    page_step reduce p (p\<lparr>pg_vault := v, pg_view := run_view reduce plan (pg_view p)\<rparr>)"
| timer: "fire (pg_view p) = Some w \<Longrightarrow> page_step reduce p (p\<lparr>pg_view := w\<rparr>)"

inductive page_reachable :: "bool \<Rightarrow> page \<Rightarrow> bool" for reduce where
  start: "buildModel = Inr v \<Longrightarrow> page_reachable reduce \<lparr>pg_vault = v, pg_view = init_view, pg_dirty = True\<rparr>"
| step: "page_reachable reduce p \<Longrightarrow> page_step reduce p p' \<Longrightarrow> page_reachable reduce p'"

section \<open>The order of the timers\<close>

lemma setTimeout_last: "(\<And>t. t \<in> set ts \<Longrightarrow> fst t \<le> d) \<Longrightarrow> setTimeout act d ts = ts @ [(d, act)]"
  by (simp add: setTimeout_def takeWhile_eq_all_conv dropWhile_eq_Nil_conv)

definition row_timers :: "bool \<Rightarrow> planned_fetch list \<Rightarrow> (nat \<times> timer) list" where
  "row_timers reduce plan =
     foldl (\<lambda>ts (i, p). setTimeout (ResolveRow i (pf_available p)) (row_delay reduce i) ts) [] (enumerate 0 plan)"

lemma row_delay_mono:
  assumes "i \<le> j"
  shows "row_delay reduce i \<le> row_delay reduce j"
proof -
  have "i div 4 * 150 + i mod 4 * 30 \<le> j div 4 * 150 + j mod 4 * 30"
  proof (cases "i div 4 = j div 4")
    case True
    then have "i mod 4 \<le> j mod 4" using assms div_mult_mod_eq [of i 4] div_mult_mod_eq [of j 4] by linarith
    with True show ?thesis by simp
  next
    case False
    then have "i div 4 + 1 \<le> j div 4" using div_le_mono [OF assms, of 4] by simp
    moreover have "i mod 4 \<le> 3" by simp
    ultimately show ?thesis by linarith
  qed
  then show ?thesis by (simp add: row_delay_def PARALLEL_def Let_def add.commute)
qed

text \<open>The row timers fire in the order of the rows.\<close>

lemma row_timers_eq:
  "row_timers reduce plan = map (\<lambda>(i, p). (row_delay reduce i, ResolveRow i (pf_available p))) (enumerate 0 plan)"
proof -
  have "foldl (\<lambda>ts (i, p). setTimeout (ResolveRow i (pf_available p)) (row_delay reduce i) ts) ts (enumerate n ps)
      = ts @ map (\<lambda>(i, p). (row_delay reduce i, ResolveRow i (pf_available p))) (enumerate n ps)"
    if "\<forall>t \<in> set ts. fst t \<le> row_delay reduce n" for ts n ps
    using that
  proof (induction ps arbitrary: ts n)
    case (Cons p ps)
    have "\<forall>t \<in> set ts. fst t \<le> row_delay reduce (Suc n)"
      using Cons.prems row_delay_mono [of n "Suc n" reduce] by fastforce
    moreover have "row_delay reduce n \<le> row_delay reduce (Suc n)" by (rule row_delay_mono) simp
    ultimately show ?case using Cons.IH [of _ "Suc n"] Cons.prems by (simp add: setTimeout_last)
  qed simp
  from this [of "[]" 0 plan] show ?thesis by (simp add: row_timers_def)
qed

lemma row_delay_settle:
  assumes "i < n"
  shows "row_delay reduce i \<le> settle_delay reduce n"
proof -
  have "i div 4 \<le> (n + 3) div 4" using assms by (intro div_le_mono) simp
  then have "i div 4 * 150 \<le> (n + 3) div 4 * 150" by (rule mult_le_mono1)
  moreover have "i mod 4 * 30 \<le> 3 * 30" by (intro mult_le_mono1) simp
  ultimately have "i div 4 * 150 + i mod 4 * 30 \<le> (n + 3) div 4 * 150 + 200" by linarith
  then show ?thesis
    by (cases reduce) (simp_all add: row_delay_def settle_delay_def PARALLEL_def Let_def add.commute)
qed

text \<open>The settling timer is behind every row timer.\<close>

lemma run_view_timers:
  "rv_timers (run_view reduce plan w) =
     row_timers reduce plan @ [(settle_delay reduce (length plan), Settle (list_ex (\<lambda>p. \<not> pf_available p) plan))]"
proof -
  have "fst t \<le> settle_delay reduce (length plan)" if "t \<in> set (row_timers reduce plan)" for t
  proof -
    have "t \<in> set (map (\<lambda>(i, p). (row_delay reduce i, ResolveRow i (pf_available p))) (enumerate 0 plan))"
      using that by (simp only: row_timers_eq)
    then show ?thesis by (auto simp: in_set_enumerate_eq row_delay_settle)
  qed
  then show ?thesis
    by (simp add: run_view_def setTimeout_last flip: row_timers_def)
qed

section \<open>The invariant of the view\<close>

definition row_matches :: "fetch_row \<Rightarrow> planned_fetch \<Rightarrow> bool" where
  "row_matches r p \<longleftrightarrow> fr_hash r = pf_hash p \<and> fr_node r = pf_node p \<and> fr_available r = pf_available p"

definition resolved :: "fetch_row \<Rightarrow> bool" where
  "resolved r \<longleftrightarrow> fr_state r = (if fr_available r then Verified else Unavailable)"

text \<open>A pending row still has its timer; the settling timer is the last one.\<close>

definition running_ok :: "planned_fetch list \<Rightarrow> fetch_row list \<Rightarrow> (nat \<times> timer) list \<Rightarrow> bool" where
  "running_ok plan rows ts \<longleftrightarrow> (\<exists>rs d.
     ts = rs @ [(d, Settle (\<not> list_all pf_available plan))]
     \<and> (\<forall>t \<in> snd ` set rs. \<exists>i < length plan. t = ResolveRow i (pf_available (plan ! i)))
     \<and> (\<forall>i < length plan. resolved (rows ! i)
          \<or> fr_state (rows ! i) = Pending \<and> ResolveRow i (pf_available (plan ! i)) \<in> snd ` set rs))"

definition view_ok :: "planned_fetch list \<Rightarrow> restore_view \<Rightarrow> bool" where
  "view_ok plan w \<longleftrightarrow>
     (case rv_phase w of
        Idle \<Rightarrow> rv_rows w = [] \<and> rv_timers w = []
      | Running \<Rightarrow> list_all2 row_matches (rv_rows w) plan \<and> running_ok plan (rv_rows w) (rv_timers w)
      | Done \<Rightarrow> list_all2 row_matches (rv_rows w) plan \<and> rv_timers w = []
                \<and> list_all resolved (rv_rows w) \<and> list_all pf_available plan
      | Failed \<Rightarrow> list_all2 row_matches (rv_rows w) plan \<and> rv_timers w = []
                  \<and> list_all resolved (rv_rows w) \<and> \<not> list_all pf_available plan)"

lemma view_ok_init: "view_ok plan init_view"
  by (simp add: view_ok_def init_view_def)

lemma view_ok_reset: "view_ok plan (reset_view w)"
  by (simp add: view_ok_def reset_view_def)

lemma row_timers_callbacks:
  "snd ` set (row_timers reduce plan) = {ResolveRow i (pf_available (plan ! i)) | i. i < length plan}"
proof -
  have "set (row_timers reduce plan) =
      set (map (\<lambda>(i, p). (row_delay reduce i, ResolveRow i (pf_available p))) (enumerate 0 plan))"
    by (simp only: row_timers_eq)
  then have "snd ` set (row_timers reduce plan)
      = (\<lambda>(i, p). ResolveRow i (pf_available p)) ` set (enumerate 0 plan)"
    by (simp add: image_image case_prod_beta)
  also have "\<dots> = {ResolveRow i (pf_available (plan ! i)) | i. i < length plan}"
  proof -
    have "set (enumerate 0 plan) = {(i, plan ! i) | i. i < length plan}"
      by (auto simp: in_set_enumerate_eq)
    then show ?thesis by (auto simp: image_Collect)
  qed
  finally show ?thesis .
qed

lemma view_ok_run: "view_ok plan (run_view reduce plan w)"
proof -
  define rows where "rows = rv_rows (run_view reduce plan w)"
  have rows: "rows = map (\<lambda>p. \<lparr>fr_hash = pf_hash p, fr_node = pf_node p, fr_available = pf_available p,
      fr_state = Pending\<rparr>) plan"
    by (simp add: rows_def run_view_def Let_def)
  have "list_all2 row_matches rows plan"
    by (simp add: rows list_all2_map1 list_all2_same row_matches_def)
  moreover have "list_ex (\<lambda>p. \<not> pf_available p) plan \<longleftrightarrow> \<not> list_all pf_available plan"
    by (simp add: list_ex_iff list_all_iff)
  then have "running_ok plan rows (rv_timers (run_view reduce plan w))"
    unfolding running_ok_def run_view_timers row_timers_callbacks [symmetric]
    by (intro exI [of _ "row_timers reduce plan"]) (auto simp: row_timers_callbacks rows)
  moreover have "rv_phase (run_view reduce plan w) = Running"
    by (simp add: run_view_def Let_def)
  ultimately show ?thesis by (simp add: view_ok_def rows_def)
qed

text \<open>Resolving row \<open>i\<close> of a running view.\<close>

lemma resolve_row_ok:
  assumes rows: "list_all2 row_matches rows plan"
    and ok: "running_ok plan rows ((d, ResolveRow i av) # ts)"
  defines "rows' \<equiv> rows[i := (rows ! i)\<lparr>fr_state := (if av then Verified else Unavailable)\<rparr>]"
  shows "i < length rows" "list_all2 row_matches rows' plan" "running_ok plan rows' ts"
proof -
  obtain rs d' where ts: "(d, ResolveRow i av) # ts = rs @ [(d', Settle (\<not> list_all pf_available plan))]"
    and known: "\<forall>t \<in> snd ` set rs. \<exists>i < length plan. t = ResolveRow i (pf_available (plan ! i))"
    and state: "\<forall>i < length plan. resolved (rows ! i)
      \<or> fr_state (rows ! i) = Pending \<and> ResolveRow i (pf_available (plan ! i)) \<in> snd ` set rs"
    using ok unfolding running_ok_def by blast
  then obtain rs' where rs: "rs = (d, ResolveRow i av) # rs'" "ts = rs' @ [(d', Settle (\<not> list_all pf_available plan))]"
    by (cases rs) auto
  have i: "i < length plan" "av = pf_available (plan ! i)"
    using known by (simp_all add: rs)
  have len: "length rows = length plan" using rows by (rule list_all2_lengthD)
  then show "i < length rows" using i by simp
  have match: "row_matches (rows ! j) (plan ! j)" if "j < length plan" for j
    using rows that len by (simp add: list_all2_conv_all_nth)
  show "list_all2 row_matches rows' plan"
    using match i len by (auto simp: rows'_def list_all2_conv_all_nth nth_list_update row_matches_def)
  have "resolved (rows' ! j) \<or> fr_state (rows' ! j) = Pending \<and> ResolveRow j (pf_available (plan ! j)) \<in> snd ` set rs'"
    if j: "j < length plan" for j
  proof (cases "j = i")
    case True
    then show ?thesis using match [OF j] i len by (simp add: rows'_def resolved_def row_matches_def)
  next
    case False
    then have "rows' ! j = rows ! j" by (simp add: rows'_def)
    with state [rule_format, OF j] False show ?thesis by (simp add: rs)
  qed
  then show "running_ok plan rows' ts"
    unfolding running_ok_def using known rs by (intro exI [of _ rs'] exI [of _ d']) auto
qed

lemma settle_ok:
  assumes rows: "list_all2 row_matches rows plan" and ok: "running_ok plan rows ((d, Settle b) # ts)"
  shows "ts = []" "b \<longleftrightarrow> \<not> list_all pf_available plan" "list_all resolved rows"
proof -
  obtain rs d' where ts: "(d, Settle b) # ts = rs @ [(d', Settle (\<not> list_all pf_available plan))]"
    and known: "\<forall>t \<in> snd ` set rs. \<exists>i < length plan. t = ResolveRow i (pf_available (plan ! i))"
    and state: "\<forall>i < length plan. resolved (rows ! i)
      \<or> fr_state (rows ! i) = Pending \<and> ResolveRow i (pf_available (plan ! i)) \<in> snd ` set rs"
    using ok unfolding running_ok_def by blast
  then have "rs = []" by (cases rs) auto
  with ts state list_all2_lengthD [OF rows]
  show "ts = []" "b \<longleftrightarrow> \<not> list_all pf_available plan" "list_all resolved rows"
    by (auto simp: list_all_length)
qed

lemma fire_ok:
  assumes "view_ok plan w"
  shows "\<exists>w'. fire w = Some w' \<and> view_ok plan w'"
proof (cases "rv_phase w = Running")
  case False
  with assms have "rv_timers w = []" by (cases "rv_phase w") (simp_all add: view_ok_def)
  with assms show ?thesis by (simp add: fire_def)
next
  case True
  with assms have rows: "list_all2 row_matches (rv_rows w) plan"
    and run: "running_ok plan (rv_rows w) (rv_timers w)" by (simp_all add: view_ok_def)
  then obtain d act ts where ts: "rv_timers w = (d, act) # ts"
    by (cases "rv_timers w") (auto simp: running_ok_def)
  show ?thesis
  proof (cases act)
    case (ResolveRow i av)
    show ?thesis
      using resolve_row_ok [OF rows run [unfolded ts ResolveRow]] True
      by (simp add: fire_def ts ResolveRow view_ok_def)
  next
    case (Settle b)
    show ?thesis
      using settle_ok [OF rows run [unfolded ts Settle]] rows
      by (simp add: fire_def ts Settle view_ok_def)
  qed
qed

section \<open>The page\<close>

text \<open>The rows come from the plan of some set of failed nodes, and of the current one unless
  an effect is still to run.\<close>

definition page_ok :: "page \<Rightarrow> bool" where
  "page_ok p \<longleftrightarrow> vault_ok (pg_vault p) \<and>
     (\<exists>down. view_ok (plan_for down) (pg_view p)
       \<and> (pg_dirty p \<or> rv_phase (pg_view p) = Idle \<or> down = va_down (pg_vault p)))"

lemma fire_idle: "view_ok plan w \<Longrightarrow> rv_phase w = Idle \<Longrightarrow> fire w = Some w"
  by (simp add: view_ok_def fire_def)

lemma page_ok_step:
  assumes "page_step reduce p p'" "page_ok p"
  shows "page_ok p'"
  using assms
proof cases
  case (toggle n)
  with assms(2) show ?thesis by (auto simp: page_ok_def intro: inv_intros)
next
  case recover
  with assms(2) show ?thesis by (auto simp: page_ok_def intro: inv_intros)
next
  case effect
  with assms(2) show ?thesis
    using view_ok_reset by (auto simp: page_ok_def reset_view_def)
next
  case (query v)
  with assms(2) sync_result [of "pg_vault p"] show ?thesis by (auto simp: page_ok_def)
next
  case (run plan v)
  then have v: "vault_ok v" "plan = plan_for (va_down v)"
    using assms(2) vault_plan_result [of "pg_vault p"] by (auto simp: page_ok_def)
  with run view_ok_run show ?thesis by (auto simp: page_ok_def)
next
  case (timer w)
  obtain down where down: "view_ok (plan_for down) (pg_view p)"
    "pg_dirty p \<or> rv_phase (pg_view p) = Idle \<or> down = va_down (pg_vault p)"
    using assms(2) by (auto simp: page_ok_def)
  have "view_ok (plan_for down) w" using fire_ok [OF down(1)] timer by auto
  moreover have "rv_phase (pg_view p) = Idle \<longrightarrow> rv_phase w = Idle"
    using fire_idle [OF down(1)] timer by auto
  ultimately show ?thesis using assms(2) timer down(2) by (auto simp: page_ok_def)
qed

lemma page_reachable_ok: "page_reachable reduce p \<Longrightarrow> page_ok p"
proof (induction rule: page_reachable.induct)
  case (start v)
  then show ?case
    using vault_ok_build view_ok_init by (auto simp: page_ok_def)
qed (rule page_ok_step)

text \<open>A settled phase tells the truth about the current set of failed nodes.\<close>

lemma page_settled:
  assumes ok: "page_ok p" and "\<not> pg_dirty p" "rv_phase (pg_view p) \<in> {Done, Failed}"
  shows "\<exists>v. restoreValid (pg_vault p) = Inr (rv_phase (pg_view p) = Done, v)"
proof -
  let ?v = "pg_vault p"
  have v: "vault_ok ?v" and view: "view_ok (plan_for (va_down ?v)) (pg_view p)"
    using assms by (auto simp: page_ok_def)
  have "rv_phase (pg_view p) = Done \<longleftrightarrow> list_all pf_available (plan_for (va_down ?v))"
    using view assms(3) by (auto simp: view_ok_def)
  with restoreValid_result [OF v] plan_for_available [OF v] show ?thesis by simp
qed

lemma page_done_rows:
  assumes "page_ok p" "rv_phase (pg_view p) = Done"
  shows "length (rv_rows (pg_view p)) = 14" "list_all (\<lambda>r. fr_state r = Verified \<and> fr_available r) (rv_rows (pg_view p))"
    "verified_count (pg_view p) = 14"
proof -
  let ?rows = "rv_rows (pg_view p)"
  obtain down where rows: "list_all2 row_matches ?rows (plan_for down)"
    and ok: "list_all resolved ?rows" "list_all pf_available (plan_for down)"
    using assms by (auto simp: page_ok_def view_ok_def)
  have len: "length ?rows = length (plan_for down)" using rows by (rule list_all2_lengthD)
  then show "length ?rows = 14" by (simp add: length_plan_for)
  have "fr_state (?rows ! i) = Verified \<and> fr_available (?rows ! i)" if "i < length ?rows" for i
    using rows ok that len by (auto simp: list_all2_conv_all_nth list_all_length row_matches_def resolved_def)
  then show all: "list_all (\<lambda>r. fr_state r = Verified \<and> fr_available r) ?rows"
    by (simp add: list_all_length)
  then have "filter (\<lambda>r. fr_state r = Verified) ?rows = ?rows"
    by (auto simp: filter_id_conv list_all_iff)
  with \<open>length ?rows = 14\<close> show "verified_count (pg_view p) = 14" by (simp add: verified_count_def)
qed

section \<open>A run settles\<close>

fun fire_times :: "nat \<Rightarrow> restore_view \<Rightarrow> restore_view option" where
  "fire_times 0 w = Some w"
| "fire_times (Suc k) w = (case fire w of None \<Rightarrow> None | Some w' \<Rightarrow> fire_times k w')"

lemma fire_timers: "fire w = Some w' \<Longrightarrow> rv_timers w' = tl (rv_timers w)"
  by (cases "rv_timers w"; cases "snd (hd (rv_timers w))") (auto simp: fire_def split: if_splits)

lemma fire_phase:
  "view_ok plan w \<Longrightarrow> rv_phase w = Running \<Longrightarrow> fire w = Some w' \<Longrightarrow>
   rv_phase w' = (if length (rv_timers w) = 1 then if list_all pf_available plan then Done else Failed else Running)"
proof -
  assume ok: "view_ok plan w" and run: "rv_phase w = Running" and w': "fire w = Some w'"
  then obtain rs d where ts: "rv_timers w = rs @ [(d, Settle (\<not> list_all pf_available plan))]"
    and known: "\<forall>t \<in> snd ` set rs. \<exists>i < length plan. t = ResolveRow i (pf_available (plan ! i))"
    by (auto simp: view_ok_def running_ok_def)
  show ?thesis
  proof (cases rs)
    case Nil
    with w' ts show ?thesis by (auto simp: fire_def)
  next
    case (Cons t rs')
    then obtain d' i av where "t = (d', ResolveRow i av)" using known by (cases t) auto
    with Cons w' ts run show ?thesis by (auto simp: fire_def split: if_splits)
  qed
qed

lemma fire_times_settles:
  assumes "view_ok plan w" "rv_phase w = Running"
  shows "\<exists>w'. fire_times (length (rv_timers w)) w = Some w'
    \<and> rv_phase w' = (if list_all pf_available plan then Done else Failed) \<and> view_ok plan w'"
  using assms
proof (induction "length (rv_timers w)" arbitrary: w)
  case 0
  then show ?case by (auto simp: view_ok_def running_ok_def)
next
  case (Suc k)
  obtain w1 where w1: "fire w = Some w1" "view_ok plan w1" using fire_ok [OF Suc.prems(1)] by blast
  have k: "k = length (rv_timers w1)" using Suc.hyps(2) fire_timers [OF w1(1)] by simp
  show ?case
  proof (cases k)
    case 0
    then show ?thesis
      using w1 fire_phase [OF Suc.prems w1(1)] by (simp flip: Suc.hyps(2))
  next
    case (Suc k')
    then have "rv_phase w1 = Running"
      using fire_phase [OF Suc.prems w1(1)] by (simp flip: Suc.hyps(2))
    from Suc.hyps(1) [OF k w1(2) this] show ?thesis
      by (simp add: w1(1) k flip: Suc.hyps(2))
  qed
qed

lemma length_run_timers: "length (rv_timers (run_view reduce plan w)) = length plan + 1"
  by (simp add: run_view_timers row_timers_eq)

lemma run_settles:
  "\<exists>w'. fire_times (length plan + 1) (run_view reduce plan w) = Some w'
    \<and> rv_phase w' = (if list_all pf_available plan then Done else Failed) \<and> view_ok plan w'"
proof -
  have "rv_phase (run_view reduce plan w) = Running"
    by (simp add: run_view_def Let_def)
  from fire_times_settles [OF view_ok_run this] show ?thesis
    by (simp only: length_run_timers)
qed

text \<open>The view after \<open>k\<close> of the row timers: the first \<open>k\<close> rows are resolved, the others pending.\<close>

definition rows_after :: "nat \<Rightarrow> planned_fetch list \<Rightarrow> fetch_row list" where
  "rows_after k plan = map (\<lambda>(i, p). \<lparr>fr_hash = pf_hash p, fr_node = pf_node p, fr_available = pf_available p,
     fr_state = (if i < k then if pf_available p then Verified else Unavailable else Pending)\<rparr>) (enumerate 0 plan)"

lemma rows_after_next:
  "k < length plan \<Longrightarrow> (rows_after k plan)[k := (rows_after k plan ! k)
     \<lparr>fr_state := (if pf_available (plan ! k) then Verified else Unavailable)\<rparr>] = rows_after (Suc k) plan"
  by (rule nth_equalityI) (auto simp: rows_after_def nth_list_update nth_enumerate_eq)

lemma fire_times_Suc: "fire_times (Suc k) w = (case fire_times k w of None \<Rightarrow> None | Some w' \<Rightarrow> fire w')"
proof (induction k arbitrary: w)
  case (Suc k)
  show ?case
  proof (cases "fire w")
    case (Some w1)
    then have "fire_times (Suc (Suc k)) w = fire_times (Suc k) w1" "fire_times (Suc k) w = fire_times k w1"
      by simp_all
    then show ?thesis by (simp only: Suc.IH)
  qed simp
qed (simp split: option.split)

lemma run_steps:
  "k \<le> length plan \<Longrightarrow> fire_times k (run_view reduce plan w)
     = Some ((run_view reduce plan w)\<lparr>rv_rows := rows_after k plan, rv_timers := drop k (rv_timers (run_view reduce plan w))\<rparr>)"
proof (induction k)
  case 0
  have "rv_rows (run_view reduce plan w) = rows_after 0 plan"
    by (rule nth_equalityI) (simp_all add: run_view_def rows_after_def Let_def nth_enumerate_eq)
  then show ?case by simp
next
  case (Suc k)
  then have k: "k < length plan" by simp
  have "drop k (rv_timers (run_view reduce plan w))
      = (row_delay reduce k, ResolveRow k (pf_available (plan ! k))) # drop (Suc k) (rv_timers (run_view reduce plan w))"
    using k by (subst Cons_nth_drop_Suc [symmetric])
      (simp_all add: length_run_timers, simp add: run_view_timers row_timers_eq nth_append nth_enumerate_eq)
  moreover have "length (rows_after k plan) = length plan" by (simp add: rows_after_def)
  ultimately show ?case
    using Suc k rows_after_next [OF k] by (simp add: fire_times_Suc fire_def del: fire_times.simps)
qed

lemma rows_after_states:
  "list_all2 row_matches (rows_after k plan) plan"
  "map fr_state (rows_after k plan) =
     map (\<lambda>i. if i < k then if pf_available (plan ! i) then Verified else Unavailable else Pending) [0..<length plan]"
  by (auto simp: rows_after_def list_all2_conv_all_nth row_matches_def nth_enumerate_eq intro!: nth_equalityI)

lemma run_view_phase: "rv_phase (run_view reduce plan w) = Running"
  by (simp add: run_view_def Let_def)

lemma run_view_delays:
  "map fst (rv_timers (run_view reduce plan w)) = map (row_delay reduce) [0..<length plan] @ [settle_delay reduce (length plan)]"
  "sorted (map (row_delay reduce) [0..<length plan] @ [settle_delay reduce (length plan)])"
proof -
  show "map fst (rv_timers (run_view reduce plan w)) = map (row_delay reduce) [0..<length plan] @ [settle_delay reduce (length plan)]"
    by (auto simp: run_view_timers row_timers_eq nth_enumerate_eq intro!: nth_equalityI)
  have "sorted (map (row_delay reduce) [0..<length plan])"
    by (simp add: sorted_iff_nth_mono row_delay_mono)
  then show "sorted (map (row_delay reduce) [0..<length plan] @ [settle_delay reduce (length plan)])"
    by (auto simp: sorted_append row_delay_settle)
qed

text \<open>Firing the timers of a reachable page, and a page that has completed a run.\<close>

lemma page_reachable_fires:
  "page_reachable reduce p \<Longrightarrow> fire_times k (pg_view p) = Some w \<Longrightarrow> page_reachable reduce (p\<lparr>pg_view := w\<rparr>)"
proof (induction k arbitrary: p)
  case (Suc k)
  then obtain w1 where w1: "fire (pg_view p) = Some w1" "fire_times k w1 = Some w"
    by (auto split: option.splits)
  have "page_reachable reduce (p\<lparr>pg_view := w1\<rparr>)"
    by (rule page_reachable.step [OF Suc.prems(1) page_step.timer [OF w1(1)]])
  from Suc.IH [OF this] w1(2) show ?case by simp
next
  case 0
  then show ?case by (cases p) simp
qed

lemma run_page:
  assumes p: "page_reachable reduce p" "\<not> pg_dirty p" "rv_phase (pg_view p) \<noteq> Running"
  shows "\<exists>q. page_reachable reduce q \<and> \<not> pg_dirty q \<and> rv_phase (pg_view q) =
    (if list_all pf_available (plan_for (va_down (pg_vault p))) then Done else Failed)"
proof -
  let ?plan = "plan_for (va_down (pg_vault p))"
  have "vault_ok (pg_vault p)" using page_reachable_ok [OF p(1)] by (simp add: page_ok_def)
  then obtain v where plan: "vault_plan (pg_vault p) = Inr (?plan, v)"
    using vault_plan_result by blast
  define q where "q = p\<lparr>pg_vault := v, pg_view := run_view reduce ?plan (pg_view p)\<rparr>"
  have "page_reachable reduce q"
    unfolding q_def by (rule page_reachable.step [OF p(1) page_step.run [OF p(3) plan]])
  moreover obtain w where w: "fire_times (length ?plan + 1) (pg_view q) = Some w"
    "rv_phase w = (if list_all pf_available ?plan then Done else Failed)"
    using run_settles [of ?plan reduce "pg_view p"] by (auto simp: q_def simp del: fire_times.simps)
  ultimately have "page_reachable reduce (q\<lparr>pg_view := w\<rparr>)" by (intro page_reachable_fires)
  with w(2) p(2) show ?thesis
    by (intro exI [of _ "q\<lparr>pg_view := w\<rparr>"]) (simp add: q_def)
qed

text \<open>Some nodes are toggled, then a run settles.\<close>

abbreviation toggle_all :: "int list \<Rightarrow> vault \<Rightarrow> vault" where
  "toggle_all ns v \<equiv> foldl (\<lambda>v n. toggleNode n v) v ns"

lemma toggles_page:
  "page_reachable reduce p \<Longrightarrow> pg_dirty p \<Longrightarrow> page_reachable reduce (p\<lparr>pg_vault := toggle_all ns (pg_vault p)\<rparr>)"
proof (induction ns arbitrary: p)
  case (Cons n ns)
  have "page_reachable reduce (p\<lparr>pg_vault := toggleNode n (pg_vault p), pg_dirty := True\<rparr>)"
    by (rule page_reachable.step [OF Cons.prems(1) page_step.toggle])
  from Cons.IH [OF this] Cons.prems(2) show ?case by (cases p) simp
qed simp

lemma toggled_run:
  assumes v: "buildModel = Inr v"
  shows "\<exists>q. page_reachable reduce q \<and> \<not> pg_dirty q \<and> rv_phase (pg_view q) =
    (if list_all pf_available (plan_for (va_down (toggle_all ns v))) then Done else Failed)"
proof -
  define p where "p = \<lparr>pg_vault = toggle_all ns v, pg_view = init_view, pg_dirty = True\<rparr>"
  have "page_reachable reduce p"
    using toggles_page [OF page_reachable.start [OF v]] by (simp add: p_def)
  then have "page_reachable reduce (p\<lparr>pg_view := reset_view (pg_view p), pg_dirty := False\<rparr>)"
    by (rule page_reachable.step [OF _ page_step.effect]) (simp add: p_def)
  from run_page [OF this] show ?thesis by (simp add: p_def reset_view_def)
qed

lemma done_page: "\<exists>p. page_reachable reduce p \<and> \<not> pg_dirty p \<and> rv_phase (pg_view p) = Done"
proof -
  obtain v where v: "buildModel = Inr v" using build_returns by blast
  then have ok: "vault_ok v" "va_down v = []" using vault_ok_build by blast+
  have "replicas_of h \<noteq> {}" for h using replicas_card(1) [of h] by auto
  then have "list_all pf_available (plan_for [])"
    using plan_for_available [OF ok(1)] by (simp add: ok(2) lost_def)
  with toggled_run [OF v, of reduce "[]"] ok(2) show ?thesis by simp
qed

lemma failed_page: "\<exists>p. page_reachable reduce p \<and> \<not> pg_dirty p \<and> rv_phase (pg_view p) = Failed"
proof -
  obtain v where v: "buildModel = Inr v" using build_returns by blast
  then have "va_down v = []" using vault_ok_build by blast
  then have down: "va_down (toggle_all [4, 3, 2, 1, 0] v) = [4, 3, 2, 1, 0]"
    by (simp add: toggleNode_def set_add_def)
  have "replicas_of h \<subseteq> {4, 3, 2, 1, 0}" for h
    using replicas_card(2) [of h] by force
  then have "\<not> pf_available f" if "f \<in> set (plan_for [4, 3, 2, 1, 0])" for f
    using that by (auto simp: plan_for_def planned_available)
  moreover have "plan_for [4, 3, 2, 1, 0] \<noteq> []" using length_plan_for [of "[4, 3, 2, 1, 0]"] by auto
  ultimately have "\<not> list_all pf_available (plan_for [4, 3, 2, 1, 0])"
    by (auto simp: list_all_iff neq_Nil_conv)
  with toggled_run [OF v, of reduce "[4, 3, 2, 1, 0]"] down show ?thesis by simp
qed

end
