(* ===== verification/Views.thy ===== *)
theory Views
  imports RestoreView
begin

text \<open>
  The figures that the components of web/src/components compute from the vault: the
  deduplication panel (ChunksDedup.tsx, Hero.tsx), the placement panel (Distribution.tsx) and
  the counters next to the restore (FailureRestore.tsx).
\<close>

section \<open>The code\<close>

text \<open>primitives.tsx, HashChip: the text of a chip.\<close>

definition chip_text :: "string \<Rightarrow> nat \<Rightarrow> string" where
  "chip_text hash n = take n hash"

text \<open>ChunksDedup.tsx, lines 10 to 16, and Hero.tsx, lines 8 to 10.\<close>

datatype snap = V1 | V2

definition current :: "snap \<Rightarrow> vault \<Rightarrow> snapshot_result" where
  "current snap v = (case snap of V1 \<Rightarrow> va_v1 v | V2 \<Rightarrow> va_v2 v)"

text \<open>\<open>Math.round\<close> of the percentage, half up; \<open>None\<close> is the NaN of a snapshot without chunks.
  The quotient is exact here and a double in the code, which differ by less than \<open>10 ^ -12\<close>.\<close>

definition dedupPct :: "snapshot_stats \<Rightarrow> int option" where
  "dedupPct st =
     (if st_chunks st = 0 then None
      else Some ((200 * int (st_dedupedChunks st) + int (st_chunks st)) div (2 * int (st_chunks st))))"

text \<open>Line 82: the manifest entry whose size a trace row shows.\<close>

definition entry_for :: "file_trace \<Rightarrow> manifest \<Rightarrow> file_entry option" where
  "entry_for ft m = find (\<lambda>f. fe_path f = ft_path ft) (mf_files m)"

text \<open>Lines 136 to 138: the new chunk of the edited file.\<close>

definition edited_chunk :: "vault \<Rightarrow> string" where
  "edited_chunk v =
     (case find (\<lambda>t. ft_path t = ''config/settings.ini'') (sr_trace (va_v2 v)) of
        None \<Rightarrow> []
      | Some t \<Rightarrow> (case find ct_isNew (ft_chunks t) of None \<Rightarrow> [] | Some c \<Rightarrow> ct_hash c))"

text \<open>Distribution.tsx: the selected chunk and its replica set, and the health line.\<close>

definition initial_selection :: "vault \<Rightarrow> string" where
  "initial_selection v = (case uniqueHashes v of [] \<Rightarrow> [] | h # _ \<Rightarrow> h)"

definition shown_placement :: "string \<Rightarrow> vault \<Rightarrow> int list" where
  "shown_placement selected v = (if selected = [] then [] else placementOf selected v)"

definition holds_selected :: "string \<Rightarrow> int \<Rightarrow> vault \<Rightarrow> bool" where
  "holds_selected selected node v = (node \<in> set (shown_placement selected v))"

definition health_line :: "vault \<Rightarrow> string" where
  "health_line v = js_show (va_nodes v) @ ''/'' @ js_show (va_nodes v) @ '' nodes up''"

text \<open>FailureRestore.tsx, lines 24 to 29.\<close>

definition nodesUp :: "vault \<Rightarrow> int" where
  "nodesUp v = va_nodes v - int (length (va_down v))"

definition anyLost :: "vault \<Rightarrow> (bool \<times> vault) throws" where
  "anyLost v = throw_bind (chunksUp v) (\<lambda>(up, v'). Inr (up < va_unique v, v'))"

section \<open>The deduplication panel\<close>

definition blob_file :: source_file where
  "blob_file = \<lparr>sf_path = ''config/blob.dat'', sf_data = text_encode (concat (replicate 200 ''Z''))\<rparr>"

definition log_file :: "string \<Rightarrow> source_file" where
  "log_file path = \<lparr>sf_path = path, sf_data = text_encode (logBody 24)\<rparr>"

definition settings_file :: "string \<Rightarrow> source_file" where
  "settings_file text = \<lparr>sf_path = ''config/settings.ini'', sf_data = text_encode text\<rparr>"

lemma sorted_v1: "js_sort cmp_path makeDataset =
    [blob_file, settings_file ''name = snapvault\<newline>nodes = 5\<newline>replicas = 3\<newline>'',
     log_file ''logs/app.log'', log_file ''logs/app.log.bak'']"
  by (simp add: makeDataset_def Let_def js_sort_def cmp_path_def blob_file_def log_file_def settings_file_def)

lemma sorted_v2: "js_sort cmp_path (editOneFile makeDataset) =
    [blob_file, settings_file ''name = snapvault\<newline>nodes = 7\<newline>replicas = 3\<newline>changed = true\<newline>'',
     log_file ''logs/app.log'', log_file ''logs/app.log.bak'']"
  by (simp add: makeDataset_def editOneFile_def Let_def js_sort_def cmp_path_def blob_file_def log_file_def
      settings_file_def)

lemma demo_file_hashes:
  "file_hashes 64 blob_file = map snd (table_rows [13, 13, 13, 14])"
  "file_hashes 64 (settings_file ''name = snapvault\<newline>nodes = 7\<newline>replicas = 3\<newline>changed = true\<newline>'')
     = map snd (table_rows [12])"
  by (simp_all add: demo_files demo_table_parts demo_rows blob_file_def settings_file_def
      case_prod_beta flip: map_fst_file_writes)

lemma edited_hash: "snd (demo_table ! 12) = ''fcf82dcf5f27557a480ee9fd6c1b82226b980192318bc06a0c7a972cf8492814''"
  by (simp add: demo_table_def)

lemma edited_is_new: "snd (demo_table ! 12) \<notin> set (map snd (table_rows [13, 13, 13, 14])) \<union> set (map snd (table_rows v1_index))"
proof -
  have "card (set (map snd (table_rows [12])) - set (map snd (table_rows ([13, 13, 13, 14] @ v1_index)))) = card ({12} - set ([13, 13, 13, 14] @ v1_index))"
    using rows_hashes [of "[12]" "[13, 13, 13, 14] @ v1_index"] index_range by simp
  also have "\<dots> = 1" by code_simp
  finally have "set (map snd (table_rows [12])) - set (map snd (table_rows ([13, 13, 13, 14] @ v1_index))) \<noteq> {}"
    by (metis card.empty zero_neq_one)
  then show ?thesis by simp
qed

lemma edited_chunk_build:
  assumes "buildModel = Inr v"
  shows "edited_chunk v = snd (demo_table ! 12)"
proof -
  have "sr_trace (va_v2 v) = trace_of 64 (store_hashes (en_store engine1)) (js_sort cmp_path (editOneFile makeDataset))"
    using assms by (auto simp: build_value snapshot_trace_of chunk_sizes)
  then show ?thesis
    using edited_is_new hashes1
    by (simp add: edited_chunk_def sorted_v2 demo_file_hashes blob_file_def [THEN arg_cong [of _ _ sf_path]] settings_file_def [THEN arg_cong [of _ _ sf_path]])
qed

lemma first_uses_old: "set hs \<subseteq> set seen \<Longrightarrow> filter ct_isNew (first_uses seen hs) = []"
  by (induction hs arbitrary: seen) (auto simp: subset_insertI2)

text \<open>In the first snapshot every chunk of the copied log is deduplicated.\<close>

lemma copy_deduplicated:
  assumes "buildModel = Inr v"
  shows "\<exists>t. find (\<lambda>t. ft_path t = ''logs/app.log.bak'') (sr_trace (va_v1 v)) = Some t
    \<and> length (ft_chunks t) = 11 \<and> filter ct_isNew (ft_chunks t) = []"
proof -
  have "sr_trace (va_v1 v) = trace_of 64 [] (js_sort cmp_path makeDataset)"
    using assms by (auto simp: build_value snapshot_trace_of chunk_sizes hashes0)
  moreover have "length (file_hashes 64 (log_file p)) = 11" for p
    by (simp add: demo_files demo_table_parts length_demo_table log_file_def length_file_hashes)
  moreover have "file_hashes 64 (log_file ''logs/app.log.bak'') = file_hashes 64 (log_file ''logs/app.log'')"
    by (simp add: file_hashes_def log_file_def)
  ultimately show ?thesis
    by (simp add: sorted_v1 blob_file_def [THEN arg_cong [of _ _ sf_path]]
        settings_file_def [THEN arg_cong [of _ _ sf_path]] log_file_def [THEN arg_cong [of _ _ sf_path]])
      (rule first_uses_old, auto)
qed

lemma dedup_figures:
  assumes "buildModel = Inr v"
  shows "dedupPct (sr_stats (current V1 v)) = Some 48" "dedupPct (sr_stats (current V2 v)) = Some 96"
  using assms by (auto simp: build_value current_def v1_stats v2_stats dedupPct_def)

section \<open>The placement panel\<close>

text \<open>The health line does not look at the set of failed nodes.\<close>

lemma health_ignores_failures:
  assumes "buildModel = Inr v"
  shows "health_line (toggleNode 0 v) = ''5/5 nodes up'' \<and> nodesUp (toggleNode 0 v) = 4"
  using assms by (auto simp: build_value health_line_def nodesUp_def toggleNode_def set_add_def js_show_eval)

lemma shown_replicas:
  assumes "vault_reachable v" "h \<in> set (uniqueHashes v)"
  shows "shown_placement h v = placementOf h v \<and> card {n \<in> {0..<5}. holds_selected h n v} = 3"
proof -
  have ok: "vault_ok v" by (rule vault_reachable_ok [OF assms(1)])
  have "h \<in> set (chunk_refs v2_manifest)" using assms(2) set_uniqueHashes [OF ok] by simp
  then have "sha256Hex (stored_bytes (en_store engine2) h) = h" by (rule v2_bytes)
  then have "h \<noteq> []" using sha.hash_nonempty by metis
  then have "shown_placement h v = placementOf h v" by (simp add: shown_placement_def)
  moreover have "{n \<in> {0..<5}. holds_selected h n v} = replicas_of h"
    using replicas_card(2) [of h] replicas_vault [OF ok, of h]
    by (auto simp: holds_selected_def \<open>shown_placement h v = placementOf h v\<close>)
  ultimately show ?thesis by (simp add: replicas_card)
qed

section \<open>The restore counters\<close>

text \<open>The warning about lost chunks appears exactly when some chunk has lost every replica.\<close>

lemma anyLost_result:
  assumes "vault_reachable v"
  shows "\<exists>v'. anyLost v = Inr ((\<exists>h \<in> set (uniqueHashes v). lost v h), v')"
proof -
  have ok: "vault_ok v" by (rule vault_reachable_ok [OF assms])
  let ?kept = "filter (\<lambda>h. \<not> lost v h) (uniqueHashes v)"
  have "length (uniqueHashes v) = va_unique v"
    using ok distinct_card [OF distinct_uniqueChunks, of v2_manifest] v2_unique
    by (simp add: uniqueHashes_same vault_ok_def)
  moreover have "length ?kept < length (uniqueHashes v) \<longleftrightarrow> (\<exists>h \<in> set (uniqueHashes v). lost v h)"
    using length_filter_less [of _ "uniqueHashes v" "\<lambda>h. \<not> lost v h"]
    by (metis filter_True less_irrefl)
  ultimately show ?thesis
    using chunksUp_result [OF ok] by (auto simp: anyLost_def)
qed

end
