(* ===== verification/Panels.thy ===== *)
theory Panels
  imports Views
begin

text \<open>
  What the page shows: the texts, flags and lists that FailureRestore.tsx, Distribution.tsx,
  ChunksDedup.tsx and App.tsx compute from the vault and hand to the markup, which Render adds. A render that queries the vault
  returns the vault it leaves, as the queries do.
\<close>

section \<open>FailureRestore.tsx\<close>

datatype tone = Accent | Steel | Danger | Warn

text \<open>primitives.tsx, Stat: a label, a value and the tone of the value.\<close>

record stat =
  sta_label :: string
  sta_value :: string
  sta_tone :: "tone option"

definition show_ratio :: "int \<Rightarrow> int \<Rightarrow> string" where
  "show_ratio a b = js_show a @ ''/'' @ js_show b"

text \<open>Reading past the end of an array of numbers shows as \<open>undefined\<close>.\<close>

definition show_at :: "nat list \<Rightarrow> nat \<Rightarrow> string" where
  "show_at counts i = (if i < length counts then show_nat (counts ! i) else ''undefined'')"

text \<open>Lines 105 to 123: the button of a node.\<close>

record node_button =
  nb_pressed :: bool
  nb_label :: string
  nb_text :: string
  nb_meta :: string

definition node_button_of :: "nat list \<Rightarrow> vault \<Rightarrow> nat \<Rightarrow> node_button" where
  "node_button_of counts v i =
     (let down = (int i \<in> set (va_down v))
      in \<lparr>nb_pressed = down,
          nb_label = ''node '' @ show_nat i @ '' ''
            @ (if down then ''is down, click to bring up'' else ''is up, click to take down''),
          nb_text = ''node '' @ show_nat i,
          nb_meta = show_at counts i @ ''c''\<rparr>)"

text \<open>Lines 129 to 138, with the counters of lines 26 to 29.\<close>

definition restore_figures_of :: "nat \<Rightarrow> vault \<Rightarrow> restore_view \<Rightarrow> stat list" where
  "restore_figures_of up v w =
     (let total = va_unique v;
         anyLost = (up < total);
         verified = verified_count w
     in [\<lparr>sta_label = ''Nodes up'', sta_value = show_ratio (nodesUp v) (va_nodes v),
               sta_tone = Some (if nodesUp v < va_nodes v then Warn else Accent)\<rparr>,
              \<lparr>sta_label = ''Chunks reachable'', sta_value = show_ratio (int up) (int total),
               sta_tone = Some (if anyLost then Danger else Accent)\<rparr>,
              \<lparr>sta_label = ''Verified'', sta_value = show_ratio (int verified) (int total),
               sta_tone = Some Accent\<rparr>,
              \<lparr>sta_label = ''Parallelism'', sta_value = show_nat PARALLEL, sta_tone = Some Steel\<rparr>])"

definition restore_figures :: "page \<Rightarrow> (stat list \<times> vault) throws" where
  "restore_figures p = throw_bind (chunksUp (pg_vault p)) (\<lambda>(up, v).
     Inr (restore_figures_of up v (pg_view p), v))"

text \<open>Lines 141 to 148: the button, with its text and whether it is disabled.\<close>

definition restore_button :: "restore_view \<Rightarrow> string \<times> bool" where
  "restore_button w =
     (if rv_phase w = Running then ''Restoring...'' else ''Run parallel restore'', rv_phase w = Running)"

text \<open>Lines 149 to 154.\<close>

definition lost_note_of :: "nat \<Rightarrow> vault \<Rightarrow> string option" where
  "lost_note_of up v =
     (if up < va_unique v
      then Some (js_show (int (va_unique v) - int up)
             @ '' chunk(s) have lost every replica: restore will fail cleanly'')
      else None)"

definition lost_note :: "vault \<Rightarrow> (string option \<times> vault) throws" where
  "lost_note v = throw_bind (chunksUp v) (\<lambda>(up, v). Inr (lost_note_of up v, v))"

text \<open>Lines 167 to 193: a line of the log.\<close>

datatype mark = Tick | Cross | Dot

record log_line =
  ll_mark :: mark
  ll_chip :: string
  ll_tone :: tone
  ll_text :: string

definition row_line :: "fetch_row \<Rightarrow> log_line" where
  "row_line r =
     \<lparr>ll_mark = (case fr_state r of Verified \<Rightarrow> Tick | Unavailable \<Rightarrow> Cross | Pending \<Rightarrow> Dot),
      ll_chip = chip_text (fr_hash r) 7,
      ll_tone = (if fr_state r = Unavailable then Danger else Accent),
      ll_text = (case fr_state r of
          Pending \<Rightarrow> ''fetching...''
        | Verified \<Rightarrow> ''fetched from node '' @ js_show (fr_node r) @ '', hash verified''
        | Unavailable \<Rightarrow> ''all replicas down: chunk unavailable'')\<rparr>"

text \<open>Lines 198 to 214: the banner of a settled run.\<close>

definition done_banner :: "nat \<Rightarrow> bool \<Rightarrow> string" where
  "done_banner chunks valid =
     ''Node failure survived. All '' @ show_nat chunks @ '' chunks fetched from surviving replicas, ''
     @ ''every hash verified, and the restored tree matches the original byte-for-byte ''
     @ (if valid then ''(integrity confirmed)'' else []) @ ''.''"

definition failed_banner :: string where
  "failed_banner =
     ''Restore aborted cleanly: at least one chunk lost every replica (ErrChunkUnavailable). ''
     @ ''No corrupt file is written. Bring a node back up and restore again.''"

definition banner :: "page \<Rightarrow> (string option \<times> vault) throws" where
  "banner p =
     (case rv_phase (pg_view p) of
        Done \<Rightarrow> throw_bind (restoreValid (pg_vault p)) (\<lambda>(valid, v). Inr (Some (done_banner (va_unique v) valid), v))
      | Failed \<Rightarrow> Inr (Some failed_banner, pg_vault p)
      | _ \<Rightarrow> Inr (None, pg_vault p))"

section \<open>Distribution.tsx\<close>

fun js_join :: "string \<Rightarrow> string list \<Rightarrow> string" where
  "js_join sep [] = []"
| "js_join sep [x] = x"
| "js_join sep (x # y # ys) = x @ sep @ js_join sep (y # ys)"

text \<open>Lines 31 to 40, 46 to 58 and 62 to 65: the figures, the chips and the replica set.\<close>

definition placement_figures :: "vault \<Rightarrow> stat list" where
  "placement_figures v =
     [\<lparr>sta_label = ''Nodes'', sta_value = js_show (va_nodes v), sta_tone = None\<rparr>,
      \<lparr>sta_label = ''Replication'', sta_value = js_show (va_replicas v) @ ''x'', sta_tone = Some Accent\<rparr>,
      \<lparr>sta_label = ''Unique chunks'', sta_value = show_nat (va_unique v), sta_tone = None\<rparr>,
      \<lparr>sta_label = ''Chunk copies'', sta_value = js_show (int (va_unique v) * va_replicas v),
       sta_tone = Some Steel\<rparr>]"

definition chunk_options :: "string \<Rightarrow> vault \<Rightarrow> (string \<times> bool) list" where
  "chunk_options selected v = map (\<lambda>h. (take 6 h, h = selected)) (uniqueHashes v)"

definition replica_text :: "string \<Rightarrow> vault \<Rightarrow> string" where
  "replica_text selected v = js_join '', '' (map (\<lambda>n. CHR ''n'' # js_show n) (shown_placement selected v))"

text \<open>Lines 69 to 99: the card of each node. A cell is hot when it is the first one of a node
  that holds the selected chunk.\<close>

record node_card =
  nc_serving :: bool
  nc_name :: string
  nc_meta :: string
  nc_cells :: "bool list"

definition node_card_of :: "nat list \<Rightarrow> string \<Rightarrow> vault \<Rightarrow> nat \<Rightarrow> node_card" where
  "node_card_of counts selected v i =
     (let holds = holds_selected selected (int i) v
      in \<lparr>nc_serving = holds, nc_name = ''node '' @ show_nat i,
          nc_meta = show_at counts i @ '' chunks '' @ (if holds then ''(holds selected)'' else []),
          nc_cells = map (\<lambda>k. holds \<and> k = 0) [0..<(if i < length counts then counts ! i else 0)]\<rparr>)"

definition node_cards :: "string \<Rightarrow> vault \<Rightarrow> (node_card list \<times> vault) throws" where
  "node_cards selected v = throw_bind (nodeChunkCounts v) (\<lambda>(counts, v).
     Inr (map (node_card_of counts selected v) [0..<nat (va_nodes v)], v))"

section \<open>ChunksDedup.tsx\<close>

text \<open>Lines 54 to 64; the percentage of no chunks is NaN.\<close>

definition dedup_figures_of :: "snapshot_stats \<Rightarrow> stat list" where
  "dedup_figures_of st =
     [\<lparr>sta_label = ''Files'', sta_value = show_nat (st_files st), sta_tone = None\<rparr>,
      \<lparr>sta_label = ''Chunk refs'', sta_value = show_nat (st_chunks st), sta_tone = None\<rparr>,
      \<lparr>sta_label = ''New chunks'', sta_value = show_nat (st_newChunks st), sta_tone = Some Accent\<rparr>,
      \<lparr>sta_label = ''Deduplicated'', sta_value = show_nat (st_dedupedChunks st), sta_tone = Some Steel\<rparr>,
      \<lparr>sta_label = ''Dedup ratio'',
       sta_value = (case dedupPct st of None \<Rightarrow> ''NaN'' | Some p \<Rightarrow> js_show p) @ ''%'', sta_tone = Some Accent\<rparr>]"

text \<open>Lines 81 to 107: the row of each file and the cell of each chunk. A size of \<open>None\<close> is a
  trace row without a manifest entry.\<close>

record chunk_cell =
  cc_new :: bool
  cc_title :: string
  cc_text :: string

record file_row =
  fw_path :: string
  fw_size :: "nat option"
  fw_count :: nat
  fw_cells :: "chunk_cell list"

definition chunk_cell_of :: "chunk_trace \<Rightarrow> chunk_cell" where
  "chunk_cell_of c =
     \<lparr>cc_new = ct_isNew c,
      cc_title = ct_hash c @ '' ('' @ (if ct_isNew c then ''newly stored'' else ''deduplicated'') @ '')'',
      cc_text = take 6 (ct_hash c)\<rparr>"

definition file_row_of :: "snapshot_result \<Rightarrow> file_trace \<Rightarrow> file_row" where
  "file_row_of r ft =
     \<lparr>fw_path = ft_path ft, fw_size = map_option fe_size (entry_for ft (sr_manifest r)),
      fw_count = length (ft_chunks ft), fw_cells = map chunk_cell_of (ft_chunks ft)\<rparr>"

definition file_rows :: "snapshot_result \<Rightarrow> file_row list" where
  "file_rows r = map (file_row_of r) (sr_trace r)"

section \<open>App.tsx\<close>

text \<open>Lines 14 to 32: what the self-check prints to the console, under the title of its group.\<close>

definition console_lines :: "self_check_report \<Rightarrow> string list" where
  "console_lines r = ''snapvault sim self-check'' # sc_lines r @
     [''dedup: '' @ show_bool (sc_dedupOk r) @ '' | incremental: '' @ show_bool (sc_incrementalOk r)
      @ '' | survived node failure: '' @ show_bool (sc_survivedFailureOk r)
      @ '' | clean failure: '' @ show_bool (sc_cleanFailureOk r)]"

section \<open>The panel of the restore\<close>

text \<open>With no change waiting for its effect, the rows of a settled run come from the current
  plan.\<close>

lemma settled_rows:
  assumes "page_ok p" "\<not> pg_dirty p" "rv_phase (pg_view p) \<in> {Done, Failed}"
  shows "list_all2 row_matches (rv_rows (pg_view p)) (plan_for (va_down (pg_vault p)))"
    "list_all resolved (rv_rows (pg_view p))"
    "rv_phase (pg_view p) = Done \<longleftrightarrow> list_all pf_available (plan_for (va_down (pg_vault p)))"
  using assms by (auto simp: page_ok_def view_ok_def)

text \<open>A planned fetch names a node that is not in the set of failed ones.\<close>

lemma planned_node: "pf_available (planned down h) \<Longrightarrow> pf_node (planned down h) \<in> replicas_of h - set down"
proof -
  assume "pf_available (planned down h)"
  then obtain n where n: "find (\<lambda>n. n \<notin> set down) (placement h demo_cluster) = Some n"
    by (auto simp: planned_def split: option.splits)
  then have "n \<in> set (placement h demo_cluster)" "n \<notin> set down" by (auto simp: find_Some_iff)
  then show ?thesis by (simp add: planned_def n replicas_of_def)
qed

lemma resolved_line:
  assumes "row_matches r (planned down h)" "resolved r"
  shows "row_line r =
    (if replicas_of h \<subseteq> set down
     then \<lparr>ll_mark = Cross, ll_chip = take 7 h, ll_tone = Danger,
           ll_text = ''all replicas down: chunk unavailable''\<rparr>
     else \<lparr>ll_mark = Tick, ll_chip = take 7 h, ll_tone = Accent,
           ll_text = ''fetched from node '' @ js_show (pf_node (planned down h)) @ '', hash verified''\<rparr>)"
proof -
  have "fr_hash r = h" "fr_node r = pf_node (planned down h)" "fr_available r = pf_available (planned down h)"
    using assms(1) by (simp_all add: row_matches_def planned_def split: option.split_asm)
  with assms(2) show ?thesis
    by (simp add: row_line_def chip_text_def resolved_def planned_available)
qed

lemma settled_lines:
  assumes "page_ok p" "\<not> pg_dirty p" "rv_phase (pg_view p) \<in> {Done, Failed}"
  shows "map row_line (rv_rows (pg_view p)) =
    map (\<lambda>h. if lost (pg_vault p) h
       then \<lparr>ll_mark = Cross, ll_chip = take 7 h, ll_tone = Danger,
             ll_text = ''all replicas down: chunk unavailable''\<rparr>
       else \<lparr>ll_mark = Tick, ll_chip = take 7 h, ll_tone = Accent,
             ll_text = ''fetched from node '' @ js_show (pf_node (planned (va_down (pg_vault p)) h)) @ '', hash verified''\<rparr>)
      (uniqueHashes (pg_vault p))"
proof -
  have v: "vault_ok (pg_vault p)" using assms(1) by (simp add: page_ok_def)
  have "list_all2 (\<lambda>r h. row_matches r (planned (va_down (pg_vault p)) h) \<and> resolved r)
      (rv_rows (pg_view p)) (uniqueHashes (pg_vault p))"
    using settled_rows(1,2) [OF assms]
    by (auto simp: plan_for_def uniqueHashes_same [OF v] list_all2_conv_all_nth list_all_length)
  then show ?thesis
    by (intro nth_equalityI)
      (auto simp: list_all2_conv_all_nth lost_def resolved_line)
qed

lemma list_all2_map_eq: "map f xs = map g ys \<Longrightarrow> list_all2 (\<lambda>x y. f x = g y) xs ys"
  by (induction xs ys rule: list_induct2') auto

lemma planned_up:
  "\<not> lost v h \<Longrightarrow> pf_node (planned (va_down v) h) \<in> replicas_of h \<and> pf_node (planned (va_down v) h) \<notin> set (va_down v)"
  using planned_node [of "va_down v" h] by (simp add: planned_available lost_def)

lemma settled_crosses:
  assumes "page_ok p" "\<not> pg_dirty p" "rv_phase (pg_view p) \<in> {Done, Failed}"
  shows "length (filter (\<lambda>r. ll_mark (row_line r) = Cross) (rv_rows (pg_view p)))
    = length (filter (lost (pg_vault p)) (uniqueHashes (pg_vault p)))"
proof -
  have "length (filter (\<lambda>r. ll_mark (row_line r) = Cross) (rv_rows (pg_view p)))
      = length (filter (\<lambda>l. ll_mark l = Cross) (map row_line (rv_rows (pg_view p))))"
    by (simp add: filter_map comp_def)
  also have "\<dots> = length (filter (lost (pg_vault p)) (uniqueHashes (pg_vault p)))"
    unfolding settled_lines [OF assms] by (simp add: filter_map comp_def if_distrib [of ll_mark] cong: if_cong)
  finally show ?thesis .
qed

lemma lost_note_result:
  assumes "vault_ok v"
  shows "\<exists>v'. lost_note v = Inr (
    let k = length (filter (lost v) (uniqueHashes v))
    in if k = 0 then None
       else Some (js_show (int k) @ '' chunk(s) have lost every replica: restore will fail cleanly''), v')"
proof -
  let ?kept = "filter (\<lambda>h. \<not> lost v h) (uniqueHashes v)" and ?gone = "filter (lost v) (uniqueHashes v)"
  obtain v0 where v0: "sync v = Inr v0" "vault_ok v0" using sync_result [OF assms] by blast
  obtain v' where v': "chunksUp v = Inr (length ?kept, v')" using chunksUp_result [OF assms] by blast
  have "va_unique v' = 14"
    using v' v0 by (simp add: chunksUp_def vault_ok_def)
  moreover have "length ?gone + length ?kept = 14"
    using sum_length_filter_compl [of "lost v" "uniqueHashes v"] distinct_card [OF distinct_uniqueChunks, of v2_manifest]
    by (simp add: uniqueHashes_same [OF assms] v2_unique)
  ultimately have "int (va_unique v') - int (length ?kept) = int (length ?gone)"
    "length ?kept < va_unique v' \<longleftrightarrow> length ?gone \<noteq> 0" by linarith+
  then show ?thesis by (simp add: lost_note_def lost_note_of_def v' Let_def)
qed

lemma banner_done:
  assumes "page_ok p" "\<not> pg_dirty p" "rv_phase (pg_view p) = Done"
  shows "\<exists>v. banner p = Inr (Some (done_banner 14 True), v)"
proof -
  have ok: "vault_ok (pg_vault p)" using assms(1) by (simp add: page_ok_def)
  obtain v where v: "restoreValid (pg_vault p) = Inr (True, v)"
    using page_settled [OF assms(1,2)] assms(3) by auto
  obtain v0 where v0: "sync (pg_vault p) = Inr v0" "vault_ok v0" using sync_result [OF ok] by blast
  have "engine_restore ''v2'' (va_engine v0) = Inr (js_sort cmp_path (editOneFile makeDataset))"
    using v0(2) v2_restored by (simp add: vault_ok_def)
  with v have "v = v0" by (simp add: restoreValid_def v0(1) Let_def split: if_splits)
  with v v0(2) assms(3) show ?thesis by (simp add: banner_def vault_ok_def)
qed

lemma figures_done:
  assumes "page_ok p" "\<not> pg_dirty p" "rv_phase (pg_view p) = Done"
  shows "\<exists>figs v. restore_figures p = Inr (figs, v)
    \<and> map sta_value (tl figs) = [''14/14'', ''14/14'', ''4''] \<and> sta_tone (figs ! 1) = Some Accent"
proof -
  have ok: "vault_ok (pg_vault p)" using assms(1) by (simp add: page_ok_def)
  have none: "\<not> lost (pg_vault p) h" if "h \<in> set (uniqueHashes (pg_vault p))" for h
    using page_settled [OF assms(1,2)] assms(3) restoreValid_result [OF ok] that by auto
  have "length (uniqueHashes (pg_vault p)) = 14"
    using distinct_card [OF distinct_uniqueChunks, of v2_manifest] by (simp add: uniqueHashes_same [OF ok] v2_unique)
  with none obtain v where v: "chunksUp (pg_vault p) = Inr (14, v)"
    using chunksUp_result [OF ok] by (auto simp: filter_True)
  obtain v0 where "sync (pg_vault p) = Inr v0" "vault_ok v0" using sync_result [OF ok] by blast
  with v have "va_unique v = 14" by (simp add: chunksUp_def vault_ok_def)
  with page_done_rows(3) [OF assms(1,3)] show ?thesis
    by (simp add: restore_figures_def restore_figures_of_def v Let_def show_ratio_def PARALLEL_def js_show_eval)
qed

section \<open>The placement panel\<close>

lemma first_cell: "0 < k \<Longrightarrow> length (filter (\<lambda>j. j = 0) [0..<k]) = Suc 0"
proof -
  assume "0 < k"
  then have "[0..<k] = 0 # [1..<k]" by (simp add: upt_conv_Cons)
  moreover have "filter (\<lambda>j. j = 0) [1..<k] = []" by (auto simp: filter_empty_conv)
  ultimately show ?thesis by simp
qed

lemma node_counts_sum:
  assumes "vault_ok v"
  shows "(\<Sum>i\<leftarrow>[0..<5]. length (filter (\<lambda>h. int i \<in> replicas_of h) (uniqueHashes v))) = 42"
proof -
  let ?counts = "map (\<lambda>i. length (filter (\<lambda>h. int i \<in> replicas_of h) (uniqueHashes v))) [0..<5]"
  obtain v' where v': "nodeChunkCounts v = Inr (?counts, v')"
    using nodeChunkCounts_result [OF assms] by blast
  obtain w where w: "sync v = Inr w" "vault_ok w" using sync_result [OF assms] by blast
  with v' have "map ns_chunks (status (va_cluster w)) = ?counts" by (auto simp: nodeChunkCounts_def)
  then have "?counts = map ns_chunks (status (va_cluster w))" ..
  also have "\<dots> = map ns_chunks (status loaded_cluster)"
    using w(2) by (simp add: status_chunks vault_ok_def loaded_frame)
  finally show ?thesis by (simp only: loaded_copies)
qed

lemma node_cards_result:
  assumes ok: "vault_ok v" and h: "h \<in> set (uniqueHashes v)"
  shows "\<exists>cards v'. node_cards h v = Inr (cards, v') \<and> length cards = 5
    \<and> (\<forall>i < 5. nc_serving (cards ! i) = (int i \<in> replicas_of h))
    \<and> sum_list (map (length \<circ> nc_cells) cards) = 42
    \<and> length (filter id (concat (map nc_cells cards))) = 3"
proof -
  define count where "count i = length (filter (\<lambda>h. int i \<in> replicas_of h) (uniqueHashes v))" for i
  obtain v' where v': "nodeChunkCounts v = Inr (map count [0..<5], v')"
    using nodeChunkCounts_result [OF ok] unfolding count_def by blast
  obtain w where w: "sync v = Inr w" "vault_ok w" using sync_result [OF ok] by blast
  with v' have v'_ok: "vault_ok v'" by (simp add: nodeChunkCounts_def)
  have "h \<in> set (chunk_refs v2_manifest)" using h set_uniqueHashes [OF ok] by simp
  then have "sha256Hex (stored_bytes (en_store engine2) h) = h" by (rule v2_bytes)
  then have "h \<noteq> []" using sha.hash_nonempty by metis
  then have holds: "holds_selected h n v' \<longleftrightarrow> n \<in> replicas_of h" for n
    by (simp add: holds_selected_def shown_placement_def replicas_vault [OF v'_ok])
  define card_of where "card_of i = \<lparr>nc_serving = (int i \<in> replicas_of h), nc_name = ''node '' @ show_nat i,
      nc_meta = show_at (map count [0..<5]) i @ '' chunks ''
        @ (if int i \<in> replicas_of h then ''(holds selected)'' else []),
      nc_cells = map (\<lambda>k. int i \<in> replicas_of h \<and> k = 0) [0..<count i]\<rparr>" for i
  have cards: "node_cards h v = Inr (map card_of [0..<5], v')"
    using v'_ok by (simp add: node_cards_def node_card_of_def v' holds card_of_def vault_ok_def)
  have "0 < count i" if "int i \<in> replicas_of h" for i
    using that h by (auto simp: count_def filter_empty_conv)
  then have hot: "length (filter id (nc_cells (card_of i))) = of_bool (int i \<in> replicas_of h)" for i
    by (cases "int i \<in> replicas_of h") (simp_all add: card_of_def first_cell filter_map comp_def)
  have "length (filter id (concat (map nc_cells (map card_of [0..<5]))))
      = (\<Sum>i\<leftarrow>[0..<5]. of_bool (int i \<in> replicas_of h))"
    by (simp add: filter_concat length_concat comp_def hot)
  also have "\<dots> = (\<Sum>i \<in> {0..<5}. of_bool (int i \<in> replicas_of h))"
    by (simp add: interv_sum_list_conv_sum_set_nat)
  also have "\<dots> = card {i \<in> {0..<5}. int i \<in> replicas_of h}"
    by (simp add: of_bool_def flip: sum.inter_filter)
  also have "\<dots> = card (int ` {i \<in> {0..<5}. int i \<in> replicas_of h})"
    by (rule card_image [symmetric]) simp
  also have "int ` {i \<in> {0..<5}. int i \<in> replicas_of h} = replicas_of h"
  proof (intro equalityI subsetI)
    fix n assume n: "n \<in> replicas_of h"
    then have "0 \<le> n" "n < 5" using replicas_card(2) [of h] by auto
    with n show "n \<in> int ` {i \<in> {0..<5}. int i \<in> replicas_of h}"
      by (intro image_eqI [of _ _ "nat n"]) simp_all
  qed auto
  finally have hot_sum: "length (filter id (concat (map nc_cells (map card_of [0..<5])))) = 3"
    by (simp only: replicas_card)
  have "sum_list (map (length \<circ> nc_cells) (map card_of [0..<5])) = 42"
    using node_counts_sum [OF ok] by (simp add: card_of_def comp_def count_def)
  with hot_sum show ?thesis
    by (intro exI [of _ "map card_of [0..<5]"] exI [of _ v'] conjI allI impI cards)
      (simp_all add: card_of_def)
qed

section \<open>The deduplication panel\<close>

lemma count_first_uses:
  "length (filter ct_isNew (first_uses seen hs)) = card (set hs - set seen)"
proof (induction hs arbitrary: seen)
  case (Cons h hs)
  have "set (h # hs) - set seen = (if h \<in> set seen then {} else {h}) \<union> (set hs - set (h # seen))"
    by auto
  then show ?case by (simp add: Cons.IH)
qed simp

lemma file_rows_cells:
  "concat (map fw_cells (file_rows r)) = map chunk_cell_of (concat (map ft_chunks (sr_trace r)))"
  "map fw_count (file_rows r) = map (length \<circ> fw_cells) (file_rows r)"
  by (simp_all add: file_rows_def file_row_of_def map_concat comp_def)

lemma trace_paths: "map ft_path (trace_of cs seen fs) = map sf_path fs"
  by (induction fs arbitrary: seen) simp_all

lemma entry_by_path:
  assumes "distinct (map sf_path fs)" "f \<in> set fs"
  shows "find (\<lambda>fe. fe_path fe = sf_path f) (map (entry_of cs) fs) = Some (entry_of cs f)"
  using assms
proof (induction fs)
  case (Cons g fs)
  then show ?case by (cases "f = g") (force simp: entry_of_def)+
qed simp

lemma file_rows_files:
  assumes "distinct (map sf_path files)"
  shows "map (\<lambda>row. (fw_path row, fw_size row)) (file_rows (fst (snapshot name files e)))
    = map (\<lambda>f. (sf_path f, Some (length (sf_data f)))) (sort_key sf_path files)"
proof -
  let ?cs = "en_chunkSize e" and ?fs = "js_sort cmp_path files"
  have fs: "?fs = sort_key sf_path files" by (rule sort_files [OF assms])
  have dist: "distinct (map sf_path ?fs)"
    using assms by (simp add: distinct_map)
  have "map (\<lambda>row. (fw_path row, fw_size row)) (file_rows (fst (snapshot name files e)))
      = map (\<lambda>path. (path, map_option fe_size (find (\<lambda>fe. fe_path fe = path) (map (entry_of ?cs) ?fs))))
          (map ft_path (trace_of ?cs (store_hashes (en_store e)) ?fs))"
    by (simp add: file_rows_def file_row_of_def entry_for_def snapshot_trace_of snapshot_manifest manifest_of_def comp_def)
  also have "\<dots> = map (\<lambda>f. (sf_path f, Some (length (sf_data f)))) ?fs"
    unfolding trace_paths using entry_by_path [OF dist]
    by (simp add: entry_of_def [THEN arg_cong [of _ _ fe_size]])
  finally show ?thesis by (simp only: fs)
qed

lemma file_rows_counts:
  fixes name :: string and files :: "source_file list" and e :: engine
  assumes "store_ok (en_store e)"
  defines "r \<equiv> fst (snapshot name files e)"
  shows "length (filter cc_new (concat (map fw_cells (file_rows r)))) = st_newChunks (sr_stats r)"
    and "length (filter (\<lambda>c. \<not> cc_new c) (concat (map fw_cells (file_rows r)))) = st_dedupedChunks (sr_stats r)"
    and "sum_list (map fw_count (file_rows r)) = st_chunks (sr_stats r)"
proof -
  let ?cs = "en_chunkSize e"
  let ?cells = "concat (map fw_cells (file_rows r))" and ?refs = "source_refs ?cs files"
  let ?uses = "first_uses (store_hashes (en_store e)) (source_refs ?cs (js_sort cmp_path files))"
  have cells: "?cells = map chunk_cell_of ?uses"
    by (simp only: file_rows_cells) (simp add: r_def snapshot_trace_of trace_of_refs)
  have refs: "set (source_refs ?cs (js_sort cmp_path files)) = set ?refs"
    by (simp add: source_refs_def)
  have len: "length ?cells = length ?refs"
    by (simp add: cells length_source_refs_sort)
  have new: "length (filter cc_new ?cells) = card (set ?refs - set (store_hashes (en_store e)))"
    unfolding cells by (simp add: filter_map comp_def chunk_cell_of_def count_first_uses refs)
  note st = stats_snapshot(1) [OF assms(1), where files = files and name = name, folded r_def]
  show "length (filter cc_new ?cells) = st_newChunks (sr_stats r)" by (simp add: new st)
  show "length (filter (\<lambda>c. \<not> cc_new c) ?cells) = st_dedupedChunks (sr_stats r)"
    using sum_length_filter_compl [of cc_new ?cells] by (simp add: new len st)
  show "sum_list (map fw_count (file_rows r)) = st_chunks (sr_stats r)"
    using len by (simp add: file_rows_cells(2) length_concat comp_def st)
qed

end
