(* ===== verification/Hero_Ring.thy ===== *)
theory Hero_Ring
  imports Complex_Main
begin

text \<open>
  Hero.tsx, lines 55 to 68: where the nodes stand on the ring. The code computes in doubles; here
  the same formula is over the real numbers. The nodes stand on one circle, the first one at
  its top, no two at the same place, and all of them inside the drawing of 340 by 340.
\<close>

definition ring_spot :: "nat \<Rightarrow> nat \<Rightarrow> real \<times> real" where
  "ring_spot n i =
     (let R = 128;
          center = 170;
          a = real i / real n * pi * 2 - pi / 2
      in (center + R * cos a, center + R * sin a))"

lemma ring_spot_circle: "ring_spot n i = (x, y) \<Longrightarrow> (x - 170)\<^sup>2 + (y - 170)\<^sup>2 = 128\<^sup>2"
proof -
  define a where "a = real i / real n * pi * 2 - pi / 2"
  assume "ring_spot n i = (x, y)"
  then have "x - 170 = 128 * cos a" "y - 170 = 128 * sin a" by (auto simp: ring_spot_def Let_def a_def)
  then have "(x - 170)\<^sup>2 + (y - 170)\<^sup>2 = 128\<^sup>2 * ((cos a)\<^sup>2 + (sin a)\<^sup>2)"
    by (simp add: power_mult_distrib distrib_left del: sin_cos_squared_add2)
  then show ?thesis by simp
qed

lemma ring_spot_top: "ring_spot n 0 = (170, 42)"
  by (simp add: ring_spot_def)

lemma ring_spot_box: "ring_spot n i = (x, y) \<Longrightarrow> 42 \<le> x \<and> x \<le> 298 \<and> 42 \<le> y \<and> y \<le> 298"
proof -
  let ?a = "real i / real n * pi * 2 - pi / 2"
  assume "ring_spot n i = (x, y)"
  then have "x = 170 + 128 * cos ?a" "y = 170 + 128 * sin ?a" by (simp_all add: ring_spot_def Let_def)
  moreover have "- 1 \<le> cos ?a" "cos ?a \<le> 1" "- 1 \<le> sin ?a" "sin ?a \<le> 1" by simp_all
  ultimately show ?thesis by linarith
qed

lemma ring_spot_inj: "inj_on (ring_spot n) {..<n}"
proof (rule inj_onI)
  fix i j assume ij: "i \<in> {..<n}" "j \<in> {..<n}" "ring_spot n i = ring_spot n j"
  let ?a = "\<lambda>i. real i / real n * pi * 2 - pi / 2"
  have "sin (?a i) = sin (?a j) \<and> cos (?a i) = cos (?a j)"
    using ij(3) by (simp add: ring_spot_def Let_def)
  then obtain k :: int where "?a i = ?a j + 2 * pi * k" by (auto simp: sin_cos_eq_iff)
  then have "2 * pi * (real i / real n) = 2 * pi * (real j / real n + k)" by (simp add: algebra_simps)
  then have "real i / real n = real j / real n + k" by (simp only: mult_cancel_left) simp
  moreover have "0 < real n" using ij(1) by auto
  ultimately have "real i = real j + k * real n" by (simp add: field_simps)
  then have eq: "int i = int j + k * int n" by (metis (mono_tags) of_int_add of_int_eq_iff of_int_mult of_int_of_nat_eq)
  have "k = 0"
  proof (rule ccontr)
    assume "k \<noteq> 0"
    then have "1 * int n \<le> \<bar>k\<bar> * int n" by (intro mult_right_mono) auto
    then have "int n \<le> \<bar>int i - int j\<bar>" using eq by (simp add: abs_mult)
    with ij show False by auto
  qed
  with eq show "i = j" by simp
qed

end
