(* ===== verification/Markup.thy ===== *)
theory Markup
  imports Panels Hero_Ring
begin

text \<open>
  The elements that a render builds, as a tree, and the building blocks of
  components/primitives.tsx. Inline styles and the animation properties of the motion library
  are left out, except a colour or a position that the code computes. A character reference of the markup is
  kept as its number; \<open>Keyed\<close> is an array child, whose members carry React keys.
\<close>

section \<open>Elements\<close>

text \<open>What a click does, by the handler it is bound to.\<close>

datatype action =
    ToggleNode nat
  | RecoverNodes
  | RunRestore
  | ShowSnap snap
  | SelectChunk string

datatype attr =
    Id string
  | ClassName string
  | Href string
  | LabelledBy string
  | Colour string
  | Position real real
  | Disabled bool
  | OnClick action
  | Attr string string

datatype html =
    Text string
  | Code nat
  | Nothing
  | El string "attr list" "html list"
  | Keyed "(string \<times> html) list"

fun elements :: "html \<Rightarrow> (string \<times> attr list) list" where
  "elements (El tag attrs kids) = (tag, attrs) # concat (map elements kids)"
| "elements (Keyed kids) = concat (map (\<lambda>(_, t). elements t) kids)"
| "elements _ = []"

text \<open>The keys of every array child.\<close>

fun key_lists :: "html \<Rightarrow> string list list" where
  "key_lists (El tag attrs kids) = concat (map key_lists kids)"
| "key_lists (Keyed kids) = map fst kids # concat (map (\<lambda>(_, t). key_lists t) kids)"
| "key_lists _ = []"

fun text_content :: "html \<Rightarrow> string" where
  "text_content (Text s) = s"
| "text_content (El tag attrs kids) = concat (map text_content kids)"
| "text_content (Keyed kids) = concat (map (\<lambda>(_, t). text_content t) kids)"
| "text_content _ = []"

text \<open>The elements with a class attribute.\<close>

fun by_class :: "string \<Rightarrow> html \<Rightarrow> html list" where
  "by_class c (El tag attrs kids) =
     (if ClassName c \<in> set attrs then [El tag attrs kids] else []) @ concat (map (by_class c) kids)"
| "by_class c (Keyed kids) = concat (map (\<lambda>(_, t). by_class c t) kids)"
| "by_class c _ = []"

fun attr_id :: "attr \<Rightarrow> string list" where
  "attr_id (Id i) = [i]"
| "attr_id _ = []"

text \<open>The element_ids that an element refers to: a label, or a link into the page.\<close>

fun attr_refs :: "attr \<Rightarrow> string list" where
  "attr_refs (LabelledBy i) = [i]"
| "attr_refs (Href u) = (case u of c # i \<Rightarrow> if c = CHR ''#'' then [i] else [] | [] \<Rightarrow> [])"
| "attr_refs _ = []"

fun attr_click :: "attr \<Rightarrow> action list" where
  "attr_click (OnClick a) = [a]"
| "attr_click _ = []"

definition element_ids :: "html \<Rightarrow> string list" where
  "element_ids t = concat (map (\<lambda>(_, attrs). concat (map attr_id attrs)) (elements t))"

definition element_refs :: "html \<Rightarrow> string list" where
  "element_refs t = concat (map (\<lambda>(_, attrs). concat (map attr_refs attrs)) (elements t))"

text \<open>The clicks that a user can make: a disabled button has none.\<close>

definition clicks :: "html \<Rightarrow> action list" where
  "clicks t = concat (map (\<lambda>(_, attrs). if Disabled True \<in> set attrs then [] else concat (map attr_click attrs)) (elements t))"

lemma elements_simps [simp]: "element_ids (Text s) = []" "element_ids (Code n) = []" "element_ids Nothing = []"
  "element_refs (Text s) = []" "element_refs (Code n) = []" "element_refs Nothing = []"
  "clicks (Text s) = []" "clicks (Code n) = []" "clicks Nothing = []"
  by (simp_all add: element_ids_def element_refs_def clicks_def)

lemma concat_map_concat: "concat (map f (concat (map g xs))) = concat (map (\<lambda>x. concat (map f (g x))) xs)"
  by (induction xs) auto

lemma element_ids_El [simp]: "element_ids (El tag attrs kids) = concat (map attr_id attrs) @ concat (map element_ids kids)"
  by (simp add: element_ids_def [abs_def] concat_map_concat)

lemma element_refs_El [simp]: "element_refs (El tag attrs kids) = concat (map attr_refs attrs) @ concat (map element_refs kids)"
  by (simp add: element_refs_def [abs_def] concat_map_concat)

lemma clicks_El [simp]: "clicks (El tag attrs kids) =
    (if Disabled True \<in> set attrs then [] else concat (map attr_click attrs)) @ concat (map clicks kids)"
  by (simp add: clicks_def [abs_def] concat_map_concat)

lemma Keyed_simps [simp]:
  "element_ids (Keyed kids) = concat (map (\<lambda>(_, t). element_ids t) kids)"
  "element_refs (Keyed kids) = concat (map (\<lambda>(_, t). element_refs t) kids)"
  "clicks (Keyed kids) = concat (map (\<lambda>(_, t). clicks t) kids)"
  by (simp_all add: element_ids_def [abs_def] element_refs_def [abs_def] clicks_def [abs_def] concat_map_concat split_def)

text \<open>A page that the browser and React accept: no id twice, every reference resolves, and the
  keys of an array differ.\<close>

definition well_formed :: "html \<Rightarrow> bool" where
  "well_formed t \<longleftrightarrow> distinct (element_ids t) \<and> set (element_refs t) \<subseteq> set (element_ids t) \<and> list_all distinct (key_lists t)"

section \<open>primitives.tsx\<close>

datatype chip_tone = ChipAccent | ChipSteel | ChipDim | ChipDanger

definition chip_colour :: "chip_tone \<Rightarrow> string" where
  "chip_colour tone =
     (if tone = ChipSteel then ''var(--steel-bright)''
      else if tone = ChipDim then ''var(--ink-faint)''
      else if tone = ChipDanger then ''var(--danger)''
      else ''var(--accent)'')"

text \<open>The default title of a chip is the whole hash.\<close>

definition hash_chip :: "string \<Rightarrow> nat \<Rightarrow> chip_tone \<Rightarrow> string option \<Rightarrow> html" where
  "hash_chip hash n tone title =
     El ''span'' [ClassName ''mono'', Attr ''title'' (case title of None \<Rightarrow> hash | Some t \<Rightarrow> t), Colour (chip_colour tone)]
       [Text (chip_text hash n)]"

definition stat_colour :: "tone option \<Rightarrow> string" where
  "stat_colour tone =
     (if tone = Some Steel then ''var(--steel-bright)''
      else if tone = Some Danger then ''var(--danger)''
      else if tone = Some Warn then ''var(--warn)''
      else ''var(--accent-bright)'')"

definition stat_view :: "stat \<Rightarrow> string option \<Rightarrow> html" where
  "stat_view s sub =
     El ''div'' []
       [El ''div'' [] [Text (sta_label s)],
        El ''div'' [ClassName ''mono'', Colour (stat_colour (sta_tone s))] [Text (sta_value s)],
        (case sub of None \<Rightarrow> Nothing | Some x \<Rightarrow> if x = [] then Nothing else El ''div'' [] [Text x])]"

definition section_view :: "string \<Rightarrow> string \<Rightarrow> string \<Rightarrow> html list \<Rightarrow> html list \<Rightarrow> html" where
  "section_view i eyebrow title lede children =
     El ''section'' [Id i, ClassName ''sv-section'', LabelledBy (i @ ''-h'')]
       (El ''div'' [ClassName ''sv-section-head'']
          [El ''span'' [ClassName ''sv-eyebrow mono''] [Text eyebrow],
           El ''h2'' [Id (i @ ''-h'')] [Text title],
           (if lede = [] then Nothing else El ''p'' [ClassName ''sv-lede''] lede)]
        # children)"

definition button_view :: "string \<Rightarrow> action \<Rightarrow> bool \<Rightarrow> string \<Rightarrow> html list \<Rightarrow> html" where
  "button_view variant act disabled ariaLabel children =
     El ''button'' [ClassName (''sv-btn sv-btn-'' @ variant), OnClick act, Disabled disabled, Attr ''aria-label'' ariaLabel]
       children"

end
