(* ===== verification/Render.thy ===== *)
theory Render
  imports Markup
begin

text \<open>
  The render functions of Hero.tsx, ChunksDedup.tsx, Distribution.tsx, FailureRestore.tsx,
  Footer.tsx, App.tsx and main.tsx, each from its properties and state to its tree of elements. A render
  that queries the vault returns the vault it leaves; a query that throws makes it throw.
\<close>

section \<open>Hero.tsx\<close>

definition show_pct :: "snapshot_stats \<Rightarrow> string" where
  "show_pct st = (case dedupPct st of None \<Rightarrow> ''NaN'' | Some p \<Rightarrow> js_show p) @ ''%''"

text \<open>Lines 55 to 102.\<close>

definition vault_ring :: "nat \<Rightarrow> bool \<Rightarrow> html" where
  "vault_ring n reduce =
     El ''div'' [ClassName ''sv-ring-wrap'']
       [El ''motion.div'' [ClassName ''sv-ring'']
          [Keyed (map (\<lambda>i. (show_nat i, El ''motion.div'' [ClassName ''sv-ring-node'', Position (fst (ring_spot n i)) (snd (ring_spot n i))]
             [El ''span'' [ClassName ''mono''] [Text (''n'' @ show_nat i)]])) [0..<n])],
        El ''div'' [ClassName ''sv-ring-core'']
          [El ''div'' [ClassName ''sv-ring-core-inner mono''] [Text ''SHA-256'']],
        (if reduce then Nothing
         else Keyed (map (\<lambda>i. (show_nat i, El ''motion.div'' [ClassName ''sv-ring-pulse''] [])) [0..<5]))]"

definition hero_view :: "bool \<Rightarrow> vault \<Rightarrow> html" where
  "hero_view reduce v =
     El ''header'' [ClassName ''sv-hero'', LabelledBy ''hero-h'']
       [El ''div'' [ClassName ''sv-hero-copy'']
          [El ''span'' [ClassName ''sv-eyebrow mono''] [Text ''distributed backup / cold-storage''],
           El ''h1'' [Id ''hero-h'', ClassName ''sv-hero-title'']
             [Text ''Back up once.'', El ''br'' [] [], Text ''Restore through a'', El ''br'' [] [],
              El ''span'' [ClassName ''sv-accent-text''] [Text ''node failure.'']],
           El ''p'' [ClassName ''sv-hero-lede'']
             [Text (''snapvault chunks a dataset by content, stores each unique chunk exactly once, ''
                @ ''replicates it across storage nodes, and restores in parallel, verifying every chunk ''
                @ ''by hash and surviving a node going dark. This is the real engine, ported to run in ''
                @ ''your browser.'')],
           El ''div'' [ClassName ''sv-hero-stat'']
             [El ''motion.span'' [ClassName ''sv-hero-bignum mono'']
                [Text (js_show (va_replicas v)), Code 215, Text '' replicated''],
              El ''span'' [ClassName ''sv-hero-stat-sub'']
                [Text ''every chunk survives up to '', Text (js_show (va_replicas v - 1)), Text '' node failures '',
                 Code 183, Text '' '', Text (show_pct (sr_stats (va_v1 v))), Text '' of the first snapshot deduplicated'']],
           El ''a'' [ClassName ''sv-hero-cta'', Href ''#chunks'']
             [Text ''See how it works'', El ''span'' [Attr ''aria-hidden'' ''true''] [Text '' '', Code 8595]]],
        El ''div'' [ClassName ''sv-hero-visual'', Attr ''aria-hidden'' ''true'']
          [vault_ring (nat (va_nodes v)) reduce]]"

section \<open>ChunksDedup.tsx\<close>

text \<open>Lines 92 to 103: the cells of a row, keyed by hash and index.\<close>

definition cell_key :: "nat \<times> chunk_trace \<Rightarrow> string" where
  "cell_key = (\<lambda>(i, c). ct_hash c @ ''-'' @ show_nat i)"

definition cell_view :: "chunk_cell \<Rightarrow> html" where
  "cell_view c =
     El ''motion.span'' [ClassName (''sv-chunk '' @ (if cc_new c then ''sv-chunk-new'' else ''sv-chunk-dedup'')),
                       Attr ''title'' (cc_title c)]
       [Text (cc_text c)]"

text \<open>Lines 83 to 106: the row of a file. A size that is \<open>undefined\<close> renders as nothing.\<close>

definition row_view :: "snapshot_result \<Rightarrow> file_trace \<Rightarrow> html" where
  "row_view r ft =
     (let row = file_row_of r ft
      in El ''div'' [ClassName ''glass sv-file'']
           [El ''div'' [ClassName ''sv-file-head'']
              [El ''span'' [ClassName ''sv-file-path mono''] [Text (fw_path row)],
               El ''span'' [ClassName ''sv-file-meta'']
                 [Text (case fw_size row of None \<Rightarrow> [] | Some n \<Rightarrow> show_nat n), Text '' bytes '', Code 183,
                  Text '' '', Text (show_nat (fw_count row)), Text '' chunks'']],
            El ''div'' [ClassName ''sv-chunkrow'']
              [Keyed (map (\<lambda>(i, c). (cell_key (i, c), cell_view (chunk_cell_of c))) (enumerate 0 (ft_chunks ft)))]])"

definition strong_view :: "string \<Rightarrow> string \<Rightarrow> html" where
  "strong_view colour s = El ''strong'' [Colour colour] [Text s]"

text \<open>Lines 113 to 145: the sentence under the rows.\<close>

definition dedup_sentence :: "snap \<Rightarrow> vault \<Rightarrow> html list" where
  "dedup_sentence snap v =
     (let st = sr_stats (current snap v)
      in if snap = V1
         then [Text ''The first snapshot stores '', strong_view ''var(--accent-bright)'' (show_nat (st_newChunks st)),
               Text '' unique chunks and skips '', strong_view ''var(--steel-bright)'' (show_nat (st_dedupedChunks st)),
               Text '' that already match a stored content-address, the entire duplicate file among them.'']
         else [Text ''The incremental snapshot references the same content, so only '',
               strong_view ''var(--accent-bright)'' (show_nat (st_newChunks st)),
               Text '' chunk is written for the one edited file ('',
               hash_chip (edited_chunk v) 7 ChipAccent None,
               Text ''). Everything else is deduplicated.''])"

definition snap_key :: "snap \<Rightarrow> string" where
  "snap_key snap = (case snap of V1 \<Rightarrow> ''v1'' | V2 \<Rightarrow> ''v2'')"

definition chunks_view :: "snap \<Rightarrow> vault \<Rightarrow> html" where
  "chunks_view snap v =
     (let r = current snap v
      in section_view ''chunks'' ''content-addressed storage'' ''Chunk it. Hash it. Store each byte-sequence once.''
           [Text (''Every file is split into fixed-size chunks, and each chunk is named by the SHA-256 of its ''
              @ ''own bytes. Storing a chunk whose hash already exists is a no-op, so identical files and ''
              @ ''identical regions share one stored copy. That is deduplication, for free.'')]
           [El ''div'' [ClassName ''sv-controls'', Attr ''role'' ''group'', Attr ''aria-label'' ''snapshot selector'']
              [button_view (if snap = V1 then ''primary'' else ''ghost'') (ShowSnap V1) False ''show first snapshot''
                 [Text ''Snapshot v1''],
               button_view (if snap = V2 then ''primary'' else ''ghost'') (ShowSnap V2) False ''show incremental snapshot''
                 [Text ''Snapshot v2 (edit one file)''],
               El ''span'' [ClassName ''sv-file-meta'']
                 [Text (if snap = V1 then ''logs/app.log.bak is a byte-for-byte copy of logs/app.log''
                        else ''config/settings.ini was edited; only its changed chunk is new'')]],
            El ''div'' [ClassName ''glass sv-stats'', Attr ''aria-live'' ''polite'']
              (map (\<lambda>s. stat_view s None) (dedup_figures_of (sr_stats r))),
            El ''p'' [ClassName ''sv-file-meta'']
              [El ''span'' [ClassName ''sv-legend sv-legend-new''] [Text ''newly stored''],
               El ''span'' [ClassName ''sv-legend sv-legend-dedup''] [Text ''deduplicated (already stored)'']],
            El ''div'' [ClassName ''sv-files'']
              [El ''AnimatePresence'' [Attr ''mode'' ''wait'']
                 [Keyed [(snap_key snap, El ''motion.div'' [ClassName ''sv-files'']
                    [Keyed (map (\<lambda>ft. (ft_path ft, row_view r ft)) (sr_trace r))])]]],
            El ''div'' [ClassName ''glass sv-panel''] [El ''p'' [] (dedup_sentence snap v)]])"

section \<open>Distribution.tsx\<close>

definition option_view :: "string \<Rightarrow> string \<Rightarrow> html" where
  "option_view selected h =
     El ''button'' [Attr ''role'' ''option'', Attr ''aria-selected'' (show_bool (h = selected)),
       ClassName (''sv-chunk '' @ (if h = selected then ''sv-chunk-new'' else ''sv-chunk-dedup'')),
       OnClick (SelectChunk h), Attr ''title'' h]
       [Text (take 6 h)]"

text \<open>Lines 71 to 98.\<close>

definition card_view :: "node_card \<Rightarrow> html" where
  "card_view c =
     El ''motion.div'' [ClassName (''sv-node sv-node-up '' @ (if nc_serving c then ''sv-node-serving'' else []))]
       [El ''div'' [ClassName ''sv-node-title'']
          [El ''span'' [ClassName ''sv-node-name''] [Text (nc_name c)],
           El ''span'' [ClassName ''sv-dot sv-dot-up'', Attr ''aria-hidden'' ''true''] []],
        El ''div'' [ClassName ''sv-file-meta''] [Text (nc_meta c)],
        El ''div'' [ClassName ''sv-node-chunks'', Attr ''aria-hidden'' ''true'']
          [Keyed (map (\<lambda>(k, hot). (show_nat k,
             El ''span'' [ClassName (''sv-nodechunk '' @ (if hot then ''sv-nodechunk-hot'' else []))] []))
             (enumerate 0 (nc_cells c)))]]"

definition placement_view :: "string \<Rightarrow> nat list \<Rightarrow> vault \<Rightarrow> html" where
  "placement_view selected counts v =
     section_view ''distribution'' ''replicated placement'' ''Spread every chunk across the cluster.''
       [Text ''The distribution layer places each unique chunk on '',
        strong_view ''var(--accent-bright)'' (js_show (va_replicas v)), Text '' of '',
        strong_view ''var(--accent-bright)'' (js_show (va_nodes v)),
        Text ('' nodes. The replica set is chosen deterministically from the chunk hash, so a run is fully ''
          @ ''reproducible with no random or wall-clock state.'')]
       [El ''div'' [ClassName ''glass sv-stats''] (map (\<lambda>s. stat_view s None) (placement_figures v)),
        El ''p'' [ClassName ''sv-file-meta''] [Text ''Pick a chunk to trace its replica set:''],
        El ''div'' [ClassName ''sv-chunkrow'', Attr ''role'' ''listbox'', Attr ''aria-label'' ''chunk selector'']
          [Keyed (map (\<lambda>h. (h, option_view selected h)) (uniqueHashes v))],
        El ''p'' [ClassName ''sv-file-meta'']
          [Text ''Chunk '', hash_chip selected 7 ChipAccent None, Text '' lives on nodes '',
           strong_view ''var(--accent-bright)'' (replica_text selected v)],
        El ''div'' [ClassName ''sv-nodegrid'']
          [Keyed (map (\<lambda>i. (show_nat i, card_view (node_card_of counts selected v i))) [0..<nat (va_nodes v)])],
        El ''div'' [ClassName ''glass sv-panel'']
          [El ''p'' []
             [Text ''Replication health: '', strong_view ''var(--accent-bright)'' (health_line v),
              Text ''. Every chunk has '', Text (js_show (va_replicas v)),
              Text '' copies, so it can survive up to '', Text (js_show (va_replicas v - 1)),
              Text '' node failures. The next section takes a node down and restores anyway.'']]]"

definition distribution_view :: "string \<Rightarrow> vault \<Rightarrow> (html \<times> vault) throws" where
  "distribution_view selected v =
     throw_bind (nodeChunkCounts v) (\<lambda>(counts, v). Inr (placement_view selected counts v, v))"

section \<open>FailureRestore.tsx\<close>

text \<open>Lines 105 to 123.\<close>

definition toggle_view :: "nat \<Rightarrow> node_button \<Rightarrow> html" where
  "toggle_view i b =
     El ''button'' [ClassName (''sv-node-toggle '' @ (if nb_pressed b then ''is-down'' else ''is-up'')),
       OnClick (ToggleNode i), Attr ''aria-pressed'' (show_bool (nb_pressed b)), Attr ''aria-label'' (nb_label b)]
       [El ''span'' [ClassName (''sv-dot '' @ (if nb_pressed b then ''sv-dot-down'' else ''sv-dot-up'')),
          Attr ''aria-hidden'' ''true''] [],
        Text (nb_text b),
        El ''span'' [ClassName ''sv-file-meta''] [Text (nb_meta b)]]"

text \<open>Lines 167 to 193: a line of the log and its key.\<close>

definition line_key :: "nat \<times> fetch_row \<Rightarrow> string" where
  "line_key = (\<lambda>(i, r). fr_hash r @ ''-'' @ show_nat i)"

definition mark_view :: "mark \<Rightarrow> html" where
  "mark_view m =
     (case m of
        Tick \<Rightarrow> El ''span'' [ClassName ''sv-tick'', Attr ''aria-hidden'' ''true''] [Code 10003]
      | Cross \<Rightarrow> El ''span'' [ClassName ''sv-cross'', Attr ''aria-hidden'' ''true''] [Code 10007]
      | Dot \<Rightarrow> El ''span'' [Colour ''var(--ink-faint)'', Attr ''aria-hidden'' ''true''] [Code 183])"

definition line_view :: "fetch_row \<Rightarrow> html" where
  "line_view r =
     (let l = row_line r
      in El ''div'' [ClassName ''sv-log-line'']
           [mark_view (ll_mark l),
            hash_chip (fr_hash r) 7 (if fr_state r = Unavailable then ChipDanger else ChipAccent) None,
            El ''span'' [] [Text (ll_text l)]])"

text \<open>Lines 198 to 214.\<close>

definition banner_view :: "phase \<Rightarrow> string option \<Rightarrow> html" where
  "banner_view ph text =
     (case text of
        None \<Rightarrow> Nothing
      | Some s \<Rightarrow> El ''div'' [ClassName (if ph = Done then ''sv-banner sv-banner-good'' else ''sv-banner sv-banner-bad'')]
          [El ''span'' [Attr ''aria-hidden'' ''true''] [Code (if ph = Done then 10003 else 10007)], Text s])"

definition restore_section :: "nat list \<Rightarrow> nat \<Rightarrow> string option \<Rightarrow> vault \<Rightarrow> restore_view \<Rightarrow> html" where
  "restore_section counts up text v w =
     section_view ''restore'' ''failure and parallel restore'' ''Take a node down. Restore anyway.''
       [Text (''Mark nodes offline, then run a parallel restore. A pool of workers fetches chunks concurrently ''
          @ ''from whichever replica is still up, verifies each chunk against its content-address on arrival, ''
          @ ''and reassembles the files. Down every replica of a single chunk and the restore aborts cleanly ''
          @ ''instead of writing a corrupt file.'')]
       [El ''div'' [ClassName ''sv-controls'', Attr ''role'' ''group'', Attr ''aria-label'' ''node failure controls'']
          [Keyed (map (\<lambda>i. (show_nat i, toggle_view i (node_button_of counts v i))) [0..<nat (va_nodes v)]),
           button_view ''ghost'' RecoverNodes False ''recover all nodes'' [Text ''Recover all'']],
        El ''div'' [ClassName ''glass sv-stats''] (map (\<lambda>s. stat_view s None) (restore_figures_of up v w)),
        El ''div'' [ClassName ''sv-controls'']
          [button_view ''primary'' RunRestore (snd (restore_button w)) ''run parallel restore''
             [Text (fst (restore_button w))],
           (case lost_note_of up v of None \<Rightarrow> Nothing
            | Some s \<Rightarrow> El ''span'' [ClassName ''sv-file-meta'', Colour ''var(--danger)''] [Text s])],
        (if rv_rows w = [] then Nothing
         else El ''div'' [ClassName ''sv-progress'', Attr ''aria-hidden'' ''true'']
                [El ''motion.div'' [ClassName ''sv-progress-fill''] []]),
        (if rv_rows w = [] then Nothing
         else El ''div'' [ClassName ''glass sv-log'', Attr ''role'' ''log'', Attr ''aria-label'' ''restore fetch log'']
                [Keyed (map (\<lambda>(i, r). (line_key (i, r), line_view r)) (enumerate 0 (rv_rows w)))]),
        banner_view (rv_phase w) text]"

definition failure_view :: "page \<Rightarrow> (html \<times> vault) throws" where
  "failure_view p =
     throw_bind (nodeChunkCounts (pg_vault p)) (\<lambda>(counts, v).
     throw_bind (chunksUp v) (\<lambda>(up, v).
     throw_bind (banner (p\<lparr>pg_vault := v\<rparr>)) (\<lambda>(text, v').
       Inr (restore_section counts up text v (pg_view p), v'))))"

section \<open>Footer.tsx and App.tsx\<close>

definition footer_view :: html where
  "footer_view =
     El ''footer'' [ClassName ''sv-footer'', LabelledBy ''footer-h'']
       [El ''div'' [ClassName ''glass sv-panel'']
          [El ''h2'' [Id ''footer-h''] [Text ''What this is''],
           El ''p'' []
             [Text (''A reproducible, in-browser simulation of the snapvault engine. The content-addressed chunking, ''
                @ ''SHA-256 hashing, deduplicating store, incremental snapshots, deterministic replicated placement, ''
                @ ''and parallel verified restore are ported faithfully to TypeScript from the C++ storage engine and ''
                @ ''the Go distribution layer. The dataset is a small synthesized mock, the storage nodes are simulated ''
                @ ''in memory, and chunk placement is seeded by content hash, so every run is deterministic. Nothing ''
                @ ''here touches a network or a real cluster.'')],
           El ''p'' []
             [El ''a'' [ClassName ''sv-footer-link'', Href ''https://github.com/SAY-5/snapvault'', Attr ''target'' ''_blank'',
                      Attr ''rel'' ''noreferrer'']
                [Text ''View the source on GitHub'', El ''span'' [Attr ''aria-hidden'' ''true''] [Text '' '', Code 8599]]],
           El ''p'' [ClassName ''sv-file-meta'']
             [Text (''Open your browser console to see the port self-check run the full pipeline: dedup, incremental ''
                @ ''snapshot, distribution, node failure, and a byte-for-byte integrity-verified restore.'')]]]"

text \<open>The whole page: the state of the components next to that of the restore panel.\<close>

record app =
  ap_page :: page
  ap_snap :: snap
  ap_selected :: string

text \<open>Lines 33 to 49, around the sections of the two panels that query the vault.\<close>

definition app_tree :: "bool \<Rightarrow> app \<Rightarrow> html \<Rightarrow> html \<Rightarrow> html" where
  "app_tree reduce a distribution failure =
     (let v = pg_vault (ap_page a)
      in El [] []
       [El ''a'' [ClassName ''sv-skip'', Href ''#chunks''] [Text ''Skip to the walkthrough''],
        El ''div'' [ClassName ''sv-app'']
          [hero_view reduce v,
           El ''main'' [Id ''main''] [chunks_view (ap_snap a) v, distribution, failure],
           footer_view]])"

definition app_view :: "bool \<Rightarrow> app \<Rightarrow> (html \<times> vault) throws" where
  "app_view reduce a =
     (let p = ap_page a
      in throw_bind (distribution_view (ap_selected a) (pg_vault p)) (\<lambda>(distribution, v).
         throw_bind (failure_view (p\<lparr>pg_vault := v\<rparr>)) (\<lambda>(failure, v).
           Inr (app_tree reduce a distribution failure, v))))"

text \<open>
  React may call a component more often than it shows it, and shows the result of the last call;
  how often is React's own choice, here the parameters \<open>i\<close> and \<open>j\<close> (under the \<open>StrictMode\<close> that
  main.tsx asks for, one more call each in development). Only the calls of the two components
  that query the vault can leave a trace: the others are functions of their arguments.
\<close>

fun call_again :: "nat \<Rightarrow> (vault \<Rightarrow> (html \<times> vault) throws) \<Rightarrow> vault \<Rightarrow> (html \<times> vault) throws" where
  "call_again 0 component v = component v"
| "call_again (Suc k) component v = throw_bind (component v) (\<lambda>(_, v). call_again k component v)"

definition repeated_view :: "nat \<Rightarrow> nat \<Rightarrow> bool \<Rightarrow> app \<Rightarrow> (html \<times> vault) throws" where
  "repeated_view i j reduce a =
     (let p = ap_page a
      in throw_bind (call_again i (distribution_view (ap_selected a)) (pg_vault p)) (\<lambda>(distribution, v).
         throw_bind (call_again j (\<lambda>v. failure_view (p\<lparr>pg_vault := v\<rparr>)) v) (\<lambda>(failure, v).
           Inr (app_tree reduce a distribution failure, v))))"

lemma call_again_stable: "component v = Inr (t, v') \<Longrightarrow> component v' = Inr (t, v') \<Longrightarrow> call_again k component v = Inr (t, v')"
  by (induction k arbitrary: v) simp_all

end
