(* ===== verification/App.thy ===== *)
theory App
  imports Render
begin

text \<open>
  The running page: what a click on the rendered tree does, and the steps of the page as a
  whole. A click acts on the tree of the current state, as React renders anew before it
  handles the next one. A step of the page is a run of steps of the restore panel, so every
  fact about reachable panels holds of the page; what it shows is well formed, and the clicks
  that it offers are exactly the ones listed here.
\<close>

section \<open>The code\<close>

text \<open>The handlers: useVault.ts for the nodes, \<open>runRestore\<close>, and the setters of the panels.\<close>

definition run_restore :: "bool \<Rightarrow> page \<Rightarrow> page throws" where
  "run_restore reduce p = throw_bind (vault_plan (pg_vault p)) (\<lambda>(plan, v).
     Inr (p\<lparr>pg_vault := v, pg_view := run_view reduce plan (pg_view p)\<rparr>))"

fun perform :: "bool \<Rightarrow> action \<Rightarrow> app \<Rightarrow> app throws" where
  "perform reduce (ToggleNode i) a =
     Inr (a\<lparr>ap_page := (ap_page a)\<lparr>pg_vault := toggleNode (int i) (pg_vault (ap_page a)), pg_dirty := True\<rparr>\<rparr>)"
| "perform reduce RecoverNodes a =
     Inr (a\<lparr>ap_page := (ap_page a)\<lparr>pg_vault := vault_recoverAll (pg_vault (ap_page a)), pg_dirty := True\<rparr>\<rparr>)"
| "perform reduce RunRestore a = throw_bind (run_restore reduce (ap_page a)) (\<lambda>p. Inr (a\<lparr>ap_page := p\<rparr>))"
| "perform reduce (ShowSnap snap) a = Inr (a\<lparr>ap_snap := snap\<rparr>)"
| "perform reduce (SelectChunk h) a = Inr (a\<lparr>ap_selected := h\<rparr>)"

definition init_app :: "vault \<Rightarrow> app" where
  "init_app v = \<lparr>ap_page = \<lparr>pg_vault = v, pg_view = init_view, pg_dirty = True\<rparr>, ap_snap = V1,
                 ap_selected = initial_selection v\<rparr>"

inductive app_step :: "bool \<Rightarrow> app \<Rightarrow> app \<Rightarrow> bool" for reduce where
  render: "app_view reduce a = Inr (t, v) \<Longrightarrow> app_step reduce a (a\<lparr>ap_page := (ap_page a)\<lparr>pg_vault := v\<rparr>\<rparr>)"
| click: "app_view reduce a = Inr (t, v) \<Longrightarrow> act \<in> set (clicks t) \<Longrightarrow>
    perform reduce act (a\<lparr>ap_page := (ap_page a)\<lparr>pg_vault := v\<rparr>\<rparr>) = Inr a' \<Longrightarrow> app_step reduce a a'"
| effect: "pg_dirty (ap_page a) \<Longrightarrow>
    app_step reduce a (a\<lparr>ap_page := (ap_page a)\<lparr>pg_view := reset_view (pg_view (ap_page a)), pg_dirty := False\<rparr>\<rparr>)"
| timer: "fire (pg_view (ap_page a)) = Some w \<Longrightarrow> app_step reduce a (a\<lparr>ap_page := (ap_page a)\<lparr>pg_view := w\<rparr>\<rparr>)"

inductive_cases app_stepE: "app_step reduce a a'"

inductive app_reachable :: "bool \<Rightarrow> app \<Rightarrow> bool" for reduce where
  start: "buildModel = Inr v \<Longrightarrow> app_reachable reduce (init_app v)"
| step: "app_reachable reduce a \<Longrightarrow> app_step reduce a a' \<Longrightarrow> app_reachable reduce a'"

section \<open>The parts of a tree\<close>

lemma map_enumerate_index: "map (\<lambda>p. f (fst p)) (enumerate n xs) = map f [n..<n + length xs]"
  by (rule nth_equalityI) (simp_all add: nth_enumerate_eq)

lemma concat_map_nil [simp]: "(\<And>x. x \<in> set xs \<Longrightarrow> f x = []) \<Longrightarrow> concat (map f xs) = []"
  by simp

lemmas view_simps = hash_chip_def stat_view_def section_view_def button_view_def strong_view_def

lemma no_stat_parts [simp]: "element_ids (stat_view s sub) = []" "element_refs (stat_view s sub) = []" "clicks (stat_view s sub) = []"
  "key_lists (stat_view s sub) = []"
  by (simp_all add: stat_view_def split: option.split)

lemma hero_parts: "element_ids (hero_view reduce v) = [''hero-h'']" "element_refs (hero_view reduce v) = [''hero-h'', ''chunks'']"
  "clicks (hero_view reduce v) = []"
  by (simp_all add: hero_view_def vault_ring_def comp_def)

lemma cell_parts [simp]: "element_ids (cell_view c) = []" "element_refs (cell_view c) = []" "clicks (cell_view c) = []"
  "key_lists (cell_view c) = []"
  by (simp_all add: cell_view_def)

lemma row_parts [simp]: "element_ids (row_view r ft) = []" "element_refs (row_view r ft) = []" "clicks (row_view r ft) = []"
  "key_lists (row_view r ft) = [map cell_key (enumerate 0 (ft_chunks ft))]"
  by (simp_all add: row_view_def Let_def case_prod_beta comp_def)

lemma sentence_parts [simp]: "concat (map element_ids (dedup_sentence snap v)) = []" "concat (map element_refs (dedup_sentence snap v)) = []"
  "concat (map clicks (dedup_sentence snap v)) = []" "concat (map key_lists (dedup_sentence snap v)) = []"
  by (simp_all add: dedup_sentence_def view_simps Let_def)

lemma chunks_parts: "element_ids (chunks_view snap v) = [''chunks'', ''chunks-h'']" "element_refs (chunks_view snap v) = [''chunks-h'']"
  "clicks (chunks_view snap v) = [ShowSnap V1, ShowSnap V2]"
  by (simp_all add: chunks_view_def view_simps Let_def comp_def case_prod_beta dedup_figures_of_def)

lemma option_parts [simp]: "element_ids (option_view s h) = []" "element_refs (option_view s h) = []" "clicks (option_view s h) = [SelectChunk h]"
  "key_lists (option_view s h) = []"
  by (simp_all add: option_view_def)

lemma card_parts [simp]: "element_ids (card_view c) = []" "element_refs (card_view c) = []" "clicks (card_view c) = []"
  "key_lists (card_view c) = [map (\<lambda>k. show_nat k) [0..<length (nc_cells c)]]"
  by (simp_all add: card_view_def case_prod_beta comp_def map_enumerate_index [of show_nat, simplified])

lemma placement_parts: "element_ids (placement_view s counts v) = [''distribution'', ''distribution-h'']"
  "element_refs (placement_view s counts v) = [''distribution-h'']"
  "clicks (placement_view s counts v) = map SelectChunk (uniqueHashes v)"
  by (simp_all add: placement_view_def view_simps comp_def)

lemma toggle_parts [simp]: "element_ids (toggle_view i b) = []" "element_refs (toggle_view i b) = []" "clicks (toggle_view i b) = [ToggleNode i]"
  "key_lists (toggle_view i b) = []"
  by (simp_all add: toggle_view_def)

lemma line_parts [simp]: "element_ids (line_view r) = []" "element_refs (line_view r) = []" "clicks (line_view r) = []"
  "key_lists (line_view r) = []"
  by (simp_all add: line_view_def mark_view_def view_simps Let_def split: mark.split)

lemma banner_parts [simp]: "element_ids (banner_view ph text) = []" "element_refs (banner_view ph text) = []"
  "clicks (banner_view ph text) = []" "key_lists (banner_view ph text) = []"
  by (simp_all add: banner_view_def split: option.split)

lemma restore_parts: "element_ids (restore_section counts up text v w) = [''restore'', ''restore-h'']"
  "element_refs (restore_section counts up text v w) = [''restore-h'']"
  "clicks (restore_section counts up text v w) =
     map ToggleNode [0..<nat (va_nodes v)] @ [RecoverNodes] @ (if rv_phase w = Running then [] else [RunRestore])"
  by (auto simp: restore_section_def view_simps restore_button_def comp_def case_prod_beta split: option.split)

lemma footer_parts: "element_ids footer_view = [''footer-h'']" "element_refs footer_view = [''footer-h'']" "clicks footer_view = []"
  "key_lists footer_view = []"
  by (simp_all add: footer_view_def)

lemma hero_keys: "list_all distinct (key_lists (hero_view reduce v))"
  by (simp add: hero_view_def vault_ring_def comp_def distinct_numbered)

lemma chunks_keys:
  "distinct (map ft_path (sr_trace (current snap v))) \<Longrightarrow> list_all distinct (key_lists (chunks_view snap v))"
proof -
  have "distinct (map cell_key (enumerate 0 cs))" for cs
    using distinct_dashed [of ct_hash 0 cs] by (simp add: cell_key_def)
  then show "distinct (map ft_path (sr_trace (current snap v))) \<Longrightarrow> ?thesis"
    by (simp add: chunks_view_def view_simps Let_def comp_def case_prod_beta dedup_figures_of_def list_all_iff
        del: list.map_comp)
qed

lemma placement_keys: "list_all distinct (key_lists (placement_view s counts v))"
  by (auto simp: placement_view_def view_simps comp_def list_all_iff distinct_numbered uniqueHashes_def placement_figures_def)

lemma restore_keys: "list_all distinct (key_lists (restore_section counts up text v w))"
proof -
  have "distinct (map line_key (enumerate 0 rs))" for rs
    using distinct_dashed [of fr_hash 0 rs] by (simp add: line_key_def)
  then show ?thesis
    by (auto simp: restore_section_def view_simps comp_def case_prod_beta list_all_iff distinct_numbered
        restore_figures_of_def Let_def split: option.split)
qed

section \<open>A step of the page is a run of the panel\<close>

lemma sync_frame: "sync v = Inr v' \<Longrightarrow> v' = v\<lparr>va_cluster := va_cluster v'\<rparr>"
  by (cases "sync_loop (va_down v) [0..nodeCount (va_cluster v) - 1] (va_cluster v)") (auto simp: sync_def)

text \<open>What the user can change of the model are the cluster and the set of failed nodes.\<close>

definition of_model :: "vault \<Rightarrow> vault \<Rightarrow> bool" where
  "of_model v0 v \<longleftrightarrow> v = v0\<lparr>va_cluster := va_cluster v, va_down := va_down v\<rparr>"

lemma of_model_static:
  "of_model v0 v \<Longrightarrow> va_v1 v = va_v1 v0 \<and> va_v2 v = va_v2 v0 \<and> uniqueHashes v = uniqueHashes v0"
  unfolding of_model_def uniqueHashes_def by (metis vault.ext_inject vault.select_convs(2,3) vault.surjective vault.update_convs(6,10))

lemma of_model_sync: "of_model v0 v \<Longrightarrow> sync v = Inr v' \<Longrightarrow> of_model v0 v'"
  by (drule sync_frame) (cases v0; cases v; cases v'; simp add: of_model_def)

text \<open>The model of a page never leaves the one that \<open>buildModel\<close> built.\<close>

lemma page_model: "page_reachable reduce p \<Longrightarrow> \<exists>v0. buildModel = Inr v0 \<and> of_model v0 (pg_vault p)"
proof (induction rule: page_reachable.induct)
  case (start v)
  then show ?case by (intro exI [of _ v]) (simp add: of_model_def)
next
  case (step p p')
  then obtain v0 where v0: "buildModel = Inr v0" "of_model v0 (pg_vault p)" by blast
  have "of_model v0 (pg_vault p')"
    using step.hyps(2)
  proof cases
    case (toggle n)
    with v0 show ?thesis by (cases v0; cases "pg_vault p") (simp add: of_model_def toggleNode_def)
  next
    case recover
    with v0 show ?thesis by (cases v0; cases "pg_vault p") (simp add: of_model_def vault_recoverAll_def)
  next
    case (run plan v)
    then have "sync (pg_vault p) = Inr v"
      by (cases "sync (pg_vault p)") (auto simp: vault_plan_def)
    with v0 run of_model_sync show ?thesis by simp
  qed (use v0 of_model_sync in auto)
  with v0 show ?case by blast
qed

lemma model_paths:
  assumes "buildModel = Inr v0" "of_model v0 v"
  shows "distinct (map ft_path (sr_trace (current snap v)))"
proof -
  have "distinct (map ft_path (sr_trace (fst (snapshot name files e))))" if "distinct (map sf_path files)" for name files e
  proof -
    have "mset (map sf_path (js_sort cmp_path files)) = mset (map sf_path files)" by simp
    then have "distinct (map sf_path (js_sort cmp_path files))" using that mset_eq_imp_distinct_iff by blast
    then show ?thesis by (simp add: snapshot_trace_of trace_paths)
  qed
  from this [OF makeDataset_paths] this [of "editOneFile makeDataset"] show ?thesis
    using of_model_static [OF assms(2)] assms(1) makeDataset_paths
    by (cases snap) (auto simp: current_def build_value editOneFile_paths)
qed

text \<open>The queries of a render, each a synchronisation of the cluster.\<close>

lemma query_steps:
  "nodeChunkCounts v = Inr (counts, v') \<Longrightarrow> sync v = Inr v'"
  "chunksUp v = Inr (up, v') \<Longrightarrow> sync v = Inr v'"
  by (cases "sync v"; simp add: nodeChunkCounts_def chunksUp_def)+

lemma banner_steps: "banner p = Inr (text, v') \<Longrightarrow> v' = pg_vault p \<or> sync (pg_vault p) = Inr v'"
  by (cases "sync (pg_vault p)"; cases "rv_phase (pg_view p)")
    (auto simp: banner_def restoreValid_def Let_def throw_bind_def split: if_splits sum.splits)

lemma page_query: "page_reachable reduce p \<Longrightarrow> sync (pg_vault p) = Inr v \<Longrightarrow> page_reachable reduce (p\<lparr>pg_vault := v\<rparr>)"
  by (blast intro: page_reachable.step page_step.query)

lemma banner_returns: "page_ok p \<Longrightarrow> \<exists>text v. banner p = Inr (text, v)"
  using restoreValid_result [of "pg_vault p"] by (cases "rv_phase (pg_view p)") (auto simp: banner_def page_ok_def)

text \<open>A render of a reachable panel returns, and leaves a reachable panel.\<close>

lemma app_view_result:
  assumes p: "page_reachable reduce (ap_page a)"
  shows "\<exists>counts1 v1 counts2 v3 up text v'.
    app_view reduce a = Inr (app_tree reduce a (placement_view (ap_selected a) counts1 v1)
        (restore_section counts2 up text v3 (pg_view (ap_page a))), v')
    \<and> page_reachable reduce ((ap_page a)\<lparr>pg_vault := v1\<rparr>) \<and> page_reachable reduce ((ap_page a)\<lparr>pg_vault := v3\<rparr>)
    \<and> page_reachable reduce ((ap_page a)\<lparr>pg_vault := v'\<rparr>)
    \<and> banner ((ap_page a)\<lparr>pg_vault := v3\<rparr>) = Inr (text, v')
    \<and> va_down v3 = va_down (pg_vault (ap_page a)) \<and> va_down v' = va_down (pg_vault (ap_page a))"
proof -
  let ?p = "ap_page a"
  have ok: "vault_ok v" if "page_reachable reduce (?p\<lparr>pg_vault := v\<rparr>)" for v
    using page_reachable_ok [OF that] by (simp add: page_ok_def)
  have down: "va_down v' = va_down v" if "sync v = Inr v'" for v v'
    using sync_frame [OF that] by (cases v; cases v') simp
  have "vault_ok (pg_vault ?p)" using page_reachable_ok [OF p] by (simp add: page_ok_def)
  then obtain counts1 v1 where q1: "nodeChunkCounts (pg_vault ?p) = Inr (counts1, v1)"
    using nodeChunkCounts_result by blast
  note r1 = page_query [OF p query_steps(1) [OF q1]]
  obtain counts2 v2 where q2: "nodeChunkCounts v1 = Inr (counts2, v2)"
    using nodeChunkCounts_result [OF ok [OF r1]] by blast
  have r2: "page_reachable reduce (?p\<lparr>pg_vault := v2\<rparr>)"
    using page_query [OF r1, of v2] query_steps(1) [OF q2] by simp
  obtain up v3 where q3: "chunksUp v2 = Inr (up, v3)"
    using chunksUp_result [OF ok [OF r2]] by blast
  have r3: "page_reachable reduce (?p\<lparr>pg_vault := v3\<rparr>)"
    using page_query [OF r2, of v3] query_steps(2) [OF q3] by simp
  obtain msg v' where q4: "banner (?p\<lparr>pg_vault := v3\<rparr>) = Inr (msg, v')"
    using banner_returns [OF page_reachable_ok [OF r3]] by blast
  have r4: "page_reachable reduce (?p\<lparr>pg_vault := v'\<rparr>)" "va_down v' = va_down v3"
    using banner_steps [OF q4] page_query [OF r3, of v'] r3 down by auto
  have "va_down v3 = va_down (pg_vault ?p)"
    using down query_steps(1) [OF q1] query_steps(1) [OF q2] query_steps(2) [OF q3] by metis
  moreover have "app_view reduce a = Inr (app_tree reduce a (placement_view (ap_selected a) counts1 v1)
      (restore_section counts2 up msg v3 (pg_view ?p)), v')"
    using q1 q2 q3 q4 by (simp add: app_view_def Let_def distribution_view_def failure_view_def)
  ultimately show ?thesis
    by - (rule exI [of _ counts1], rule exI [of _ v1], rule exI [of _ counts2], rule exI [of _ v3],
        rule exI [of _ up], rule exI [of _ msg], rule exI [of _ v'], use r4 r1 r3 q4 in simp)
qed

lemma app_view_reachable:
  "page_reachable reduce (ap_page a) \<Longrightarrow> app_view reduce a = Inr (t, v) \<Longrightarrow>
   page_reachable reduce ((ap_page a)\<lparr>pg_vault := v\<rparr>)"
  using app_view_result [of reduce a] by auto

lemma perform_reachable:
  assumes "page_reachable reduce (ap_page a)" "perform reduce act a = Inr a'"
    and "act = RunRestore \<Longrightarrow> rv_phase (pg_view (ap_page a)) \<noteq> Running"
  shows "page_reachable reduce (ap_page a')"
proof (cases act)
  case RunRestore
  then obtain plan v where plan: "vault_plan (pg_vault (ap_page a)) = Inr (plan, v)"
    using assms(2) by (cases "vault_plan (pg_vault (ap_page a))") (auto simp: run_restore_def)
  with RunRestore assms page_reachable.step [OF assms(1) page_step.run [OF assms(3) plan]] show ?thesis
    by (auto simp: run_restore_def)
qed (use assms(2) page_reachable.step [OF assms(1) page_step.toggle] page_reachable.step [OF assms(1) page_step.recover]
      assms(1) in auto)

lemma perform_returns: "page_reachable reduce (ap_page a) \<Longrightarrow> \<exists>a'. perform reduce act a = Inr a'"
  using vault_plan_result [of "pg_vault (ap_page a)"] page_reachable_ok [of reduce "ap_page a"]
  by (cases act) (auto simp: run_restore_def page_ok_def)

lemma tree_clicks:
  "set (clicks (app_tree reduce a (placement_view s counts1 v1) (restore_section counts2 up msg v3 w))) =
     {ShowSnap V1, ShowSnap V2, RecoverNodes} \<union> SelectChunk ` set (uniqueHashes v1)
       \<union> ToggleNode ` {0..<nat (va_nodes v3)} \<union> (if rv_phase w = Running then {} else {RunRestore})"
  by (auto simp: app_tree_def Let_def hero_parts chunks_parts placement_parts restore_parts footer_parts)

text \<open>The clicks on the page that is shown.\<close>

lemma app_clicks:
  assumes p: "page_reachable reduce (ap_page a)" and view: "app_view reduce a = Inr (t, v)"
  shows "set (clicks t) =
     {ShowSnap V1, ShowSnap V2, RecoverNodes} \<union> SelectChunk ` set (uniqueHashes (pg_vault (ap_page a)))
       \<union> ToggleNode ` {0..<5} \<union> (if rv_phase (pg_view (ap_page a)) = Running then {} else {RunRestore})"
proof -
  obtain counts1 v1 counts2 v3 up msg where t: "t = app_tree reduce a (placement_view (ap_selected a) counts1 v1)
      (restore_section counts2 up msg v3 (pg_view (ap_page a)))"
    and r: "page_reachable reduce ((ap_page a)\<lparr>pg_vault := v1\<rparr>)" "page_reachable reduce ((ap_page a)\<lparr>pg_vault := v3\<rparr>)"
    using app_view_result [OF p] view by auto
  have "vault_ok v1" "vault_ok v3" "vault_ok (pg_vault (ap_page a))"
    using page_reachable_ok [OF r(1)] page_reachable_ok [OF r(2)] page_reachable_ok [OF p] by (simp_all add: page_ok_def)
  then show ?thesis by (simp add: t tree_clicks uniqueHashes_same) (simp add: vault_ok_def)
qed

text \<open>A reachable page has a reachable panel, and the selected chunk is one of the listed ones.\<close>

lemma app_reachable_page:
  "app_reachable reduce a \<Longrightarrow>
     page_reachable reduce (ap_page a) \<and> ap_selected a \<in> set (uniqueHashes (pg_vault (ap_page a)))"
proof (induction rule: app_reachable.induct)
  case (start v)
  have "page_reachable reduce (ap_page (init_app v))"
    using page_reachable.start [OF start] by (simp add: init_app_def)
  moreover have "uniqueHashes v \<noteq> []"
    using length_plan_for [of "[]"] uniqueHashes_same [of v] vault_ok_build [OF start] by (auto simp: plan_for_def)
  ultimately show ?case
    by (simp add: init_app_def initial_selection_def split: list.split)
next
  case (step a a')
  then have p: "page_reachable reduce (ap_page a)" and sel: "ap_selected a \<in> set (uniqueHashes (pg_vault (ap_page a)))"
    by blast+
  have hashes: "uniqueHashes (pg_vault q) = uniqueHashes (pg_vault (ap_page a))" if "page_reachable reduce q" for q
    using page_reachable_ok [OF that] page_reachable_ok [OF p] by (simp add: page_ok_def uniqueHashes_same)
  have "page_reachable reduce (ap_page a') \<and> ap_selected a' \<in> set (uniqueHashes (pg_vault (ap_page a)))"
    using step.hyps(2)
  proof (cases rule: app_step.cases)
    case (render t v)
    with app_view_reachable [OF p] sel show ?thesis by simp
  next
    case (click t v act)
    let ?a = "a\<lparr>ap_page := (ap_page a)\<lparr>pg_vault := v\<rparr>\<rparr>"
    have "act = RunRestore \<Longrightarrow> rv_phase (pg_view (ap_page a)) \<noteq> Running"
      "\<And>h. act = SelectChunk h \<Longrightarrow> h \<in> set (uniqueHashes (pg_vault (ap_page a)))"
      using click(2) app_clicks [OF p click(1)] by (auto split: if_splits)
    moreover have "page_reachable reduce (ap_page ?a)" using app_view_reachable [OF p click(1)] by simp
    ultimately show ?thesis
      using perform_reachable [of reduce ?a act a'] click(3) sel
      by (cases act) (auto simp: throw_bind_def split: sum.splits)
  next
    case effect
    with sel page_reachable.step [OF p page_step.effect] show ?thesis by auto
  next
    case (timer w)
    with sel page_reachable.step [OF p page_step.timer] show ?thesis by auto
  qed
  with hashes [of "ap_page a'"] show ?case by simp
qed

text \<open>What is shown is well formed.\<close>

lemma tree_well_formed:
  assumes "buildModel = Inr v0" "of_model v0 (pg_vault (ap_page a))"
  shows "well_formed (app_tree reduce a (placement_view s counts1 v1) (restore_section counts2 up msg v3 w))"
  using hero_keys chunks_keys [OF model_paths [OF assms]] placement_keys restore_keys
  by (simp add: well_formed_def app_tree_def Let_def hero_parts chunks_parts placement_parts restore_parts footer_parts)

lemma app_well_formed:
  assumes "app_reachable reduce a"
  shows "\<exists>t v. app_view reduce a = Inr (t, v) \<and> well_formed t"
proof -
  have p: "page_reachable reduce (ap_page a)" using app_reachable_page [OF assms] by blast
  obtain v0 where "buildModel = Inr v0" "of_model v0 (pg_vault (ap_page a))" using page_model [OF p] by blast
  from tree_well_formed [OF this] app_view_result [OF p] show ?thesis by metis
qed

section \<open>The banners that are shown\<close>

abbreviation good_banner :: string where
  "good_banner \<equiv> ''sv-banner sv-banner-good''"

abbreviation bad_banner :: string where
  "bad_banner \<equiv> ''sv-banner sv-banner-bad''"

lemma stat_banners [simp]: "by_class good_banner (stat_view s sub) = []" "by_class bad_banner (stat_view s sub) = []"
  by (simp_all add: stat_view_def split: option.split)

lemma cell_banners [simp]: "by_class good_banner (cell_view c) = []" "by_class bad_banner (cell_view c) = []"
  by (simp_all add: cell_view_def)

lemma row_banners [simp]: "by_class good_banner (row_view r ft) = []" "by_class bad_banner (row_view r ft) = []"
  by (simp_all add: row_view_def Let_def case_prod_beta)

lemma option_banners [simp]: "by_class good_banner (option_view s h) = []" "by_class bad_banner (option_view s h) = []"
  by (simp_all add: option_view_def)

lemma card_banners [simp]: "by_class good_banner (card_view c) = []" "by_class bad_banner (card_view c) = []"
  by (simp_all add: card_view_def case_prod_beta)

lemma toggle_banners [simp]: "by_class good_banner (toggle_view i b) = []" "by_class bad_banner (toggle_view i b) = []"
  by (simp_all add: toggle_view_def)

lemma line_banners [simp]: "by_class good_banner (line_view r) = []" "by_class bad_banner (line_view r) = []"
  by (simp_all add: line_view_def mark_view_def view_simps Let_def split: mark.split)

lemma hero_banners [simp]: "by_class good_banner (hero_view reduce v) = []" "by_class bad_banner (hero_view reduce v) = []"
  by (simp_all add: hero_view_def vault_ring_def comp_def)

lemma chunks_banners [simp]: "by_class good_banner (chunks_view snap v) = []" "by_class bad_banner (chunks_view snap v) = []"
  by (simp_all add: chunks_view_def view_simps Let_def comp_def case_prod_beta dedup_sentence_def)

lemma placement_banners [simp]: "by_class good_banner (placement_view s counts v) = []" "by_class bad_banner (placement_view s counts v) = []"
  by (simp_all add: placement_view_def view_simps comp_def)

lemma footer_banners [simp]: "by_class good_banner (footer_view) = []" "by_class bad_banner (footer_view) = []"
  by (simp_all add: footer_view_def)

lemma banner_class:
  "by_class good_banner (banner_view ph text) = (if ph = Done \<and> text \<noteq> None then [banner_view ph text] else [])"
  "by_class bad_banner (banner_view ph text) = (if ph \<noteq> Done \<and> text \<noteq> None then [banner_view ph text] else [])"
  by (simp_all add: banner_view_def split: option.split)

lemma section_banners:
  "by_class good_banner (restore_section counts up text v w) = by_class good_banner (banner_view (rv_phase w) text)"
  "by_class bad_banner (restore_section counts up text v w) = by_class bad_banner (banner_view (rv_phase w) text)"
  by (simp_all add: restore_section_def view_simps restore_button_def comp_def case_prod_beta split: option.split)

lemma tree_banners:
  "by_class good_banner (app_tree reduce a (placement_view s counts1 v1) (restore_section counts2 up text v3 w))
     = by_class good_banner (banner_view (rv_phase w) text)"
  "by_class bad_banner (app_tree reduce a (placement_view s counts1 v1) (restore_section counts2 up text v3 w))
     = by_class bad_banner (banner_view (rv_phase w) text)"
  by (simp_all add: app_tree_def Let_def section_banners)

text \<open>The banner of a done run confirms the integrity exactly when the verified restore on the
  cluster of the render succeeds.\<close>

lemma app_banners:
  assumes "app_reachable reduce a" "app_view reduce a = Inr (t, v)"
  shows "map text_content (by_class good_banner t) =
      (if rv_phase (pg_view (ap_page a)) = Done
       then [done_banner 14 (rr_ok (restore (va_cluster v) (sr_manifest (va_v2 v)) n))] else [])"
    and "map text_content (by_class bad_banner t) =
      (if rv_phase (pg_view (ap_page a)) = Failed then [failed_banner] else [])"
proof -
  let ?ph = "rv_phase (pg_view (ap_page a))"
  have p: "page_reachable reduce (ap_page a)" using app_reachable_page [OF assms(1)] by blast
  obtain counts1 v1 counts2 v3 up msg where t: "t = app_tree reduce a (placement_view (ap_selected a) counts1 v1)
      (restore_section counts2 up msg v3 (pg_view (ap_page a)))"
    and r: "page_reachable reduce ((ap_page a)\<lparr>pg_vault := v3\<rparr>)" "page_reachable reduce ((ap_page a)\<lparr>pg_vault := v\<rparr>)"
    and ban: "banner ((ap_page a)\<lparr>pg_vault := v3\<rparr>) = Inr (msg, v)"
    using app_view_result [OF p] assms(2) by auto
  have ok: "vault_ok v3" "vault_ok v"
    using page_reachable_ok [OF r(1)] page_reachable_ok [OF r(2)] by (simp_all add: page_ok_def)
  then have unique: "va_unique v = 14" by (simp add: vault_ok_def)
  show "map text_content (by_class bad_banner t) = (if ?ph = Failed then [failed_banner] else [])"
    using ban by (cases ?ph) (auto simp: t tree_banners banner_class banner_def, simp add: banner_view_def)
  show "map text_content (by_class good_banner t) =
      (if ?ph = Done then [done_banner 14 (rr_ok (restore (va_cluster v) (sr_manifest (va_v2 v)) n))] else [])"
  proof (cases "?ph = Done")
    case True
    then obtain valid where valid: "restoreValid v3 = Inr (valid, v)"
      using ban by (cases "restoreValid v3") (auto simp: banner_def)
    with ban True have "msg = Some (done_banner (va_unique v) valid)" by (simp add: banner_def)
    with True restoreValid_restore [OF ok(1) valid, of n] unique show ?thesis
      by (simp add: t tree_banners banner_class banner_view_def)
  next
    case False
    then show ?thesis by (simp add: t tree_banners banner_class)
  qed
qed

section \<open>A page that has completed a run\<close>

lemma app_fires:
  "app_reachable reduce a \<Longrightarrow> fire_times k (pg_view (ap_page a)) = Some w \<Longrightarrow>
   app_reachable reduce (a\<lparr>ap_page := (ap_page a)\<lparr>pg_view := w\<rparr>\<rparr>)"
proof (induction k arbitrary: a)
  case (Suc k)
  then obtain w1 where w1: "fire (pg_view (ap_page a)) = Some w1" "fire_times k w1 = Some w"
    by (auto split: option.splits)
  have "app_reachable reduce (a\<lparr>ap_page := (ap_page a)\<lparr>pg_view := w1\<rparr>\<rparr>)"
    by (rule app_reachable.step [OF Suc.prems(1) app_step.timer [OF w1(1)]])
  from Suc.IH [OF this] w1(2) show ?case by simp
next
  case 0
  then show ?case by (cases a; cases "ap_page a") simp
qed

text \<open>A click on the restore button of a page at rest, and the timers it sets.\<close>

lemma app_run:
  assumes a: "app_reachable reduce a" "\<not> pg_dirty (ap_page a)" "rv_phase (pg_view (ap_page a)) \<noteq> Running"
  shows "\<exists>b. app_reachable reduce b \<and> \<not> pg_dirty (ap_page b) \<and> rv_phase (pg_view (ap_page b)) =
    (if list_all pf_available (plan_for (va_down (pg_vault (ap_page a)))) then Done else Failed)"
proof -
  let ?p = "ap_page a"
  let ?plan = "plan_for (va_down (pg_vault ?p))"
  have p: "page_reachable reduce ?p" using app_reachable_page [OF a(1)] by blast
  obtain t v where view: "app_view reduce a = Inr (t, v)" and down: "va_down v = va_down (pg_vault ?p)"
    using app_view_result [OF p] by blast
  have "vault_ok v" using page_reachable_ok [OF app_view_reachable [OF p view]] by (simp add: page_ok_def)
  then obtain v' where plan: "vault_plan v = Inr (?plan, v')"
    using vault_plan_result [of v] down by auto
  define b where "b = a\<lparr>ap_page := ?p\<lparr>pg_vault := v', pg_view := run_view reduce ?plan (pg_view ?p)\<rparr>\<rparr>"
  have "RunRestore \<in> set (clicks t)" using app_clicks [OF p view] a(3) by simp
  moreover have "perform reduce RunRestore (a\<lparr>ap_page := ?p\<lparr>pg_vault := v\<rparr>\<rparr>) = Inr b"
    by (simp add: run_restore_def plan b_def)
  ultimately have b: "app_reachable reduce b"
    by (intro app_reachable.step [OF a(1) app_step.click [OF view]])
  obtain w where w: "fire_times (length ?plan + 1) (pg_view (ap_page b)) = Some w"
    "rv_phase w = (if list_all pf_available ?plan then Done else Failed)"
    using run_settles [of ?plan reduce "pg_view ?p"] by (auto simp: b_def simp del: fire_times.simps)
  from app_fires [OF b w(1)] w(2) a(2) show ?thesis
    by (intro exI [of _ "b\<lparr>ap_page := (ap_page b)\<lparr>pg_view := w\<rparr>\<rparr>"]) (simp add: b_def)
qed

lemma done_app: "\<exists>a. app_reachable reduce a \<and> rv_phase (pg_view (ap_page a)) = Done"
proof -
  obtain v where v: "buildModel = Inr v" using build_returns by blast
  then have ok: "vault_ok v" "va_down v = []" using vault_ok_build by blast+
  let ?a = "init_app v"
  have "app_reachable reduce (?a\<lparr>ap_page := (ap_page ?a)\<lparr>pg_view := reset_view (pg_view (ap_page ?a)), pg_dirty := False\<rparr>\<rparr>)"
    using app_reachable.start [OF v] by (rule app_reachable.step [OF _ app_step.effect]) (simp add: init_app_def)
  from app_run [OF this] have "\<exists>b. app_reachable reduce b \<and> \<not> pg_dirty (ap_page b)
      \<and> rv_phase (pg_view (ap_page b)) = (if list_all pf_available (plan_for []) then Done else Failed)"
    by (simp add: init_app_def reset_view_def ok(2))
  moreover have "replicas_of h \<noteq> {}" for h using replicas_card(1) [of h] by auto
  then have "list_all pf_available (plan_for [])"
    using plan_for_available [OF ok(1)] by (simp add: ok(2) lost_def)
  ultimately show ?thesis by auto
qed

end
