(* ===== verification/Page_Machine.thy ===== *)
theory Page_Machine
  imports App
begin

text \<open>
  What the running page promises, as an abstract machine: a set of failed nodes, whether a change
  of it still has its effect to run, and a run that rests, counts down its timers or has
  settled. Whether a run succeeds is decided when it starts, by the failed nodes of that
  moment. Every step of the page is a step of this machine. Further, calling the components any
  number of times, as React may, shows the same page.
\<close>

section \<open>The machine\<close>

datatype run = Rest | Busy nat bool | Settled bool

record machine =
  am_failed :: "int set"
  am_stale :: bool
  am_run :: run

text \<open>Every chunk of the second snapshot has a replica outside the set.\<close>

definition recoverable :: "int set \<Rightarrow> bool" where
  "recoverable D \<longleftrightarrow> (\<forall>h \<in> set (uniqueChunks v2_manifest). \<not> replicas_of h \<subseteq> D)"

inductive machine_step :: "machine \<Rightarrow> machine \<Rightarrow> bool" where
  stutter: "machine_step s s"
| switch: "0 \<le> i \<Longrightarrow> i < 5 \<Longrightarrow> machine_step s (s\<lparr>am_failed :=
    (if i \<in> am_failed s then am_failed s - {i} else insert i (am_failed s)), am_stale := True\<rparr>)"
| recover: "machine_step s (s\<lparr>am_failed := {}, am_stale := True\<rparr>)"
| reset: "am_stale s \<Longrightarrow> machine_step s (s\<lparr>am_run := Rest, am_stale := False\<rparr>)"
| start: "am_run s = Rest \<or> am_run s = Settled b \<Longrightarrow>
    machine_step s (s\<lparr>am_run := Busy 15 (recoverable (am_failed s))\<rparr>)"
| tick: "am_run s = Busy (Suc (Suc k)) b \<Longrightarrow> machine_step s (s\<lparr>am_run := Busy (Suc k) b\<rparr>)"
| settle: "am_run s = Busy (Suc 0) b \<Longrightarrow> machine_step s (s\<lparr>am_run := Settled b\<rparr>)"

text \<open>The machine that a page stands for: a run counts its pending timers, the last of which
  settles it.\<close>

definition run_of :: "restore_view \<Rightarrow> run" where
  "run_of w =
     (case rv_phase w of
        Idle \<Rightarrow> Rest
      | Running \<Rightarrow> Busy (length (rv_timers w)) (snd (last (rv_timers w)) = Settle False)
      | Done \<Rightarrow> Settled True
      | Failed \<Rightarrow> Settled False)"

definition machine_of :: "app \<Rightarrow> machine" where
  "machine_of a = \<lparr>am_failed = set (va_down (pg_vault (ap_page a))), am_stale = pg_dirty (ap_page a),
                   am_run = run_of (pg_view (ap_page a))\<rparr>"

section \<open>The page refines the machine\<close>

lemma recoverable_plan: "list_all pf_available (plan_for down) \<longleftrightarrow> recoverable (set down)"
  by (simp add: plan_for_def list_all_iff planned_available recoverable_def)

lemma run_of_run: "run_of (run_view reduce (plan_for down) w) = Busy 15 (recoverable (set down))"
proof -
  have "rv_phase (run_view reduce (plan_for down) w) = Running" by (simp add: run_view_def Let_def)
  moreover have "list_ex (\<lambda>p. \<not> pf_available p) (plan_for down) \<longleftrightarrow> \<not> recoverable (set down)"
    by (simp add: recoverable_plan [symmetric] list_ex_iff list_all_iff)
  ultimately show ?thesis
    by (simp add: run_of_def length_run_timers length_plan_for) (simp add: run_view_timers)
qed

lemma run_of_fire:
  assumes "view_ok plan w" "fire w = Some w'"
  shows "run_of w' = (case run_of w of
      Busy (Suc (Suc k)) b \<Rightarrow> Busy (Suc k) b
    | Busy (Suc 0) b \<Rightarrow> Settled b
    | r \<Rightarrow> r)"
proof (cases "rv_phase w = Running")
  case False
  with assms have "w' = w" by (cases "rv_phase w") (auto simp: view_ok_def fire_def)
  with False show ?thesis by (cases "rv_phase w") (simp_all add: run_of_def)
next
  case True
  then obtain rs d b where ts: "rv_timers w = rs @ [(d, Settle b)]"
    using assms(1) by (auto simp: view_ok_def running_ok_def)
  note timers = fire_timers [OF assms(2)] and phase = fire_phase [OF assms(1) True assms(2)]
  show ?thesis
  proof (cases rs)
    case Nil
    then show ?thesis using True assms(2) by (cases b) (auto simp: ts fire_def run_of_def)
  next
    case (Cons t rs')
    then have "rv_phase w' = Running" using phase by (simp add: ts)
    with Cons True timers show ?thesis by (simp add: run_of_def ts)
  qed
qed

lemma not_busy: "rv_phase w \<noteq> Running \<Longrightarrow> \<exists>b. run_of w = Rest \<or> run_of w = Settled b"
  by (cases "rv_phase w") (auto simp: run_of_def)

lemma run_of_reset: "run_of (reset_view w) = Rest"
  by (simp add: run_of_def reset_view_def)

lemma set_down_toggle:
  "set (va_down (toggleNode i v)) = (if i \<in> set (va_down v) then set (va_down v) - {i} else insert i (set (va_down v)))"
  by (auto simp: toggleNode_def)

lemma click_refines:
  assumes p: "page_reachable reduce (ap_page a)" and act: "act \<in> set (clicks t)" "app_view reduce a = Inr (t, v)"
    and perform: "perform reduce act (a\<lparr>ap_page := (ap_page a)\<lparr>pg_vault := v\<rparr>\<rparr>) = Inr a'"
  shows "machine_step (machine_of a) (machine_of a')"
proof -
  let ?s = "machine_of a"
  have ok: "vault_ok v" using page_reachable_ok [OF app_view_reachable [OF p act(2)]] by (simp add: page_ok_def)
  have down: "va_down v = va_down (pg_vault (ap_page a))" using app_view_result [OF p] act(2) by auto
  note clicks = app_clicks [OF p act(2)]
  show ?thesis
  proof (cases act)
    case (ToggleNode i)
    then have "i < 5" using act(1) clicks by (auto split: if_splits)
    then have "machine_step ?s (?s\<lparr>am_failed := (if int i \<in> am_failed ?s then am_failed ?s - {int i}
        else insert (int i) (am_failed ?s)), am_stale := True\<rparr>)" by (intro machine_step.switch) simp_all
    with perform show ?thesis by (auto simp: ToggleNode machine_of_def set_down_toggle down)
  next
    case RecoverNodes
    with perform machine_step.recover [of ?s] show ?thesis by (auto simp: machine_of_def vault_recoverAll_def)
  next
    case RunRestore
    then have "rv_phase (pg_view (ap_page a)) \<noteq> Running" using act(1) clicks by auto
    then obtain b where "am_run ?s = Rest \<or> am_run ?s = Settled b"
      using not_busy by (auto simp: machine_of_def)
    from machine_step.start [OF this]
    have "machine_step ?s (?s\<lparr>am_run := Busy 15 (recoverable (set (va_down v)))\<rparr>)"
      by (simp add: down machine_of_def)
    moreover obtain v' where "vault_plan v = Inr (plan_for (va_down v), v')" "va_down v' = va_down v"
      using vault_plan_result [OF ok] by blast
    ultimately show ?thesis
      using perform down by (auto simp: RunRestore run_restore_def machine_of_def run_of_run)
  next
    case (ShowSnap snap)
    with perform machine_step.stutter [of ?s] show ?thesis by (auto simp: machine_of_def down)
  next
    case (SelectChunk h)
    with perform machine_step.stutter [of ?s] show ?thesis by (auto simp: machine_of_def down)
  qed
qed

lemma app_refines:
  assumes a: "app_reachable reduce a" and step: "app_step reduce a a'"
  shows "machine_step (machine_of a) (machine_of a')"
proof -
  have p: "page_reachable reduce (ap_page a)" using app_reachable_page [OF a] by blast
  from step show ?thesis
  proof (cases rule: app_step.cases)
    case (render t v)
    then have "va_down v = va_down (pg_vault (ap_page a))" using app_view_result [OF p] by auto
    with render machine_step.stutter [of "machine_of a"] show ?thesis by (simp add: machine_of_def)
  next
    case (click t v act)
    from click_refines [OF p click(2,1,3)] show ?thesis .
  next
    case effect
    with machine_step.reset [of "machine_of a"] show ?thesis
      by (simp add: machine_of_def run_of_reset)
  next
    case (timer w)
    obtain plan where ok: "view_ok plan (pg_view (ap_page a))"
      using page_reachable_ok [OF p] by (auto simp: page_ok_def)
    note fired = run_of_fire [OF ok timer(2)]
    let ?s = "machine_of a"
    have a': "machine_of a' = ?s\<lparr>am_run := run_of w\<rparr>" by (simp add: timer(1) machine_of_def)
    have run: "am_run ?s = run_of (pg_view (ap_page a))" by (simp add: machine_of_def)
    show ?thesis
    proof (cases "\<exists>k b. am_run ?s = Busy (Suc k) b")
      case True
      then obtain k b where k: "am_run ?s = Busy (Suc k) b" by blast
      then show ?thesis
        using fired machine_step.settle [of ?s b] machine_step.tick [of ?s _ b]
        by (cases k) (simp_all add: a' run)
    next
      case False
      then have "run_of w = am_run ?s"
        using fired by (auto simp: run split: run.splits nat.splits)
      then have "machine_of a' = ?s" by (simp add: a')
      then show ?thesis using machine_step.stutter [of ?s] by simp
    qed
  qed
qed

text \<open>The machine starts at rest, with the effect of the first render to run.\<close>

definition machine_start :: machine where
  "machine_start = \<lparr>am_failed = {}, am_stale = True, am_run = Rest\<rparr>"

lemma app_machine: "app_reachable reduce a \<Longrightarrow> rtranclp machine_step machine_start (machine_of a)"
proof (induction rule: app_reachable.induct)
  case (start v)
  then have "machine_of (init_app v) = machine_start"
    using vault_ok_build by (simp add: machine_of_def init_app_def init_view_def run_of_def machine_start_def)
  then show ?case by simp
next
  case (step a a')
  then show ?case using app_refines by (blast intro: rtranclp.rtrancl_into_rtrancl)
qed

section \<open>Rendering twice\<close>

text \<open>A render switches nodes of the one cluster; a second one finds them as they should be.\<close>

lemma sync_again:
  assumes "vault_ok v" "sync v = Inr v'"
  shows "sync v' = Inr v'"
proof -
  have "synced v'" using sync_result [OF assms(1)] assms(2) by auto
  then have "sync_loop (va_down v') [0..nodeCount (va_cluster v') - 1] (va_cluster v') = Inr (va_cluster v')"
    by (intro sync_loop_current) (simp_all add: synced_def nodeCount_def)
  then show ?thesis by (simp add: sync_def)
qed

text \<open>Once the cluster is as it should be, the queries of a render leave the vault alone.\<close>

lemma settled_failure_view:
  assumes p: "page_ok p" and sync: "sync (pg_vault p) = Inr (pg_vault p)"
  shows "\<exists>t. failure_view p = Inr (t, pg_vault p)"
proof -
  let ?v = "pg_vault p"
  have "nodeChunkCounts ?v = Inr (map ns_chunks (status (va_cluster ?v)), ?v)"
    by (simp add: nodeChunkCounts_def sync)
  moreover have "chunksUp ?v = Inr (length (filter (\<lambda>h. chunkAvailable h (va_cluster ?v)) (uniqueHashes ?v)), ?v)"
    by (simp add: chunksUp_def sync)
  moreover obtain msg v where "banner p = Inr (msg, v)" using banner_returns [OF p] by blast
  moreover from banner_steps [OF this] sync have "v = ?v" by auto
  ultimately show ?thesis by (simp add: failure_view_def)
qed

lemma app_view_synced:
  assumes p: "page_reachable reduce (ap_page a)"
  shows "\<exists>v distribution failure. sync (pg_vault (ap_page a)) = Inr v
    \<and> app_view reduce a = Inr (app_tree reduce a distribution failure, v)
    \<and> distribution_view (ap_selected a) (pg_vault (ap_page a)) = Inr (distribution, v)
    \<and> distribution_view (ap_selected a) v = Inr (distribution, v)
    \<and> failure_view ((ap_page a)\<lparr>pg_vault := v\<rparr>) = Inr (failure, v)"
proof -
  let ?p = "ap_page a"
  have ok: "vault_ok (pg_vault ?p)" using page_reachable_ok [OF p] by (simp add: page_ok_def)
  then obtain v where v: "sync (pg_vault ?p) = Inr v" using sync_result by blast
  note again = sync_again [OF ok v]
  obtain failure where failure: "failure_view (?p\<lparr>pg_vault := v\<rparr>) = Inr (failure, v)"
    using settled_failure_view [of "?p\<lparr>pg_vault := v\<rparr>"] again page_reachable_ok [OF page_query [OF p v]] by auto
  define d where "d = placement_view (ap_selected a) (map ns_chunks (status (va_cluster v))) v"
  have "distribution_view (ap_selected a) (pg_vault ?p) = Inr (d, v)" "distribution_view (ap_selected a) v = Inr (d, v)"
    by (simp_all add: distribution_view_def nodeChunkCounts_def v again d_def)
  with v failure show ?thesis by (auto simp: app_view_def)
qed

lemma tree_cluster:
  "app_tree reduce (a\<lparr>ap_page := (ap_page a)\<lparr>pg_vault := (pg_vault (ap_page a))\<lparr>va_cluster := c\<rparr>\<rparr>\<rparr>) distribution failure
     = app_tree reduce a distribution failure"
  by (simp add: app_tree_def Let_def hero_view_def chunks_view_def current_def dedup_sentence_def edited_chunk_def
      split: snap.split)

lemma repeated_same:
  assumes "app_reachable reduce a"
  shows "repeated_view i j reduce a = app_view reduce a"
    and "app_view reduce a = Inr (t, v) \<Longrightarrow> app_view reduce (a\<lparr>ap_page := (ap_page a)\<lparr>pg_vault := v\<rparr>\<rparr>) = Inr (t, v)"
proof -
  have p: "page_reachable reduce (ap_page a)" using app_reachable_page [OF assms] by blast
  obtain v' d f where v: "sync (pg_vault (ap_page a)) = Inr v'" "app_view reduce a = Inr (app_tree reduce a d f, v')"
    "distribution_view (ap_selected a) (pg_vault (ap_page a)) = Inr (d, v')"
    "distribution_view (ap_selected a) v' = Inr (d, v')" "failure_view ((ap_page a)\<lparr>pg_vault := v'\<rparr>) = Inr (f, v')"
    using app_view_synced [OF p] by blast
  show "repeated_view i j reduce a = app_view reduce a"
    by (simp add: repeated_view_def v Let_def call_again_stable)
  obtain c where c: "v' = (pg_vault (ap_page a))\<lparr>va_cluster := c\<rparr>" using sync_frame [OF v(1)] by blast
  have "app_view reduce (a\<lparr>ap_page := (ap_page a)\<lparr>pg_vault := v'\<rparr>\<rparr>) = Inr (app_tree reduce a d f, v')"
    using tree_cluster [where reduce = reduce and a = a and c = c and distribution = d and failure = f] by (simp add: app_view_def v(4,5) flip: c)
  then show "app_view reduce (a\<lparr>ap_page := (ap_page a)\<lparr>pg_vault := v\<rparr>\<rparr>) = Inr (t, v)" if "app_view reduce a = Inr (t, v)"
    using that v(2) by simp
qed

end
