(* ===== verification/Typed_Arrays.thy ===== *)
theory Typed_Arrays
  imports Prelude
begin

text \<open>
  Byte arrays as the program has them: objects that are shared and written in place. A
  \<open>Uint8Array\<close> is a view of a buffer, \<open>subarray\<close> shares the buffer, \<open>slice\<close> copies it. The
  other theories take an array for the bytes it holds; \<open>array_owner\<close> states when that is
  right: an object that keeps only copies, and hands out only copies, behaves for a client
  that writes into every array it has seen as if it kept values.
\<close>

section \<open>Buffers and views\<close>

record array_heap =
  hp_next :: nat
  hp_data :: "nat \<Rightarrow> bytes"

record view =
  vw_buf :: nat
  vw_off :: nat
  vw_len :: nat

definition empty_heap :: array_heap where
  "empty_heap = \<lparr>hp_next = 0, hp_data = (\<lambda>_. [])\<rparr>"

definition read_view :: "array_heap \<Rightarrow> view \<Rightarrow> bytes" where
  "read_view h w = take (vw_len w) (drop (vw_off w) (hp_data h (vw_buf w)))"

text \<open>\<open>new Uint8Array\<close> on given bytes, \<open>a.slice()\<close>, \<open>a.subarray(from, to)\<close>, \<open>a[i] = x\<close> (a write
  past the end is ignored) and \<open>a.set(p, off)\<close>.\<close>

definition new_array :: "bytes \<Rightarrow> array_heap \<Rightarrow> view \<times> array_heap" where
  "new_array bs h =
     (\<lparr>vw_buf = hp_next h, vw_off = 0, vw_len = length bs\<rparr>,
      h\<lparr>hp_next := hp_next h + 1, hp_data := (hp_data h)(hp_next h := bs)\<rparr>)"

definition slice_view :: "view \<Rightarrow> array_heap \<Rightarrow> view \<times> array_heap" where
  "slice_view w h = new_array (read_view h w) h"

definition subarray_view :: "view \<Rightarrow> nat \<Rightarrow> nat \<Rightarrow> view" where
  "subarray_view w from to =
     (let a = min from (vw_len w); b = min to (vw_len w)
      in w\<lparr>vw_off := vw_off w + a, vw_len := b - a\<rparr>)"

definition write_view :: "view \<Rightarrow> nat \<Rightarrow> 8 word \<Rightarrow> array_heap \<Rightarrow> array_heap" where
  "write_view w i x h =
     (if i < vw_len w
      then h\<lparr>hp_data := (hp_data h)(vw_buf w := (hp_data h (vw_buf w))[vw_off w + i := x])\<rparr>
      else h)"

definition set_view :: "view \<Rightarrow> nat \<Rightarrow> view \<Rightarrow> array_heap \<Rightarrow> array_heap throws" where
  "set_view w off p h =
     (if off + vw_len p \<le> vw_len w
      then Inr (h\<lparr>hp_data := (hp_data h)(vw_buf w :=
             take (vw_off w + off) (hp_data h (vw_buf w)) @ read_view h p
               @ drop (vw_off w + off + vw_len p) (hp_data h (vw_buf w)))\<rparr>)
      else Inl (Error ''offset is out of bounds''))"

definition array_ok :: "array_heap \<Rightarrow> view \<Rightarrow> bool" where
  "array_ok h w \<longleftrightarrow> vw_buf w < hp_next h \<and> vw_off w + vw_len w \<le> length (hp_data h (vw_buf w))"

text \<open>A heap extends another one: new buffers, and the old ones as they were.\<close>

definition extends :: "array_heap \<Rightarrow> array_heap \<Rightarrow> bool" where
  "extends h h' \<longleftrightarrow> hp_next h \<le> hp_next h' \<and> (\<forall>b < hp_next h. hp_data h' b = hp_data h b)"

lemma extends_refl [simp, intro]: "extends h h"
  by (simp add: extends_def)

lemma extends_trans [trans]: "extends h h' \<Longrightarrow> extends h' h'' \<Longrightarrow> extends h h''"
  by (auto simp: extends_def)

lemma extends_next: "extends h h' \<Longrightarrow> hp_next h \<le> hp_next h'"
  by (simp add: extends_def)

lemma extends_view:
  assumes "extends h h'" "array_ok h w"
  shows "array_ok h' w" "read_view h' w = read_view h w"
  using assms by (auto simp: extends_def array_ok_def read_view_def)

lemma length_read_view: "array_ok h w \<Longrightarrow> length (read_view h w) = vw_len w"
  by (auto simp: read_view_def array_ok_def min_def)

lemma new_array_result:
  assumes "new_array bs h = (w, h')"
  shows "extends h h'" "array_ok h' w" "read_view h' w = bs" "vw_buf w = hp_next h"
    "vw_len w = length bs" "vw_off w = 0" "hp_next h' = hp_next h + 1"
  using assms by (auto simp: new_array_def extends_def array_ok_def read_view_def)

lemma slice_view_result:
  assumes "slice_view w h = (c, h')"
  shows "extends h h'" "array_ok h' c" "read_view h' c = read_view h w" "vw_buf c = hp_next h"
    "hp_next h' = hp_next h + 1"
  using new_array_result [OF assms [unfolded slice_view_def]] by simp_all

lemma subarray_view_buf [simp]: "vw_buf (subarray_view w from to) = vw_buf w"
  by (simp add: subarray_view_def Let_def)

lemma subarray_view_ok: "array_ok h w \<Longrightarrow> array_ok h (subarray_view w from to)"
  by (auto simp: array_ok_def subarray_view_def Let_def)

lemma read_subarray:
  assumes "array_ok h w" "from \<le> to" "to \<le> vw_len w"
  shows "read_view h (subarray_view w from to) = take (to - from) (drop from (read_view h w))"
  using assms by (simp add: read_view_def subarray_view_def array_ok_def Let_def drop_take min_def add.commute)

lemma write_view_frame:
  "hp_next (write_view w i x h) = hp_next h"
  "b \<noteq> vw_buf w \<Longrightarrow> hp_data (write_view w i x h) b = hp_data h b"
  "length (hp_data (write_view w i x h) b) = length (hp_data h b)"
  by (simp_all add: write_view_def)

lemma write_view_ok: "array_ok (write_view w i x h) v \<longleftrightarrow> array_ok h v"
  by (simp add: array_ok_def write_view_frame)

text \<open>\<open>set\<close> into a whole buffer is the operation on bytes.\<close>

lemma set_view_result:
  assumes "set_view w off p h = Inr h'" "array_ok h w" "array_ok h p" "vw_off w = 0" "vw_len w = length (hp_data h (vw_buf w))"
  shows "read_view h' w = take off (read_view h w) @ read_view h p @ drop (off + vw_len p) (read_view h w)"
    "hp_next h' = hp_next h" "\<And>b. b \<noteq> vw_buf w \<Longrightarrow> hp_data h' b = hp_data h b" "array_ok h' w"
    "length (hp_data h' (vw_buf w)) = length (hp_data h (vw_buf w))"
  using assms length_read_view [OF assms(3)]
  by (auto simp: set_view_def read_view_def array_ok_def split: if_splits)

section \<open>Clients\<close>

text \<open>
  A client of an object with heap-level calls. It creates arrays, takes views of arrays it
  knows, writes into them at any time, and calls the object with arrays it knows; the arrays
  of a reply become known. \<open>args\<close> and \<open>outs\<close> are the arrays in a call and a reply, \<open>see\<close> and
  \<open>get\<close> replace them by their bytes. An event records a call as it was seen at its time.
\<close>

type_synonym 'o client = "array_heap \<times> 'o \<times> view set"

inductive client_run ::
    "('c \<Rightarrow> view set) \<Rightarrow> (array_heap \<Rightarrow> 'c \<Rightarrow> 'cv) \<Rightarrow> ('r \<Rightarrow> view set) \<Rightarrow> (array_heap \<Rightarrow> 'r \<Rightarrow> 'rv)
     \<Rightarrow> ('c \<Rightarrow> array_heap \<times> 'o \<Rightarrow> 'r \<times> array_heap \<times> 'o) \<Rightarrow> 'o client \<Rightarrow> ('cv \<times> 'rv) list \<Rightarrow> 'o client \<Rightarrow> bool"
  for args see outs got call where
  idle: "client_run args see outs got call s [] s"
| create: "client_run args see outs got call s es (h, ob, known) \<Longrightarrow> new_array bs h = (w, h') \<Longrightarrow>
    client_run args see outs got call s es (h', ob, insert w known)"
| narrow: "client_run args see outs got call s es (h, ob, known) \<Longrightarrow> w \<in> known \<Longrightarrow>
    client_run args see outs got call s es (h, ob, insert (subarray_view w from to) known)"
| modify: "client_run args see outs got call s es (h, ob, known) \<Longrightarrow> w \<in> known \<Longrightarrow>
    client_run args see outs got call s es (write_view w i x h, ob, known)"
| call: "client_run args see outs got call s es (h, ob, known) \<Longrightarrow> args c \<subseteq> known \<Longrightarrow>
    call c (h, ob) = (r, h', ob') \<Longrightarrow>
    client_run args see outs got call s (es @ [(see h c, got h' r)]) (h', ob', known \<union> outs r)"

text \<open>The object as a value: what it answers to a list of calls, and what it becomes.\<close>

fun replay :: "('c \<Rightarrow> 'v \<Rightarrow> 'r \<times> 'v) \<Rightarrow> 'v \<Rightarrow> ('c \<times> 'r) list \<Rightarrow> 'v option" where
  "replay spec v [] = Some v"
| "replay spec v ((c, r) # es) = (case spec c v of (r', v') \<Rightarrow> if r = r' then replay spec v' es else None)"

lemma replay_append: "replay spec v (es @ es') = (case replay spec v es of None \<Rightarrow> None | Some v' \<Rightarrow> replay spec v' es')"
  by (induction spec v es rule: replay.induct) (auto split: prod.split)

locale array_owner =
  fixes bufs :: "'o \<Rightarrow> nat set"
    and kept :: "array_heap \<Rightarrow> 'o \<Rightarrow> bool"
    and val :: "array_heap \<Rightarrow> 'o \<Rightarrow> 'v"
    and args :: "'c \<Rightarrow> view set"
    and see :: "array_heap \<Rightarrow> 'c \<Rightarrow> 'cv"
    and outs :: "'r \<Rightarrow> view set"
    and got :: "array_heap \<Rightarrow> 'r \<Rightarrow> 'rv"
    and call :: "'c \<Rightarrow> array_heap \<times> 'o \<Rightarrow> 'r \<times> array_heap \<times> 'o"
    and spec :: "'cv \<Rightarrow> 'v \<Rightarrow> 'rv \<times> 'v"
  assumes kept_old: "kept h ob \<Longrightarrow> bufs ob \<subseteq> {..<hp_next h}"
    and kept_frame: "kept h ob \<Longrightarrow> hp_next h \<le> hp_next h' \<Longrightarrow>
      (\<And>b. b \<in> bufs ob \<Longrightarrow> hp_data h' b = hp_data h b) \<Longrightarrow> kept h' ob \<and> val h' ob = val h ob"
    and call_value: "kept h ob \<Longrightarrow> (\<And>w. w \<in> args c \<Longrightarrow> array_ok h w) \<Longrightarrow> call c (h, ob) = (r, h', ob') \<Longrightarrow>
      spec (see h c) (val h ob) = (got h' r, val h' ob')"
    and call_kept: "kept h ob \<Longrightarrow> (\<And>w. w \<in> args c \<Longrightarrow> array_ok h w) \<Longrightarrow> call c (h, ob) = (r, h', ob') \<Longrightarrow>
      kept h' ob' \<and> extends h h'"
    and call_fresh: "kept h ob \<Longrightarrow> (\<And>w. w \<in> args c \<Longrightarrow> array_ok h w) \<Longrightarrow> call c (h, ob) = (r, h', ob') \<Longrightarrow>
      bufs ob' \<subseteq> bufs ob \<union> {hp_next h..<hp_next h'}"
    and call_outs: "kept h ob \<Longrightarrow> (\<And>w. w \<in> args c \<Longrightarrow> array_ok h w) \<Longrightarrow> call c (h, ob) = (r, h', ob') \<Longrightarrow>
      w \<in> outs r \<Longrightarrow> array_ok h' w \<and> hp_next h \<le> vw_buf w \<and> vw_buf w \<notin> bufs ob'"
begin

text \<open>The client and the object never share a buffer.\<close>

definition apart :: "'o client \<Rightarrow> bool" where
  "apart s \<longleftrightarrow> (case s of (h, ob, known) \<Rightarrow>
     kept h ob \<and> (\<forall>w \<in> known. array_ok h w \<and> vw_buf w \<notin> bufs ob))"

lemma client_isolated:
  assumes "client_run args see outs got call s es s'" "apart s"
  shows "apart s' \<and> replay spec (val (fst s) (fst (snd s))) es = Some (val (fst s') (fst (snd s')))"
  using assms
proof (induction rule: client_run.induct)
  case (idle s)
  then show ?case by simp
next
  case (create s es h ob known bs w h')
  have IH: "kept h ob" "\<And>v. v \<in> known \<Longrightarrow> array_ok h v \<and> vw_buf v \<notin> bufs ob"
    "replay spec (val (fst s) (fst (snd s))) es = Some (val h ob)"
    using create.IH create.prems by (auto simp: apart_def)
  note new = new_array_result [OF create.hyps(2)]
  have "kept h' ob \<and> val h' ob = val h ob"
    using kept_old [OF IH(1)] new(1) by (intro kept_frame [OF IH(1)]) (auto simp: extends_def)
  moreover have "vw_buf w \<notin> bufs ob" using kept_old [OF IH(1)] new(4) by auto
  ultimately show ?case
    using IH(2,3) extends_view(1) [OF new(1)] new(2) by (auto simp: apart_def)
next
  case (narrow s es h ob known w a b)
  then show ?case by (auto simp: apart_def subarray_view_ok)
next
  case (modify s es h ob known w i x)
  have IH: "kept h ob" "\<And>v. v \<in> known \<Longrightarrow> array_ok h v \<and> vw_buf v \<notin> bufs ob"
    "replay spec (val (fst s) (fst (snd s))) es = Some (val h ob)"
    using modify.IH modify.prems by (auto simp: apart_def)
  have "kept (write_view w i x h) ob \<and> val (write_view w i x h) ob = val h ob"
  proof (rule kept_frame [OF IH(1)])
    show "hp_data (write_view w i x h) b = hp_data h b" if "b \<in> bufs ob" for b
      using IH(2) [OF modify.hyps(2)] that by (intro write_view_frame(2)) auto
  qed (simp add: write_view_frame)
  then show ?case
    using IH(2,3) by (auto simp: apart_def write_view_ok)
next
  case (call s es h ob known c r h' ob')
  have IH: "kept h ob" "\<And>v. v \<in> known \<Longrightarrow> array_ok h v \<and> vw_buf v \<notin> bufs ob"
    "replay spec (val (fst s) (fst (snd s))) es = Some (val h ob)"
    using call.IH call.prems by (auto simp: apart_def)
  have ok: "array_ok h w" if "w \<in> args c" for w using IH(2) call.hyps(2) that by blast
  note res = call_value [OF IH(1) ok call.hyps(3)] call_kept [OF IH(1) ok call.hyps(3)]
    call_fresh [OF IH(1) ok call.hyps(3)] call_outs [OF IH(1) ok call.hyps(3)]
  have "array_ok h' w \<and> vw_buf w \<notin> bufs ob'" if "w \<in> known" for w
  proof -
    have "array_ok h' w" using extends_view(1) IH(2) [OF that] res(2) by blast
    moreover have "vw_buf w < hp_next h" using IH(2) [OF that] by (simp add: array_ok_def)
    ultimately show ?thesis using res(3) IH(2) [OF that] by auto
  qed
  then show ?case
    using IH(3) res(1,2,4) by (auto simp: apart_def replay_append)
qed

end

end
