(* ===== verification/Array_Engine.thy ===== *)
theory Array_Engine
  imports Typed_Arrays Engine_Correct
begin

text \<open>
  chunker.ts, contentStore.ts and engine.ts once more, with byte arrays and manifests as shared
  objects: chunks are views of the file's buffer, the store keeps a copy and hands out copies,
  and a restore fills a new array; a snapshot stores the manifest object that it returns, and
  \<open>loadManifest\<close> hands out that object, so a caller that writes into it changes what the engine
  restores. A manifest object is an index of \<open>ae_objects\<close>; its file entries and name lists are
  part of it. Each operation is proved to do on arrays what the definition of the same name
  does on bytes, and the engine is an \<open>array_owner\<close> of its arrays. What a client reads back is
  what it stored as long as it leaves the manifest object of that snapshot alone.
\<close>

section \<open>The code on arrays\<close>

type_synonym array_store = "(string, view) js_map"

record array_engine =
  ae_store :: array_store
  ae_objects :: "manifest list"
  ae_manifests :: "(string, nat) js_map"
  ae_chunkSize :: int

record array_result =
  ar_manifest :: nat
  ar_stats :: snapshot_stats
  ar_trace :: "file_trace list"

definition anew_engine :: "int \<Rightarrow> array_engine" where
  "anew_engine chunkSize =
     \<lparr>ae_store = [], ae_objects = [], ae_manifests = [],
      ae_chunkSize = (if chunkSize \<le> 0 then DEFAULT_CHUNK_SIZE else chunkSize)\<rparr>"

text \<open>contentStore.ts, lines 15 to 26.\<close>

definition astore_put :: "string \<Rightarrow> view \<Rightarrow> array_heap \<times> array_store \<Rightarrow> bool \<times> array_heap \<times> array_store" where
  "astore_put hash w = (\<lambda>(h, s).
     if map_has s hash then (False, h, s)
     else let (copy, h) = slice_view w h in (True, h, map_set hash copy s))"

definition astore_get :: "string \<Rightarrow> array_store \<Rightarrow> array_heap \<Rightarrow> view throws \<times> array_heap" where
  "astore_get hash s h =
     (case map_get s hash of
        None \<Rightarrow> (Inl (Error (''chunk not found in store: '' @ hash)), h)
      | Some buf \<Rightarrow> let (copy, h) = slice_view buf h in (Inr copy, h))"

text \<open>chunker.ts, lines 17 to 31: a chunk is a \<open>subarray\<close>.\<close>

function achunk_loop :: "array_heap \<Rightarrow> view \<Rightarrow> nat \<Rightarrow> nat \<Rightarrow> (string \<times> view) list \<Rightarrow> (string \<times> view) list" where
  "achunk_loop h buffer chunkSize offset chunks =
     (if offset < vw_len buffer \<and> 0 < chunkSize
      then let len = min chunkSize (vw_len buffer - offset);
               data = subarray_view buffer offset (offset + len)
           in achunk_loop h buffer chunkSize (offset + len) (chunks @ [(sha256Hex (read_view h data), data)])
      else chunks)"
  by pat_completeness auto
termination
  by (relation "measure (\<lambda>(h, buffer, chunkSize, offset, chunks). vw_len buffer - offset)") auto

declare achunk_loop.simps [simp del]

definition achunkBuffer :: "array_heap \<Rightarrow> view \<Rightarrow> int \<Rightarrow> (string \<times> view) list" where
  "achunkBuffer h buffer chunkSize = achunk_loop h buffer (nat (effective_chunk_size chunkSize)) 0 []"

text \<open>engine.ts, lines 66 to 105.\<close>

fun asnapshot_chunks ::
  "(string \<times> view) list \<Rightarrow> array_heap \<Rightarrow> array_store \<Rightarrow> snapshot_stats \<Rightarrow> file_entry \<Rightarrow> file_trace
   \<Rightarrow> array_heap \<times> array_store \<times> snapshot_stats \<times> file_entry \<times> file_trace" where
  "asnapshot_chunks [] h store stats fe fileTrace = (h, store, stats, fe, fileTrace)"
| "asnapshot_chunks ((hash, data) # cs) h store stats fe fileTrace =
     (let fe = fe\<lparr>fe_chunks := fe_chunks fe @ [hash]\<rparr>;
          stats = stats\<lparr>st_chunks := st_chunks stats + 1\<rparr>;
          (isNew, h, store) = astore_put hash data (h, store);
          stats = (if isNew then stats\<lparr>st_newChunks := st_newChunks stats + 1\<rparr>
                   else stats\<lparr>st_dedupedChunks := st_dedupedChunks stats + 1\<rparr>);
          fileTrace = fileTrace\<lparr>ft_chunks := ft_chunks fileTrace @ [\<lparr>ct_hash = hash, ct_isNew = isNew\<rparr>]\<rparr>
      in asnapshot_chunks cs h store stats fe fileTrace)"

fun asnapshot_files ::
  "int \<Rightarrow> (string \<times> view) list \<Rightarrow> array_heap \<Rightarrow> array_store \<Rightarrow> snapshot_stats \<Rightarrow> manifest \<Rightarrow> file_trace list
   \<Rightarrow> array_heap \<times> array_store \<times> snapshot_stats \<times> manifest \<times> file_trace list" where
  "asnapshot_files cs [] h store stats mf trace = (h, store, stats, mf, trace)"
| "asnapshot_files cs ((path, data) # srcs) h store stats mf trace =
     (let fe = \<lparr>fe_path = path, fe_size = vw_len data, fe_chunks = []\<rparr>;
          stats = stats\<lparr>st_bytes := st_bytes stats + vw_len data\<rparr>;
          fileTrace = \<lparr>ft_path = path, ft_chunks = []\<rparr>;
          (h, store, stats, fe, fileTrace) =
            asnapshot_chunks (achunkBuffer h data cs) h store stats fe fileTrace;
          mf = mf\<lparr>mf_files := mf_files mf @ [fe]\<rparr>;
          trace = trace @ [fileTrace];
          stats = stats\<lparr>st_files := st_files stats + 1\<rparr>
      in asnapshot_files cs srcs h store stats mf trace)"

text \<open>The manifest that is built is a new object; its reference is stored and returned.\<close>

definition asnapshot ::
  "string \<Rightarrow> (string \<times> view) list \<Rightarrow> array_heap \<times> array_engine \<Rightarrow> array_result \<times> array_heap \<times> array_engine" where
  "asnapshot name files = (\<lambda>(h, e).
     let mf = \<lparr>mf_name = name, mf_chunkSize = ae_chunkSize e, mf_files = []\<rparr>;
         stats = \<lparr>st_files = 0, st_chunks = 0, st_newChunks = 0, st_dedupedChunks = 0, st_bytes = 0\<rparr>;
         ordered = js_sort (\<lambda>a b. if fst a < fst b then -1 else 1) files;
         (h, store, stats, mf, trace) = asnapshot_files (ae_chunkSize e) ordered h (ae_store e) stats mf [];
         manifest = length (ae_objects e)
     in (\<lparr>ar_manifest = manifest, ar_stats = stats, ar_trace = trace\<rparr>, h,
         e\<lparr>ae_store := store, ae_objects := ae_objects e @ [mf],
           ae_manifests := map_set name manifest (ae_manifests e)\<rparr>))"

definition aloadManifest :: "string \<Rightarrow> array_engine \<Rightarrow> nat throws" where
  "aloadManifest name e =
     (case map_get (ae_manifests e) name of
        None \<Rightarrow> Inl (Error (''snapshot not found: '' @ name))
      | Some m \<Rightarrow> Inr m)"

text \<open>engine.ts, lines 114 to 134.\<close>

fun aget_parts :: "array_store \<Rightarrow> string list \<Rightarrow> array_heap \<Rightarrow> view list throws \<times> array_heap" where
  "aget_parts s [] h = (Inr [], h)"
| "aget_parts s (hash # hs) h =
     (case astore_get hash s h of
        (Inl err, h) \<Rightarrow> (Inl err, h)
      | (Inr buf, h) \<Rightarrow> (case aget_parts s hs h of
            (Inl err, h) \<Rightarrow> (Inl err, h)
          | (Inr parts, h) \<Rightarrow> (Inr (buf # parts), h)))"

fun aset_parts :: "view \<Rightarrow> nat \<Rightarrow> view list \<Rightarrow> array_heap \<Rightarrow> unit throws \<times> array_heap" where
  "aset_parts data off [] h = (Inr (), h)"
| "aset_parts data off (p # ps) h =
     (case set_view data off p h of
        Inl err \<Rightarrow> (Inl err, h)
      | Inr h \<Rightarrow> aset_parts data (off + vw_len p) ps h)"

definition arestore_file :: "array_store \<Rightarrow> file_entry \<Rightarrow> array_heap \<Rightarrow> (string \<times> view) throws \<times> array_heap" where
  "arestore_file s fe h =
     (case aget_parts s (fe_chunks fe) h of
        (Inl err, h) \<Rightarrow> (Inl err, h)
      | (Inr parts, h) \<Rightarrow>
          let total = foldl (\<lambda>t buf. t + vw_len buf) 0 parts;
              (data, h) = new_array (replicate total 0) h
          in case aset_parts data 0 parts h of
               (Inl err, h) \<Rightarrow> (Inl err, h)
             | (Inr _, h) \<Rightarrow> (Inr (fe_path fe, data), h))"

fun arestore_files :: "array_store \<Rightarrow> file_entry list \<Rightarrow> array_heap \<Rightarrow> (string \<times> view) list throws \<times> array_heap" where
  "arestore_files s [] h = (Inr [], h)"
| "arestore_files s (fe # fes) h =
     (case arestore_file s fe h of
        (Inl err, h) \<Rightarrow> (Inl err, h)
      | (Inr f, h) \<Rightarrow> (case arestore_files s fes h of
            (Inl err, h) \<Rightarrow> (Inl err, h)
          | (Inr fs, h) \<Rightarrow> (Inr (f # fs), h)))"

definition arestore :: "string \<Rightarrow> array_engine \<Rightarrow> array_heap \<Rightarrow> (string \<times> view) list throws \<times> array_heap" where
  "arestore name e h =
     (case aloadManifest name e of
        Inl err \<Rightarrow> (Inl err, h)
      | Inr m \<Rightarrow> arestore_files (ae_store e) (mf_files (ae_objects e ! m)) h)"

text \<open>engine.ts, lines 138 to 160.\<close>

fun averify_loop :: "array_store \<Rightarrow> string list \<Rightarrow> verify_result \<Rightarrow> array_heap \<Rightarrow> verify_result throws \<times> array_heap" where
  "averify_loop store [] r h = (Inr r, h)"
| "averify_loop store (hash # hs) r h =
     (case astore_get hash store h of
        (Inl err, h) \<Rightarrow> (Inl err, h)
      | (Inr data, h) \<Rightarrow>
          let actual = sha256Hex (read_view h data);
              r = r\<lparr>vr_checked := vr_checked r + 1\<rparr>;
              r = (if actual \<noteq> hash
                   then let r = r\<lparr>vr_bad := vr_bad r + 1\<rparr>
                        in if vr_firstBadHash r = [] then r\<lparr>vr_firstBadHash := hash\<rparr> else r
                   else r)
          in averify_loop store hs r h)"

definition averify :: "string \<Rightarrow> array_engine \<Rightarrow> array_heap \<Rightarrow> verify_result throws \<times> array_heap" where
  "averify name e h =
     (let hashes = (if name = []
                    then Inr (foldl (\<lambda>hs m. collect (ae_objects e ! m) hs) [] (map_values (ae_manifests e)))
                    else case aloadManifest name e of Inl err \<Rightarrow> Inl err | Inr m \<Rightarrow> Inr (collect (ae_objects e ! m) []))
      in case hashes of
           Inl err \<Rightarrow> (Inl err, h)
         | Inr hs \<Rightarrow> averify_loop (ae_store e) hs \<lparr>vr_checked = 0, vr_bad = 0, vr_firstBadHash = []\<rparr> h)"

text \<open>
  The calls of the engine and their replies, over arrays and over bytes. Between the calls a
  client may read a manifest object, or write into it, as in \<open>m.files[0].chunks = []\<close>:
  \<open>EditManifest i m\<close> leaves the object \<open>i\<close> with the contents \<open>m\<close>. A write through a part that the
  client has made two manifests share is one edit of each. An index that no reply has given yet
  is no object, and an edit of it does nothing.
\<close>

datatype 'w engine_call =
    Snapshot string "(string \<times> 'w) list"
  | LoadManifest string
  | Restore string
  | Verify string
  | ReadManifest nat
  | EditManifest nat manifest

datatype 'w engine_reply =
    Snapped array_result
  | Loaded "nat throws"
  | Restored "js_error + (string \<times> 'w) list"
  | Checked "verify_result throws"
  | Contents manifest
  | Edited

fun call_engine :: "view engine_call \<Rightarrow> array_heap \<times> array_engine \<Rightarrow> view engine_reply \<times> array_heap \<times> array_engine" where
  "call_engine (Snapshot name files) (h, e) = (case asnapshot name files (h, e) of (r, h, e) \<Rightarrow> (Snapped r, h, e))"
| "call_engine (LoadManifest name) (h, e) = (Loaded (aloadManifest name e), h, e)"
| "call_engine (Restore name) (h, e) = (case arestore name e h of (r, h) \<Rightarrow> (Restored r, h, e))"
| "call_engine (Verify name) (h, e) = (case averify name e h of (r, h) \<Rightarrow> (Checked r, h, e))"
| "call_engine (ReadManifest i) (h, e) = (Contents (ae_objects e ! i), h, e)"
| "call_engine (EditManifest i m) (h, e) = (Edited, h, e\<lparr>ae_objects := (ae_objects e)[i := m]\<rparr>)"

abbreviation source_of :: "string \<times> bytes \<Rightarrow> source_file" where
  "source_of f \<equiv> \<lparr>sf_path = fst f, sf_data = snd f\<rparr>"

text \<open>The engine over bytes that still shares its manifests, and the engine it is at a moment.\<close>

record held_engine =
  he_store :: content_store
  he_objects :: "manifest list"
  he_manifests :: "(string, nat) js_map"
  he_chunkSize :: int

definition engine_of :: "held_engine \<Rightarrow> engine" where
  "engine_of e = \<lparr>en_store = he_store e, en_manifests = map (\<lambda>(n, i). (n, he_objects e ! i)) (he_manifests e),
     en_chunkSize = he_chunkSize e\<rparr>"

definition held_new :: "int \<Rightarrow> held_engine" where
  "held_new cs = \<lparr>he_store = new_store, he_objects = [], he_manifests = [], he_chunkSize = en_chunkSize (new_engine cs)\<rparr>"

definition held_load :: "string \<Rightarrow> held_engine \<Rightarrow> nat throws" where
  "held_load name e =
     (case map_get (he_manifests e) name of
        None \<Rightarrow> Inl (Error (''snapshot not found: '' @ name))
      | Some i \<Rightarrow> Inr i)"

fun engine_spec :: "bytes engine_call \<Rightarrow> held_engine \<Rightarrow> bytes engine_reply \<times> held_engine" where
  "engine_spec (Snapshot name files) e =
     (case snapshot name (map source_of files) (engine_of e) of (r, e') \<Rightarrow>
        (Snapped \<lparr>ar_manifest = length (he_objects e), ar_stats = sr_stats r, ar_trace = sr_trace r\<rparr>,
         e\<lparr>he_store := en_store e', he_objects := he_objects e @ [sr_manifest r],
           he_manifests := map_set name (length (he_objects e)) (he_manifests e)\<rparr>))"
| "engine_spec (LoadManifest name) e = (Loaded (held_load name e), e)"
| "engine_spec (Restore name) e =
     (Restored (map_sum id (map (\<lambda>f. (sf_path f, sf_data f))) (engine_restore name (engine_of e))), e)"
| "engine_spec (Verify name) e = (Checked (verify name (engine_of e)), e)"
| "engine_spec (ReadManifest i) e = (Contents (he_objects e ! i), e)"
| "engine_spec (EditManifest i m) e = (Edited, e\<lparr>he_objects := (he_objects e)[i := m]\<rparr>)"

section \<open>The store\<close>

definition store_val :: "array_heap \<Rightarrow> array_store \<Rightarrow> content_store" where
  "store_val h s = \<lparr>cs_chunks = map (\<lambda>(k, w). (k, read_view h w)) s\<rparr>"

definition store_kept :: "array_heap \<Rightarrow> array_store \<Rightarrow> bool" where
  "store_kept h s \<longleftrightarrow> (\<forall>(k, w) \<in> set s. array_ok h w)"

definition store_bufs :: "array_store \<Rightarrow> nat set" where
  "store_bufs s = vw_buf ` snd ` set s"

text \<open>What every operation keeps: old buffers are untouched, stored arrays are copies made by the
  operation itself.\<close>

definition store_grows :: "array_heap \<Rightarrow> array_store \<Rightarrow> array_heap \<Rightarrow> array_store \<Rightarrow> bool" where
  "store_grows h s h' s' \<longleftrightarrow> store_kept h' s' \<and> extends h h' \<and> store_bufs s' \<subseteq> store_bufs s \<union> {hp_next h..<hp_next h'}"

lemma store_grows_refl: "store_kept h s \<Longrightarrow> store_grows h s h s"
  by (simp add: store_grows_def)

lemma store_grows_trans: "store_grows h s h' s' \<Longrightarrow> store_grows h' s' h'' s'' \<Longrightarrow> store_grows h s h'' s''"
  using extends_trans [of h h' h''] by (fastforce simp: store_grows_def dest: extends_next)

lemma store_frame:
  assumes "store_kept h s" "hp_next h \<le> hp_next h'" "\<And>b. b \<in> store_bufs s \<Longrightarrow> hp_data h' b = hp_data h b"
  shows "store_kept h' s" "store_val h' s = store_val h s"
  using assms by (fastforce simp: store_kept_def store_bufs_def store_val_def array_ok_def read_view_def)+

lemma store_kept_old: "store_kept h s \<Longrightarrow> store_bufs s \<subseteq> {..<hp_next h}"
  by (auto simp: store_kept_def store_bufs_def array_ok_def)

lemma store_extends:
  assumes "store_kept h s" "extends h h'"
  shows "store_kept h' s" "store_val h' s = store_val h s" "store_grows h s h' s"
proof -
  show *: "store_kept h' s" "store_val h' s = store_val h s"
    using store_frame [of h s h'] assms store_kept_old [OF assms(1)] by (auto simp: extends_def)
  show "store_grows h s h' s" using * assms(2) by (auto simp: store_grows_def)
qed

lemma has_store_val [simp]: "map_has (cs_chunks (store_val h s)) k = map_has s k"
  by (simp add: store_val_def map_has_def map_of_map split: option.split)

lemma astore_put_refines:
  assumes "store_kept h s" "array_ok h w" "astore_put k w (h, s) = (r, h', s')"
  shows "store_put k (read_view h w) (store_val h s) = (r, store_val h' s')" "store_grows h s h' s'"
proof -
  have "store_put k (read_view h w) (store_val h s) = (r, store_val h' s') \<and> store_grows h s h' s'"
  proof (cases "map_has s k")
    case True
    with assms(1,3) show ?thesis by (auto simp: astore_put_def store_put_def store_grows_refl)
  next
    case False
    then obtain c where c: "slice_view w h = (c, h')" "s' = s @ [(k, c)]" "r"
      using assms(3) by (auto simp: astore_put_def map_set_fresh split: prod.splits)
    note copy = slice_view_result [OF c(1)]
    have "store_val h' s' = store_val h s\<lparr>cs_chunks := cs_chunks (store_val h s) @ [(k, read_view h w)]\<rparr>"
      using store_extends(2) [OF assms(1) copy(1)] copy(3) by (simp add: store_val_def c(2))
    moreover have "store_grows h s h' s'"
      using store_extends(1) [OF assms(1) copy(1)] copy
      by (auto simp: store_grows_def store_kept_def store_bufs_def c(2))
    ultimately show ?thesis using False c(3) by (simp add: store_put_def map_set_fresh)
  qed
  then show "store_put k (read_view h w) (store_val h s) = (r, store_val h' s')" "store_grows h s h' s'" by simp_all
qed

lemma astore_get_refines:
  assumes "store_kept h s" "astore_get k s h = (r, h')"
  shows "store_get k (store_val h s) = map_sum id (read_view h') r" "extends h h'"
    "r = Inr c \<Longrightarrow> array_ok h' c \<and> vw_buf c = hp_next h \<and> hp_next h' = hp_next h + 1"
  using assms slice_view_result [of _ h]
  by (auto simp: astore_get_def store_get_def store_val_def map_of_map split: option.splits prod.splits)

section \<open>Chunks and snapshots\<close>

abbreviation chunks_of :: "array_heap \<Rightarrow> (string \<times> view) list \<Rightarrow> chunk list" where
  "chunks_of h \<equiv> map (\<lambda>(hash, w). \<lparr>chunk_hash = hash, chunk_data = read_view h w\<rparr>)"

lemma achunk_loop_refines:
  "array_ok h w \<Longrightarrow> chunks_of h (achunk_loop h w n off acc) = chunk_loop (read_view h w) n off (chunks_of h acc)"
proof (induction h w n off acc rule: achunk_loop.induct)
  case (1 h w n off acc)
  show ?case
  proof (cases "off < vw_len w \<and> 0 < n")
    case False
    then have "\<not> (off < length (read_view h w) \<and> 0 < n)" by (simp add: length_read_view [OF 1(2)])
    with False show ?thesis
      by (simp only: achunk_loop.simps [of h w n off] chunk_loop.simps [of "read_view h w" n off] if_False)
  next
    case True
    define len where "len = min n (vw_len w - off)"
    have data: "read_view h (subarray_view w off (off + len)) = subarray (read_view h w) off (off + len)"
    proof -
      have "off + len \<le> vw_len w" using True by (auto simp: len_def)
      then show ?thesis by (simp add: read_subarray [OF 1(2)] subarray_def)
    qed
    have "chunks_of h (achunk_loop h w n off acc)
        = chunk_loop (read_view h w) n (off + len) (chunks_of h acc @ [make_chunk (subarray (read_view h w) off (off + len))])"
      using 1(1) [OF True refl refl] 1(2) True
      by (simp add: achunk_loop.simps [of h w n off] len_def data [unfolded len_def] make_chunk_def Let_def)
    with True show ?thesis
      by (simp add: chunk_loop.simps [of "read_view h w" n off] length_read_view [OF 1(2)] len_def Let_def)
  qed
qed

lemma achunk_loop_views:
  "array_ok h w \<Longrightarrow> \<forall>c \<in> set acc. array_ok h (snd c) \<Longrightarrow> \<forall>c \<in> set (achunk_loop h w n off acc). array_ok h (snd c)"
proof (induction h w n off acc rule: achunk_loop.induct)
  case (1 h w n off acc)
  show ?case
    using 1(1) [OF _ refl refl] 1(2,3)
    by (subst achunk_loop.simps) (simp add: subarray_view_ok Let_def)
qed

lemma achunkBuffer_refines:
  assumes "array_ok h w"
  shows "chunks_of h (achunkBuffer h w n) = chunkBuffer (read_view h w) n"
    "\<forall>c \<in> set (achunkBuffer h w n). array_ok h (snd c)"
  using achunk_loop_refines [OF assms, of _ 0 "[]"] achunk_loop_views [OF assms, of "[]"]
  by (simp_all add: achunkBuffer_def chunkBuffer_def)

lemma chunks_extend:
  "extends h h' \<Longrightarrow> \<forall>c \<in> set cs. array_ok h (snd c) \<Longrightarrow> chunks_of h' cs = chunks_of h cs \<and> (\<forall>c \<in> set cs. array_ok h' (snd c))"
  by (induction cs) (auto simp: extends_view)

lemma asnapshot_chunks_refines:
  assumes "store_kept h s" "\<forall>c \<in> set cs. array_ok h (snd c)"
    and "asnapshot_chunks cs h s stats fe ft = (h', s', stats', fe', ft')"
  shows "snapshot_chunks (chunks_of h cs) (store_val h s) stats fe ft = (store_val h' s', stats', fe', ft')
    \<and> store_grows h s h' s'"
  using assms
proof (induction cs arbitrary: h s stats fe ft)
  case Nil
  then show ?case by (simp add: store_grows_refl)
next
  case (Cons c cs)
  obtain k w where c: "c = (k, w)" by (cases c)
  obtain r h1 s1 where put: "astore_put k w (h, s) = (r, h1, s1)" by (metis prod_cases3)
  have put': "store_put k (read_view h w) (store_val h s) = (r, store_val h1 s1)" "store_grows h s h1 s1"
    using astore_put_refines [OF Cons.prems(1) _ put] Cons.prems(2) by (simp_all add: c)
  then have ext: "extends h h1" "store_kept h1 s1" by (simp_all add: store_grows_def)
  have cs: "chunks_of h1 cs = chunks_of h cs" "\<forall>c \<in> set cs. array_ok h1 (snd c)"
    using chunks_extend [OF ext(1), of cs] Cons.prems(2) by simp_all
  from Cons.prems(3) put' Cons.IH [OF ext(2) cs(2), unfolded cs(1)] show ?case
    using store_grows_trans [OF put'(2)] by (auto simp: c put Let_def)
qed

lemma asnapshot_files_refines:
  assumes "store_kept h s" "\<forall>f \<in> set fs. array_ok h (snd f)"
    and "asnapshot_files cs fs h s stats mf trace = (h', s', stats', mf', trace')"
  shows "snapshot_files cs (map (\<lambda>f. source_of (fst f, read_view h (snd f))) fs) (store_val h s) stats mf trace
      = (store_val h' s', stats', mf', trace') \<and> store_grows h s h' s'"
  using assms
proof (induction fs arbitrary: h s stats mf trace)
  case Nil
  then show ?case by (simp add: store_grows_refl)
next
  case (Cons f fs)
  obtain p w where f: "f = (p, w)" by (cases f)
  have w: "array_ok h w" using Cons.prems(2) by (simp add: f)
  define fe where "fe = \<lparr>fe_path = p, fe_size = vw_len w, fe_chunks = []\<rparr>"
  define st where "st = stats\<lparr>st_bytes := st_bytes stats + vw_len w\<rparr>"
  obtain h1 s1 st1 fe1 ft1 where run:
    "asnapshot_chunks (achunkBuffer h w cs) h s st fe \<lparr>ft_path = p, ft_chunks = []\<rparr> = (h1, s1, st1, fe1, ft1)"
    by (metis prod_cases5)
  note run' = asnapshot_chunks_refines [OF Cons.prems(1) achunkBuffer_refines(2) [OF w] run]
  then have ext: "extends h h1" "store_kept h1 s1" by (simp_all add: store_grows_def)
  have fs: "map (\<lambda>f. source_of (fst f, read_view h1 (snd f))) fs = map (\<lambda>f. source_of (fst f, read_view h (snd f))) fs"
    "\<forall>f \<in> set fs. array_ok h1 (snd f)"
    using Cons.prems(2) extends_view [OF ext(1)] by simp_all
  have rest: "asnapshot_files cs fs h1 s1 (st1\<lparr>st_files := st_files st1 + 1\<rparr>) (mf\<lparr>mf_files := mf_files mf @ [fe1]\<rparr>)
      (trace @ [ft1]) = (h', s', stats', mf', trace')"
    using Cons.prems(3) run by (simp add: f fe_def st_def Let_def)
  from Cons.IH [OF ext(2) fs(2) rest, unfolded fs(1)] show ?case
    using run' store_grows_trans [of h s h1 s1]
    by (auto simp: f fe_def st_def Let_def length_read_view [OF w] achunkBuffer_refines(1) [OF w])
qed

lemma js_insert_map: "(\<And>x y. c' (f x) (f y) = c x y) \<Longrightarrow> map f (js_insert c x ys) = js_insert c' (f x) (map f ys)"
  by (induction ys) auto

lemma js_sort_map: "(\<And>x y. c' (f x) (f y) = c x y) \<Longrightarrow> map f (js_sort c xs) = js_sort c' (map f xs)"
proof -
  assume c: "\<And>x y. c' (f x) (f y) = c x y"
  have "map f (foldl (\<lambda>acc x. js_insert c x acc) acc xs) = foldl (\<lambda>acc x. js_insert c' x acc) (map f acc) (map f xs)" for acc
    by (induction xs arbitrary: acc) (simp_all add: js_insert_map [of c' f c, OF c])
  then show ?thesis by (simp add: js_sort_def)
qed

definition held_val :: "array_heap \<Rightarrow> array_engine \<Rightarrow> held_engine" where
  "held_val h e = \<lparr>he_store = store_val h (ae_store e), he_objects = ae_objects e, he_manifests = ae_manifests e,
     he_chunkSize = ae_chunkSize e\<rparr>"

abbreviation engine_val :: "array_heap \<Rightarrow> array_engine \<Rightarrow> engine" where
  "engine_val h e \<equiv> engine_of (held_val h e)"

lemma held_load: "loadManifest name (engine_of e) = map_sum id ((!) (he_objects e)) (held_load name e)"
  by (simp add: loadManifest_def held_load_def engine_of_def map_of_map split: option.split)

lemma held_val_simps [simp]: "he_store (held_val h e) = store_val h (ae_store e)"
  "en_store (engine_val h e) = store_val h (ae_store e)"
  "held_load name (held_val h e) = aloadManifest name e"
  "loadManifest name (engine_val h e) = map_sum id ((!) (ae_objects e)) (aloadManifest name e)"
  by (simp_all add: held_load) (simp_all add: held_val_def engine_of_def held_load_def aloadManifest_def)

lemma asnapshot_refines:
  assumes "store_kept h (ae_store e)" "\<forall>f \<in> set files. array_ok h (snd f)" "asnapshot name files (h, e) = (r, h', e')"
  shows "engine_spec (Snapshot name (map (map_prod id (read_view h)) files)) (held_val h e) = (Snapped r, held_val h' e')"
    "store_grows h (ae_store e) h' (ae_store e')"
proof -
  define mf where "mf = \<lparr>mf_name = name, mf_chunkSize = ae_chunkSize e, mf_files = []\<rparr>"
  define st where "st = \<lparr>st_files = 0, st_chunks = 0, st_newChunks = 0, st_dedupedChunks = 0, st_bytes = 0\<rparr>"
  define fs where "fs = js_sort (\<lambda>a b. if fst a < fst b then -1 else (1 :: int)) files"
  obtain h1 s1 st1 mf1 tr1 where run:
    "asnapshot_files (ae_chunkSize e) fs h (ae_store e) st mf [] = (h1, s1, st1, mf1, tr1)"
    by (metis prod_cases5)
  have fs_ok: "\<forall>f \<in> set fs. array_ok h (snd f)" using assms(2) by (simp add: fs_def)
  have sorted: "map (\<lambda>f. source_of (fst f, read_view h (snd f))) fs
      = js_sort cmp_path (map (\<lambda>f. source_of (fst f, read_view h (snd f))) files)"
    unfolding fs_def by (rule js_sort_map) (simp add: cmp_path_def)
  note res = asnapshot_files_refines [OF assms(1) fs_ok run, unfolded sorted]
  have out: "h' = h1" "e' = e\<lparr>ae_store := s1, ae_objects := ae_objects e @ [mf1],
      ae_manifests := map_set name (length (ae_objects e)) (ae_manifests e)\<rparr>"
    "r = \<lparr>ar_manifest = length (ae_objects e), ar_stats = st1, ar_trace = tr1\<rparr>"
    using assms(3) run by (auto simp: asnapshot_def mf_def st_def fs_def Let_def)
  then show "store_grows h (ae_store e) h' (ae_store e')" using res by simp
  have "map (\<lambda>f. source_of (fst f, read_view h (snd f))) files = map source_of (map (map_prod id (read_view h)) files)"
    by simp
  note res' = res [unfolded this]
  show "engine_spec (Snapshot name (map (map_prod id (read_view h)) files)) (held_val h e) = (Snapped r, held_val h' e')"
    using res' by (simp add: snapshot_def engine_of_def held_val_def out mf_def st_def Let_def del: map_map)
qed

section \<open>Restore and verify\<close>

lemma aget_parts_refines:
  assumes "store_kept h s" "aget_parts s hs h = (r, h')"
  shows "map_throw (\<lambda>k. store_get k (store_val h s)) hs = map_sum id (map (read_view h')) r \<and> extends h h'
    \<and> (\<forall>ps. r = Inr ps \<longrightarrow> (\<forall>p \<in> set ps. array_ok h' p))"
  using assms
proof (induction hs arbitrary: h r h')
  case (Cons k hs)
  obtain r1 h1 where get: "astore_get k s h = (r1, h1)" by (cases "astore_get k s h")
  note get' = astore_get_refines [OF Cons.prems(1) get]
  obtain r2 h2 where rest: "aget_parts s hs h1 = (r2, h2)" by (cases "aget_parts s hs h1")
  note kept = store_extends [OF Cons.prems(1) get'(2)]
  note IH = Cons.IH [OF kept(1) rest, unfolded kept(2)]
  have old: "array_ok h2 w \<and> read_view h2 w = read_view h1 w" if "r1 = Inr w" for w
    using extends_view [of h1 h2 w] IH get'(3) [OF that] by simp
  show ?case
    using Cons.prems(2) get'(1,2) IH old extends_trans [OF get'(2), of h2]
    by (cases r1; cases r2) (auto simp: get rest)
qed auto

lemma aset_parts_refines:
  assumes "vw_off w = 0" "vw_len w = length (hp_data h (vw_buf w))" "array_ok h w"
    and "\<forall>p \<in> set ps. array_ok h p \<and> vw_buf p \<noteq> vw_buf w" "aset_parts w off ps h = (r, h')"
  shows "set_parts (read_view h w) off (map (read_view h) ps) = map_sum id (\<lambda>_. read_view h' w) r
    \<and> hp_next h' = hp_next h \<and> (\<forall>b. b \<noteq> vw_buf w \<longrightarrow> hp_data h' b = hp_data h b) \<and> array_ok h' w"
  using assms
proof (induction ps arbitrary: h off)
  case (Cons p ps)
  have len: "length (read_view h w) = vw_len w" "length (read_view h p) = vw_len p"
    using Cons.prems by (simp_all add: length_read_view)
  show ?case
  proof (cases "set_view w off p h")
    case (Inl err)
    then show ?thesis
      using Cons.prems len by (auto simp: set_view_def u8_set_def split: if_splits)
  next
    case (Inr h1)
    note one = set_view_result [OF Inr Cons.prems(3) _ Cons.prems(1,2)]
    have ps: "\<forall>p \<in> set ps. array_ok h1 p \<and> vw_buf p \<noteq> vw_buf w" "map (read_view h1) ps = map (read_view h) ps"
      using Cons.prems(4) one(2,3) by (auto simp: array_ok_def read_view_def)
    have "u8_set (read_view h w) off (read_view h p) = Inr (read_view h1 w)"
      using Inr one(1) Cons.prems(4) len by (auto simp: u8_set_def set_view_def split: if_splits)
    moreover have "aset_parts w (off + vw_len p) ps h1 = (r, h')"
      using Cons.prems(5) Inr by simp
    ultimately show ?thesis
      using Cons.IH [of h1 "off + vw_len p"] one Cons.prems(1,2,4) ps len by auto
  qed
qed auto

lemma arestore_file_refines:
  assumes "store_kept h s" "arestore_file s fe h = (r, h')"
  shows "restore_file (store_val h s) fe = map_sum id (\<lambda>f. source_of (fst f, read_view h' (snd f))) r
    \<and> extends h h' \<and> (\<forall>f. r = Inr f \<longrightarrow> array_ok h' (snd f) \<and> hp_next h \<le> vw_buf (snd f))"
proof -
  obtain r1 h1 where get: "aget_parts s (fe_chunks fe) h = (r1, h1)" by (cases "aget_parts s (fe_chunks fe) h")
  note get' = aget_parts_refines [OF assms(1) get]
  show ?thesis
  proof (cases r1)
    case (Inl err)
    with assms(2) get get' show ?thesis by (auto simp: arestore_file_def restore_file_def)
  next
    case (Inr parts)
    define total where "total = foldl (\<lambda>t buf. t + vw_len buf) 0 parts"
    obtain w h2 where new: "new_array (replicate total 0) h1 = (w, h2)" by fastforce
    note new' = new_array_result [OF new]
    have parts: "\<forall>p \<in> set parts. array_ok h1 p" using get' Inr by simp
    have "vw_buf p \<noteq> vw_buf w" if "array_ok h1 p" for p using that new'(4) by (auto simp: array_ok_def)
    with parts have in2: "\<forall>p \<in> set parts. array_ok h2 p \<and> vw_buf p \<noteq> vw_buf w"
      and same: "map (read_view h2) parts = map (read_view h1) parts"
      using extends_view [OF new'(1)] by simp_all
    have len: "vw_len w = length (hp_data h2 (vw_buf w))"
      using new by (auto simp: new_array_def)
    obtain r3 h3 where set: "aset_parts w 0 parts h2 = (r3, h3)" by (cases "aset_parts w 0 parts h2")
    have set': "set_parts (replicate total 0) 0 (map (read_view h1) parts) = map_sum id (\<lambda>_. read_view h3 w) r3"
      "hp_next h3 = hp_next h2" "\<forall>b. b \<noteq> vw_buf w \<longrightarrow> hp_data h3 b = hp_data h2 b" "array_ok h3 w"
      using aset_parts_refines [OF new'(6) len new'(2) in2 set, unfolded same] new'(3) by simp_all
    have total: "foldl (\<lambda>t buf. t + length buf) n (map (read_view h1) ps) = foldl (\<lambda>t buf. t + vw_len buf) n ps"
      if "\<forall>p \<in> set ps. array_ok h1 p" for n ps
      using that by (induction ps arbitrary: n) (simp_all add: length_read_view)
    have "extends h h3"
      using get' new'(1,4) set'(2,3) by (auto simp: extends_def)
    moreover have "restore_file (store_val h s) fe
        = map_sum id (\<lambda>_. source_of (fe_path fe, read_view h3 w)) r3"
      using get' by (cases r3) (simp_all add: restore_file_def Inr total [OF parts] set'(1) flip: total_def)
    moreover have "hp_next h \<le> vw_buf w" using get' new'(4) by (simp add: extends_def)
    moreover have "r = map_sum id (\<lambda>_. (fe_path fe, w)) r3" "h' = h3"
      using assms(2) by (simp_all add: arestore_file_def get Inr new set flip: total_def split: sum.splits)
    ultimately show ?thesis using set'(4) by (cases r3) auto
  qed
qed

abbreviation file_of :: "array_heap \<Rightarrow> string \<times> view \<Rightarrow> source_file" where
  "file_of h f \<equiv> source_of (fst f, read_view h (snd f))"

lemma arestore_files_refines:
  assumes "store_kept h s" "arestore_files s fes h = (r, h')"
  shows "map_throw (restore_file (store_val h s)) fes = map_sum id (map (file_of h')) r \<and> extends h h'
    \<and> (\<forall>fs. r = Inr fs \<longrightarrow> (\<forall>f \<in> set fs. array_ok h' (snd f) \<and> hp_next h \<le> vw_buf (snd f)))"
  using assms
proof (induction fes arbitrary: h r h')
  case (Cons fe fes)
  obtain r1 h1 where one: "arestore_file s fe h = (r1, h1)" by (cases "arestore_file s fe h")
  obtain r2 h2 where rest: "arestore_files s fes h1 = (r2, h2)" by (cases "arestore_files s fes h1")
  note one' = arestore_file_refines [OF Cons.prems(1) one]
  then have ext: "extends h h1" by simp
  note kept = store_extends [OF Cons.prems(1) ext]
  note IH = Cons.IH [OF kept(1) rest, unfolded kept(2)]
  have old: "array_ok h2 (snd f) \<and> read_view h2 (snd f) = read_view h1 (snd f)" if "r1 = Inr f" for f
    using extends_view [of h1 h2 "snd f"] IH one' that by simp
  show ?case
    using Cons.prems(2) one' IH old extends_trans [OF ext, of h2] extends_next [OF ext]
    by (cases r1; cases r2) (force simp: one rest)+
qed auto

lemma arestore_refines:
  assumes "store_kept h (ae_store e)" "arestore name e h = (r, h')"
  shows "engine_restore name (engine_val h e) = map_sum id (map (file_of h')) r" "extends h h'"
    "r = Inr fs \<Longrightarrow> f \<in> set fs \<Longrightarrow> array_ok h' (snd f) \<and> hp_next h \<le> vw_buf (snd f)"
proof -
  have "engine_restore name (engine_val h e) = map_sum id (map (file_of h')) r \<and> extends h h'
    \<and> (\<forall>fs. r = Inr fs \<longrightarrow> (\<forall>f \<in> set fs. array_ok h' (snd f) \<and> hp_next h \<le> vw_buf (snd f)))"
  proof (cases "aloadManifest name e")
    case (Inl err)
    with assms(2) show ?thesis by (auto simp: arestore_def engine_restore_def)
  next
    case (Inr m)
    with assms(2) arestore_files_refines [OF assms(1), of "mf_files (ae_objects e ! m)" r h'] show ?thesis
      by (simp add: arestore_def engine_restore_def)
  qed
  then show "engine_restore name (engine_val h e) = map_sum id (map (file_of h')) r" "extends h h'"
    "r = Inr fs \<Longrightarrow> f \<in> set fs \<Longrightarrow> array_ok h' (snd f) \<and> hp_next h \<le> vw_buf (snd f)" by blast+
qed

lemma averify_loop_refines:
  "store_kept h s \<Longrightarrow> averify_loop s hs vr h = (r, h') \<Longrightarrow> verify_loop (store_val h s) hs vr = r \<and> extends h h'"
proof (induction hs arbitrary: vr h)
  case (Cons k hs)
  obtain r1 h1 where get: "astore_get k s h = (r1, h1)" by (cases "astore_get k s h")
  note get' = astore_get_refines [OF Cons.prems(1) get]
  note kept = store_extends [OF Cons.prems(1) get'(2)]
  show ?case
    using Cons.prems(2) Cons.IH [OF kept(1)] kept(2) get'(1,2) extends_trans [OF get'(2)]
    by (cases r1) (auto simp: get Let_def)
qed auto

lemma averify_refines:
  assumes "store_kept h (ae_store e)" "averify name e h = (r, h')"
  shows "verify name (engine_val h e) = r \<and> extends h h'"
proof -
  have all: "foldl (\<lambda>hs m. collect m hs) [] (map_values (en_manifests (engine_val h e)))
      = foldl (\<lambda>hs m. collect (ae_objects e ! m) hs) [] (map_values (ae_manifests e))"
    by (simp add: engine_of_def held_val_def map_values_def comp_def case_prod_beta foldl_map)
  show ?thesis
    using assms(2) averify_loop_refines [OF assms(1)]
    by (auto simp: averify_def verify_def Let_def all split: sum.splits if_splits)
qed

section \<open>The engine owns its arrays\<close>

abbreviation engine_bufs :: "array_engine \<Rightarrow> nat set" where
  "engine_bufs e \<equiv> store_bufs (ae_store e)"

abbreviation engine_kept :: "array_heap \<Rightarrow> array_engine \<Rightarrow> bool" where
  "engine_kept h e \<equiv> store_kept h (ae_store e)"

abbreviation see_call :: "array_heap \<Rightarrow> view engine_call \<Rightarrow> bytes engine_call" where
  "see_call h \<equiv> map_engine_call (read_view h)"

abbreviation see_reply :: "array_heap \<Rightarrow> view engine_reply \<Rightarrow> bytes engine_reply" where
  "see_reply h \<equiv> map_engine_reply (read_view h)"

interpretation eng: array_owner engine_bufs engine_kept held_val set_engine_call see_call
    set_engine_reply see_reply call_engine engine_spec
proof
  fix h :: array_heap and e :: array_engine
  assume kept: "engine_kept h e"
  show "engine_bufs e \<subseteq> {..<hp_next h}" by (rule store_kept_old [OF kept])
  show "engine_kept h' e \<and> held_val h' e = held_val h e"
    if "hp_next h \<le> hp_next h'" "\<And>b. b \<in> engine_bufs e \<Longrightarrow> hp_data h' b = hp_data h b" for h'
    using store_frame [OF kept that] by (simp add: held_val_def)
  fix c :: "view engine_call" and r h' e'
  assume args: "\<And>w. w \<in> set_engine_call c \<Longrightarrow> array_ok h w" and call: "call_engine c (h, e) = (r, h', e')"
  have "engine_spec (see_call h c) (held_val h e) = (see_reply h' r, held_val h' e')
    \<and> engine_kept h' e' \<and> extends h h' \<and> engine_bufs e' \<subseteq> engine_bufs e \<union> {hp_next h..<hp_next h'}
    \<and> (\<forall>w \<in> set_engine_reply r. array_ok h' w \<and> hp_next h \<le> vw_buf w \<and> vw_buf w \<notin> engine_bufs e')"
  proof (cases c)
    case (Snapshot name files)
    obtain r1 h1 e1 where run: "asnapshot name files (h, e) = (r1, h1, e1)" by (metis prod_cases3)
    have files: "\<forall>f \<in> set files. array_ok h (snd f)"
      using args by (force simp: Snapshot)
    show ?thesis
      using asnapshot_refines [OF kept files run] call run
      by (auto simp: Snapshot store_grows_def simp del: engine_spec.simps)
  next
    case (LoadManifest name)
    then show ?thesis
      using call kept by auto
  next
    case (Restore name)
    obtain r1 h1 where run: "arestore name e h = (r1, h1)" by (cases "arestore name e h")
    note res = arestore_refines [OF kept run]
    note kept' = store_extends [OF kept res(2)]
    have "vw_buf w \<notin> engine_bufs e" if "hp_next h \<le> vw_buf w" for w
      using that store_kept_old [OF kept] by auto
    then have "\<forall>w \<in> set_engine_reply (Restored r1). array_ok h1 w \<and> hp_next h \<le> vw_buf w \<and> vw_buf w \<notin> engine_bufs e"
      using res(3) by (cases r1) fastforce+
    moreover have same: "held_val h1 e = held_val h e" using kept'(2) by (simp add: held_val_def)
    moreover have "engine_spec (see_call h c) (held_val h e) = (see_reply h1 (Restored r1), held_val h e)"
      using res(1) by (cases r1) (simp_all add: Restore map_prod_def comp_def case_prod_beta)
    moreover have "r = Restored r1" "h' = h1" "e' = e" using call run by (simp_all add: Restore)
    ultimately show ?thesis using res(2) kept'(1) by simp
  next
    case (Verify name)
    obtain r1 h1 where run: "averify name e h = (r1, h1)" by (cases "averify name e h")
    have verified: "verify name (engine_val h e) = r1" "extends h h1"
      using averify_refines [OF kept run] by simp_all
    note kept' = store_extends [OF kept verified(2)]
    have "held_val h1 e = held_val h e" using kept'(2) by (simp add: held_val_def)
    moreover have "r = Checked r1" "h' = h1" "e' = e" using call run by (simp_all add: Verify)
    ultimately show ?thesis using verified kept'(1) by (simp add: Verify)
  next
    case (ReadManifest i)
    then show ?thesis using call kept by (auto simp: held_val_def)
  next
    case (EditManifest i m)
    then show ?thesis using call kept by (auto simp: held_val_def)
  qed
  then show "engine_spec (see_call h c) (held_val h e) = (see_reply h' r, held_val h' e')"
    "engine_kept h' e' \<and> extends h h'" "engine_bufs e' \<subseteq> engine_bufs e \<union> {hp_next h..<hp_next h'}"
    "w \<in> set_engine_reply r \<Longrightarrow> array_ok h' w \<and> hp_next h \<le> vw_buf w \<and> vw_buf w \<notin> engine_bufs e'" for w
    by blast+
qed

section \<open>A client that shares arrays with the engine\<close>

abbreviation engine_client ::
    "array_engine client \<Rightarrow> (bytes engine_call \<times> bytes engine_reply) list \<Rightarrow> array_engine client \<Rightarrow> bool" where
  "engine_client \<equiv> client_run set_engine_call see_call set_engine_reply see_reply call_engine"

text \<open>A client that starts with an empty heap and a new engine.\<close>

definition fresh_client :: "int \<Rightarrow> array_engine client" where
  "fresh_client cs = (empty_heap, anew_engine cs, {})"

lemma fresh_apart: "eng.apart (fresh_client cs)"
  unfolding eng.apart_def by (simp add: fresh_client_def anew_engine_def store_kept_def)

lemma fresh_engine: "held_val h (anew_engine cs) = held_new cs"
  by (simp add: held_val_def held_new_def anew_engine_def new_engine_def store_val_def new_store_def)

text \<open>The snapshots among the calls.\<close>

fun snapshot_runs :: "(bytes engine_call \<times> bytes engine_reply) list \<Rightarrow> (string \<times> source_file list) list" where
  "snapshot_runs [] = []"
| "snapshot_runs ((Snapshot name files, r) # es) = (name, map source_of files) # snapshot_runs es"
| "snapshot_runs ((_, r) # es) = snapshot_runs es"

text \<open>The manifest object of the last snapshot under a name, and whether the client wrote into it.\<close>

fun last_step :: "string \<Rightarrow> nat option \<Rightarrow> bytes engine_call \<times> bytes engine_reply \<Rightarrow> nat option" where
  "last_step n i (Snapshot name files, Snapped r) = (if name = n then Some (ar_manifest r) else i)"
| "last_step n i _ = i"

definition last_manifest :: "string \<Rightarrow> (bytes engine_call \<times> bytes engine_reply) list \<Rightarrow> nat option" where
  "last_manifest n es = foldl (last_step n) None es"

fun edits :: "nat \<Rightarrow> bytes engine_call \<times> bytes engine_reply \<Rightarrow> bool" where
  "edits i (EditManifest j m, r) \<longleftrightarrow> i = j"
| "edits i _ \<longleftrightarrow> False"

definition left_alone :: "string \<Rightarrow> (bytes engine_call \<times> bytes engine_reply) list \<Rightarrow> bool" where
  "left_alone n es = (case last_manifest n es of None \<Rightarrow> True | Some i \<Rightarrow> list_all (\<lambda>e. \<not> edits i e) es)"

text \<open>Until then the engine over bytes follows the engine that takes the same snapshots.\<close>

lemma engine_of_simps [simp]: "en_store (engine_of e) = he_store e" "en_chunkSize (engine_of e) = he_chunkSize e"
  by (simp_all add: engine_of_def)

lemma snapshot_runs_append: "snapshot_runs (es @ es') = snapshot_runs es @ snapshot_runs es'"
  by (induction es rule: snapshot_runs.induct) simp_all

lemma last_manifest_snoc: "last_manifest n (es @ [x]) = last_step n (last_manifest n es) x"
  by (simp add: last_manifest_def)

definition follows :: "string \<Rightarrow> (bytes engine_call \<times> bytes engine_reply) list \<Rightarrow> held_engine \<Rightarrow> engine \<Rightarrow> bool" where
  "follows n es he e \<longleftrightarrow> he_store he = en_store e \<and> he_chunkSize he = en_chunkSize e
     \<and> map_get (he_manifests he) n = last_manifest n es
     \<and> (case last_manifest n es of
          None \<Rightarrow> map_get (en_manifests e) n = None
        | Some i \<Rightarrow> i < length (he_objects he)
            \<and> (left_alone n es \<longrightarrow> map_get (en_manifests e) n = Some (he_objects he ! i)))"

lemma follows_step:
  assumes "follows n es he e" "engine_spec c he = (r, he')"
  shows "follows n (es @ [(c, r)]) he' (snapshots (snapshot_runs [(c, r)]) e)"
proof (cases c)
  case (Snapshot name files)
  let ?e' = "snd (snapshot name (map source_of files) e)" and ?fs = "map source_of files"
  obtain s e1 where s: "snapshot name ?fs (engine_of he) = (s, e1)" by (cases "snapshot name ?fs (engine_of he)")
  have same: "he_store he = en_store e" "he_chunkSize he = en_chunkSize e" using assms(1) by (simp_all add: follows_def)
  have e1: "en_store e1 = en_store ?e'" "sr_manifest s = manifest_of name (en_chunkSize e) ?fs"
    using snapshot_store [of name ?fs "engine_of he"] snapshot_manifest [of name ?fs "engine_of he"] s
    by (simp_all add: snapshot_store same)
  have out: "r = Snapped \<lparr>ar_manifest = length (he_objects he), ar_stats = sr_stats s, ar_trace = sr_trace s\<rparr>"
    "he' = he\<lparr>he_store := en_store ?e', he_objects := he_objects he @ [sr_manifest s],
       he_manifests := map_set name (length (he_objects he)) (he_manifests he)\<rparr>"
    using assms(2) by (simp_all add: Snapshot s e1(1))
  show ?thesis
    using assms(1) e1(2)
    by (cases "name = n") (auto simp: Snapshot out follows_def last_manifest_snoc left_alone_def snapshots_def
        snapshot_manifests snapshot_chunkSize update_conv' nth_append split: option.splits)
next
  case (EditManifest i m)
  with assms show ?thesis
    by (auto simp: follows_def last_manifest_snoc left_alone_def snapshots_def split: option.splits)
qed (use assms in \<open>auto simp: follows_def last_manifest_snoc left_alone_def snapshots_def split: option.splits\<close>)

lemma held_follows:
  "replay engine_spec (held_new cs) es = Some he \<Longrightarrow> follows n es he (snapshots (snapshot_runs es) (new_engine cs))"
proof (induction es arbitrary: he rule: rev_induct)
  case Nil
  then show ?case
    by (auto simp: follows_def held_new_def last_manifest_def snapshots_def new_engine_def)
next
  case (snoc x es)
  obtain c r where x: "x = (c, r)" by (cases x)
  obtain he0 where he0: "replay engine_spec (held_new cs) es = Some he0" "engine_spec c he0 = (r, he)"
    using snoc.prems by (auto simp: x replay_append split: option.splits prod.splits if_splits)
  from follows_step [OF snoc.IH [OF he0(1)] he0(2)] show ?case
    by (simp add: x snapshot_runs_append) (simp add: snapshots_def)
qed

lemma follows_restore:
  assumes "follows n es he e" "left_alone n es"
  shows "engine_restore n (engine_of he) = engine_restore n e"
proof -
  have "loadManifest n (engine_of he) = loadManifest n e"
    unfolding held_load using assms
    by (auto simp: held_load_def loadManifest_def follows_def split: option.splits)
  moreover from assms(1) have "en_store (engine_of he) = en_store e" by (simp add: follows_def)
  ultimately show ?thesis by (simp only: engine_restore_def)
qed

lemma client_restores:
  assumes run: "engine_client (fresh_client cs) (es @ [(Restore n, Restored r)]) s"
    and alone: "left_alone n es"
    and paths: "\<And>name files. (name, files) \<in> set (snapshot_runs es) \<Longrightarrow> distinct (map sf_path files)"
    and inj: "inj_on sha256Hex (run_data (effective_chunk_size cs) (snapshot_runs es))"
  shows "r = map_sum id (map (\<lambda>f. (sf_path f, sf_data f))) (abs_restore n (abs_run (snapshot_runs es)))"
proof -
  have "replay engine_spec (held_new cs) (es @ [(Restore n, Restored r)]) \<noteq> None"
    using eng.client_isolated [OF run fresh_apart] by (simp add: fresh_client_def fresh_engine)
  then obtain e where e: "replay engine_spec (held_new cs) es = Some e"
    "r = map_sum id (map (\<lambda>f. (sf_path f, sf_data f))) (engine_restore n (engine_of e))"
    by (auto simp: replay_append split: option.splits if_splits)
  from follows_restore [OF held_follows [OF e(1)] alone] engine_simulates [OF paths inj] show ?thesis
    unfolding e(2) by simp
qed

text \<open>What the hypothesis is for: a client that empties the manifest it was handed restores nothing.\<close>

lemma manifest_shared:
  assumes "aloadManifest n e = Inr i" "i < length (ae_objects e)" "call_engine (EditManifest i m) (h, e) = (r, h1, e1)"
  shows "arestore n e1 h1 = arestore_files (ae_store e) (mf_files m) h"
  using assms by (auto simp: arestore_def aloadManifest_def)

lemma engine_client_call:
  assumes "engine_client s es (h, e, known)" "set_engine_call a \<subseteq> known"
  shows "\<exists>h' e' known'. engine_client s (es @ [(see_call h a, see_reply h' (fst (call_engine a (h, e))))]) (h', e', known')
    \<and> known \<subseteq> known'"
proof -
  obtain r h' e' where run: "call_engine a (h, e) = (r, h', e')" by (metis prod_cases3)
  from client_run.call [OF assms run] show ?thesis
    by (intro exI [of _ h'] exI [of _ e'] exI [of _ "known \<union> set_engine_reply r"]) (auto simp: run)
qed

lemma engine_client_restore:
  "engine_client s es (h, e, known) \<Longrightarrow> \<exists>res s'. engine_client s (es @ [(Restore n, Restored res)]) s'"
  using engine_client_call [of s es h e known "Restore n"] by (cases "arestore n e h") fastforce

end
