(* ===== verification/Array_Cluster.thy ===== *)
theory Array_Cluster
  imports Typed_Arrays Cluster
begin

text \<open>
  cluster.ts with byte arrays as shared objects: every node keeps a copy of its own, a read
  hands out another copy. The cluster is an \<open>array_owner\<close> too.
\<close>

section \<open>The code on arrays\<close>

record array_cluster =
  ac_up :: "bool list"
  ac_data :: "(string, view) js_map list"
  ac_replication :: int

text \<open>Lines 36 to 43.\<close>

definition anew_cluster :: "int \<Rightarrow> int \<Rightarrow> array_cluster throws" where
  "anew_cluster n r =
     (if n < 1 then Inl (Error (''node count must be >= 1, got '' @ js_show n))
      else if r < 1 \<or> r > n
      then Inl (Error (''replication factor must be in [1,'' @ js_show n @ ''], got '' @ js_show r))
      else Inr \<lparr>ac_up = replicate (nat n) True, ac_data = replicate (nat n) [], ac_replication = r\<rparr>)"

definition aplacement :: "string \<Rightarrow> array_cluster \<Rightarrow> int list" where
  "aplacement hash c =
     (let n = int (length (ac_up c));
          start = fnv1a64 hash mod n;
          ids = foldl (\<lambda>ids i. ids @ [(start + int i) mod n]) [] [0..<nat (ac_replication c)]
      in js_sort (\<lambda>a b. a - b) ids)"

definition anode_set :: "string \<Rightarrow> view \<Rightarrow> array_heap \<times> array_cluster \<Rightarrow> int \<Rightarrow> array_heap \<times> array_cluster" where
  "anode_set hash data = (\<lambda>(h, c) node.
     let (copy, h) = slice_view data h
     in (h, c\<lparr>ac_data := (ac_data c)[nat node := map_set hash copy (ac_data c ! nat node)]\<rparr>))"

definition acluster_put :: "string \<Rightarrow> view \<Rightarrow> array_heap \<times> array_cluster \<Rightarrow> array_heap \<times> array_cluster" where
  "acluster_put hash data = (\<lambda>(h, c). foldl (anode_set hash data) (h, c) (aplacement hash c))"

fun aget_from :: "array_cluster \<Rightarrow> string \<Rightarrow> int list \<Rightarrow> array_heap \<Rightarrow> (view \<times> int) throws \<times> array_heap" where
  "aget_from c hash [] h = (Inl (Error ErrChunkUnavailable), h)"
| "aget_from c hash (node # ids) h =
     (if \<not> ac_up c ! nat node then aget_from c hash ids h
      else case map_get (ac_data c ! nat node) hash of
             Some buf \<Rightarrow> let (copy, h) = slice_view buf h in (Inr (copy, node), h)
           | None \<Rightarrow> aget_from c hash ids h)"

definition acluster_get :: "string \<Rightarrow> array_cluster \<Rightarrow> array_heap \<Rightarrow> (view \<times> int) throws \<times> array_heap" where
  "acluster_get hash c = aget_from c hash (aplacement hash c)"

definition asetUp :: "int \<Rightarrow> bool \<Rightarrow> array_cluster \<Rightarrow> array_cluster throws" where
  "asetUp node up c =
     (if node < 0 \<or> node \<ge> int (length (ac_up c)) then Inl (Error (''unknown node id '' @ js_show node))
      else Inr (c\<lparr>ac_up := (ac_up c)[nat node := up]\<rparr>))"

definition arecoverAll :: "array_cluster \<Rightarrow> array_cluster" where
  "arecoverAll c = c\<lparr>ac_up := map (\<lambda>_. True) (ac_up c)\<rparr>"

datatype 'w cluster_call = Put string 'w | Get string | SetUp int bool | RecoverAll

datatype 'w cluster_reply = Finished | Fetched "js_error + ('w \<times> int)" | Refused js_error

fun call_cluster :: "view cluster_call \<Rightarrow> array_heap \<times> array_cluster \<Rightarrow> view cluster_reply \<times> array_heap \<times> array_cluster" where
  "call_cluster (Put hash w) (h, c) = (Finished, acluster_put hash w (h, c))"
| "call_cluster (Get hash) (h, c) = (case acluster_get hash c h of (r, h) \<Rightarrow> (Fetched r, h, c))"
| "call_cluster (SetUp n b) (h, c) = (case asetUp n b c of Inl err \<Rightarrow> (Refused err, h, c) | Inr c \<Rightarrow> (Finished, h, c))"
| "call_cluster RecoverAll (h, c) = (Finished, h, arecoverAll c)"

fun cluster_spec :: "bytes cluster_call \<Rightarrow> cluster \<Rightarrow> bytes cluster_reply \<times> cluster" where
  "cluster_spec (Put hash d) c = (Finished, cluster_put hash d c)"
| "cluster_spec (Get hash) c = (Fetched (cluster_get hash c), c)"
| "cluster_spec (SetUp n b) c = (case setUp n b c of Inl err \<Rightarrow> (Refused err, c) | Inr c \<Rightarrow> (Finished, c))"
| "cluster_spec RecoverAll c = (Finished, recoverAll c)"

section \<open>Values of nodes\<close>

definition node_val :: "array_heap \<Rightarrow> (string, view) js_map \<Rightarrow> (string, bytes) js_map" where
  "node_val h m = map (\<lambda>(k, w). (k, read_view h w)) m"

definition cluster_val :: "array_heap \<Rightarrow> array_cluster \<Rightarrow> cluster" where
  "cluster_val h c = \<lparr>cl_up = ac_up c, cl_data = map (node_val h) (ac_data c), cl_replication = ac_replication c\<rparr>"

definition cluster_bufs :: "array_cluster \<Rightarrow> nat set" where
  "cluster_bufs c = (\<Union>m \<in> set (ac_data c). vw_buf ` snd ` set m)"

definition cluster_kept :: "array_heap \<Rightarrow> array_cluster \<Rightarrow> bool" where
  "cluster_kept h c \<longleftrightarrow> (\<forall>m \<in> set (ac_data c). \<forall>(k, w) \<in> set m. array_ok h w) \<and> cluster_ok (cluster_val h c)"

lemma cluster_val_simps [simp]: "cl_up (cluster_val h c) = ac_up c" "cl_replication (cluster_val h c) = ac_replication c"
  "length (cl_data (cluster_val h c)) = length (ac_data c)" "placement k (cluster_val h c) = aplacement k c"
  by (simp_all add: cluster_val_def placement_def aplacement_def)

lemma cluster_bufs_up [simp]: "cluster_bufs (c\<lparr>ac_up := up\<rparr>) = cluster_bufs c"
  by (simp add: cluster_bufs_def)

lemma map_of_node_val: "map_of (node_val h m) k = map_option (read_view h) (map_of m k)"
  by (simp add: node_val_def map_of_map)

lemma node_val_set: "node_val h (map_set k w m) = map_set k (read_view h w) (node_val h m)"
  by (induction m) (auto simp: node_val_def)

lemma cluster_frame:
  assumes "cluster_kept h c" "hp_next h \<le> hp_next h'" "\<And>b. b \<in> cluster_bufs c \<Longrightarrow> hp_data h' b = hp_data h b"
  shows "cluster_kept h' c" "cluster_val h' c = cluster_val h c"
proof -
  have "read_view h' w = read_view h w \<and> array_ok h' w" if "m \<in> set (ac_data c)" "(k, w) \<in> set m" for m k w
  proof -
    have "vw_buf w \<in> cluster_bufs c" using that by (force simp: cluster_bufs_def)
    moreover have "array_ok h w" using assms(1) that by (auto simp: cluster_kept_def)
    ultimately show ?thesis using assms(2,3) by (simp add: array_ok_def read_view_def)
  qed
  note old = this
  then show val: "cluster_val h' c = cluster_val h c"
    by (auto simp: cluster_val_def node_val_def)
  show "cluster_kept h' c"
    using assms(1) old unfolding cluster_kept_def val by blast
qed

lemma cluster_kept_old: "cluster_kept h c \<Longrightarrow> cluster_bufs c \<subseteq> {..<hp_next h}"
  by (force simp: cluster_kept_def cluster_bufs_def array_ok_def)

lemma cluster_extends:
  assumes "cluster_kept h c" "extends h h'"
  shows "cluster_kept h' c" "cluster_val h' c = cluster_val h c"
  using cluster_frame [of h c h'] assms cluster_kept_old [OF assms(1)] by (auto simp: extends_def)

section \<open>Writes and reads\<close>

text \<open>The loop of \<open>put\<close>; node ids of a placement are valid, so no write is out of range.\<close>

lemma anode_set_refines:
  assumes "\<forall>m \<in> set (ac_data c). \<forall>(k, w) \<in> set m. array_ok h w" "array_ok h w"
    and "0 \<le> n" "n < int (length (ac_data c))" "anode_set k w (h, c) n = (h', c')"
  shows "cluster_val h' c' = node_set k (read_view h w) (cluster_val h c) n"
    "\<forall>m \<in> set (ac_data c'). \<forall>(k, w) \<in> set m. array_ok h' w" "extends h h'"
    "cluster_bufs c' \<subseteq> cluster_bufs c \<union> {hp_next h..<hp_next h'}" "length (ac_data c') = length (ac_data c)"
proof -
  obtain copy where copy: "slice_view w h = (copy, h')"
    "c' = c\<lparr>ac_data := (ac_data c)[nat n := map_set k copy (ac_data c ! nat n)]\<rparr>"
    using assms(5) by (auto simp: anode_set_def split: prod.splits)
  note new = slice_view_result [OF copy(1)]
  have old: "read_view h' v = read_view h v \<and> array_ok h' v" if "m \<in> set (ac_data c)" "(k, v) \<in> set m" for m k v
    using extends_view [OF new(1), of v] assms(1) that by auto
  then have vals: "map (node_val h') (ac_data c) = map (node_val h) (ac_data c)"
    by (auto simp: node_val_def)
  have n: "nat n < length (ac_data c)" using assms(3,4) by linarith
  show "extends h h'" by (rule new)
  show "length (ac_data c') = length (ac_data c)" by (simp add: copy)
  have "node_val h' (ac_data c ! nat n) = map (node_val h) (ac_data c) ! nat n"
    using n arg_cong [OF vals, of "\<lambda>xs. xs ! nat n"] by simp
  then show "cluster_val h' c' = node_set k (read_view h w) (cluster_val h c) n"
    by (simp add: cluster_val_def node_set_def copy(2) map_update vals node_val_set new(3) n)
  have sub: "set (map_set k copy (ac_data c ! nat n)) \<subseteq> insert (k, copy) (set (ac_data c ! nat n))"
    by (rule set_map_set)
  have mem: "ac_data c ! nat n \<in> set (ac_data c)" using n by simp
  have upd: "set (ac_data c') \<subseteq> insert (map_set k copy (ac_data c ! nat n)) (set (ac_data c))"
    unfolding copy(2) by (simp add: set_update_subset_insert)
  show "\<forall>m \<in> set (ac_data c'). \<forall>(k, w) \<in> set m. array_ok h' w"
  proof (intro ballI, clarify)
    fix m k' v assume m: "m \<in> set (ac_data c')" "(k', v) \<in> set m"
    then consider "v = copy" | m' where "m' \<in> set (ac_data c)" "(k', v) \<in> set m'"
      using upd sub mem by blast
    then show "array_ok h' v" using old new(2) by cases auto
  qed
  show "cluster_bufs c' \<subseteq> cluster_bufs c \<union> {hp_next h..<hp_next h'}"
  proof
    fix b assume "b \<in> cluster_bufs c'"
    then obtain m k' v where m: "m \<in> set (ac_data c')" "(k', v) \<in> set m" "b = vw_buf v"
      by (auto simp: cluster_bufs_def)
    then consider "v = copy" | m' where "m' \<in> set (ac_data c)" "(k', v) \<in> set m'"
      using upd sub mem by blast
    then show "b \<in> cluster_bufs c \<union> {hp_next h..<hp_next h'}"
      using new(4,5) m(3) by cases (force simp: cluster_bufs_def)+
  qed
qed

lemma aput_ids_refines:
  assumes "\<forall>m \<in> set (ac_data c). \<forall>(k, w) \<in> set m. array_ok h w" "array_ok h w"
    and "set ids \<subseteq> {0..<int (length (ac_data c))}" "foldl (anode_set k w) (h, c) ids = (h', c')"
  shows "cluster_val h' c' = foldl (node_set k (read_view h w)) (cluster_val h c) ids
    \<and> (\<forall>m \<in> set (ac_data c'). \<forall>(k, w) \<in> set m. array_ok h' w) \<and> extends h h'
    \<and> cluster_bufs c' \<subseteq> cluster_bufs c \<union> {hp_next h..<hp_next h'}"
  using assms
proof (induction ids arbitrary: h c)
  case (Cons n ids)
  obtain h1 c1 where one: "anode_set k w (h, c) n = (h1, c1)" by (cases "anode_set k w (h, c) n")
  note one' = anode_set_refines [OF Cons.prems(1,2) _ _ one]
  have n: "0 \<le> n" "n < int (length (ac_data c))" using Cons.prems(3) by auto
  have w: "array_ok h1 w" "read_view h1 w = read_view h w"
    using extends_view [OF one'(3) [OF n] Cons.prems(2)] by simp_all
  have "cluster_val h' c' = foldl (node_set k (read_view h1 w)) (cluster_val h1 c1) ids
    \<and> (\<forall>m \<in> set (ac_data c'). \<forall>(k, w) \<in> set m. array_ok h' w) \<and> extends h1 h'
    \<and> cluster_bufs c' \<subseteq> cluster_bufs c1 \<union> {hp_next h1..<hp_next h'}"
    using Cons.prems(3,4) one'(5) [OF n] one by (intro Cons.IH [OF one'(2) [OF n] w(1)]) auto
  then show ?case
    using one'(1,3,4) [OF n] w(2) extends_trans [OF one'(3) [OF n]] extends_next [of h h1] extends_next [of h1 h']
    by fastforce
qed auto

lemma aget_from_refines:
  assumes "\<forall>m \<in> set (ac_data c). \<forall>(k, w) \<in> set m. array_ok h w" "length (ac_data c) = length (ac_up c)"
    and "set ids \<subseteq> {0..<int (length (ac_data c))}" "aget_from c k ids h = (r, h')"
  shows "get_from (cluster_val h c) k ids = map_sum id (map_prod (read_view h') id) r \<and> extends h h'
    \<and> (\<forall>w n. r = Inr (w, n) \<longrightarrow> array_ok h' w \<and> vw_buf w = hp_next h)"
  using assms(3,4)
proof (induction ids)
  case (Cons n ids)
  have n: "nat n < length (ac_data c)" using Cons.prems(1) by auto
  then have data: "cl_data (cluster_val h c) ! nat n = node_val h (ac_data c ! nat n)"
    by (simp add: cluster_val_def)
  show ?case
  proof (cases "ac_up c ! nat n")
    case False
    with Cons show ?thesis by simp
  next
    case True
    show ?thesis
    proof (cases "map_of (ac_data c ! nat n) k")
      case None
      with True Cons data show ?thesis by (simp add: map_of_node_val)
    next
      case (Some buf)
      obtain copy h1 where copy: "slice_view buf h = (copy, h1)" by fastforce
      with True Some Cons.prems(2) data slice_view_result [OF copy] show ?thesis
        by (auto simp: map_of_node_val)
    qed
  qed
qed auto

section \<open>The cluster owns its arrays\<close>

abbreviation see_cluster_call :: "array_heap \<Rightarrow> view cluster_call \<Rightarrow> bytes cluster_call" where
  "see_cluster_call h \<equiv> map_cluster_call (read_view h)"

abbreviation see_cluster_reply :: "array_heap \<Rightarrow> view cluster_reply \<Rightarrow> bytes cluster_reply" where
  "see_cluster_reply h \<equiv> map_cluster_reply (read_view h)"

interpretation clu: array_owner cluster_bufs cluster_kept cluster_val set_cluster_call see_cluster_call
    set_cluster_reply see_cluster_reply call_cluster cluster_spec
proof
  fix h :: array_heap and c :: array_cluster
  assume kept: "cluster_kept h c"
  then have views: "\<forall>m \<in> set (ac_data c). \<forall>(k, w) \<in> set m. array_ok h w" and ok: "cluster_ok (cluster_val h c)"
    by (simp_all add: cluster_kept_def)
  have len: "length (ac_data c) = length (ac_up c)" using ok by (simp add: cluster_ok_def)
  have ids: "set (aplacement k c) \<subseteq> {0..<int (length (ac_data c))}" for k
    using code.place_range [OF ok, of k] by (simp add: nodeCount_def len)
  show "cluster_bufs c \<subseteq> {..<hp_next h}" by (rule cluster_kept_old [OF kept])
  show "cluster_kept h' c \<and> cluster_val h' c = cluster_val h c"
    if "hp_next h \<le> hp_next h'" "\<And>b. b \<in> cluster_bufs c \<Longrightarrow> hp_data h' b = hp_data h b" for h'
    using cluster_frame [OF kept that] by simp
  fix a :: "view cluster_call" and r h' c'
  assume args: "\<And>w. w \<in> set_cluster_call a \<Longrightarrow> array_ok h w" and call: "call_cluster a (h, c) = (r, h', c')"
  have "cluster_spec (see_cluster_call h a) (cluster_val h c) = (see_cluster_reply h' r, cluster_val h' c')
    \<and> cluster_kept h' c' \<and> extends h h' \<and> cluster_bufs c' \<subseteq> cluster_bufs c \<union> {hp_next h..<hp_next h'}
    \<and> (\<forall>w \<in> set_cluster_reply r. array_ok h' w \<and> hp_next h \<le> vw_buf w \<and> vw_buf w \<notin> cluster_bufs c')"
  proof (cases a)
    case (Put k w)
    have run: "foldl (anode_set k w) (h, c) (aplacement k c) = (h', c')" "r = Finished"
      using call by (simp_all add: Put acluster_put_def)
    have "array_ok h w" using args by (simp add: Put)
    note put = aput_ids_refines [OF views this ids run(1)]
    then have "cluster_val h' c' = cluster_put k (read_view h w) (cluster_val h c)"
      by (simp add: cluster_put_def)
    with put cluster_ok_put [OF ok, of k "read_view h w"] show ?thesis by (simp add: Put run(2) cluster_kept_def)
  next
    case (Get k)
    obtain r1 h1 where run: "acluster_get k c h = (r1, h1)" by (cases "acluster_get k c h")
    note got = aget_from_refines [OF views len ids run [unfolded acluster_get_def]]
    note kept' = cluster_extends [OF kept, of h1]
    have out: "r = Fetched r1" "h' = h1" "c' = c" using call run by (simp_all add: Get)
    have "hp_next h \<notin> cluster_bufs c" using cluster_kept_old [OF kept] by auto
    with got kept' show ?thesis
      by (cases r1) (auto simp: Get out cluster_get_def map_prod_def)
  next
    case (SetUp n b)
    show ?thesis
    proof (cases "n < 0 \<or> n \<ge> int (length (ac_up c))")
      case True
      with call kept show ?thesis by (auto simp: SetUp asetUp_def setUp_def)
    next
      case False
      then have out: "r = Finished" "h' = h" "c' = c\<lparr>ac_up := (ac_up c)[nat n := b]\<rparr>"
        using call by (auto simp: SetUp asetUp_def)
      with False views ok show ?thesis
        by (auto simp: SetUp setUp_def cluster_val_def cluster_kept_def cluster_ok_def)
    qed
  next
    case RecoverAll
    with call views ok show ?thesis
      by (auto simp: recoverAll_def arecoverAll_def cluster_val_def cluster_kept_def cluster_ok_def)
  qed
  then show "cluster_spec (see_cluster_call h a) (cluster_val h c) = (see_cluster_reply h' r, cluster_val h' c')"
    "cluster_kept h' c' \<and> extends h h'" "cluster_bufs c' \<subseteq> cluster_bufs c \<union> {hp_next h..<hp_next h'}"
    "w \<in> set_cluster_reply r \<Longrightarrow> array_ok h' w \<and> hp_next h \<le> vw_buf w \<and> vw_buf w \<notin> cluster_bufs c'" for w
    by blast+
qed

section \<open>A client that shares arrays with a new cluster\<close>

abbreviation cluster_client ::
    "array_cluster client \<Rightarrow> (bytes cluster_call \<times> bytes cluster_reply) list \<Rightarrow> array_cluster client \<Rightarrow> bool" where
  "cluster_client \<equiv> client_run set_cluster_call see_cluster_call set_cluster_reply see_cluster_reply call_cluster"

lemma new_cluster_val: "anew_cluster n r = Inr c \<Longrightarrow> new_cluster n r = Inr (cluster_val h c)"
  by (auto simp: anew_cluster_def new_cluster_def cluster_val_def node_val_def split: if_splits)

lemma new_cluster_apart: "anew_cluster n r = Inr c \<Longrightarrow> clu.apart (h, c, {})"
  using cluster_ok_new [OF new_cluster_val [of n r c h]]
  unfolding clu.apart_def by (auto simp: cluster_kept_def anew_cluster_def split: if_splits)

text \<open>
  The abstract cluster: one map from names to bytes, and the set of failed nodes. A read gives
  the bytes last written, from the first node of the placement that has not failed.
\<close>

fun abs_cluster_step :: "bytes cluster_call \<Rightarrow> (string \<Rightarrow> bytes option) \<times> int set \<Rightarrow> (string \<Rightarrow> bytes option) \<times> int set" where
  "abs_cluster_step (Put k d) (m, D) = (m(k \<mapsto> d), D)"
| "abs_cluster_step (Get k) (m, D) = (m, D)"
| "abs_cluster_step (SetUp i b) (m, D) = (m, if b then D - {i} else insert i D)"
| "abs_cluster_step RecoverAll (m, D) = (m, {})"

definition abs_cluster_run :: "bytes cluster_call list \<Rightarrow> (string \<Rightarrow> bytes option) \<times> int set" where
  "abs_cluster_run cs = foldl (\<lambda>a c. abs_cluster_step c a) (\<lambda>_. None, {}) cs"

definition abs_cluster_get :: "int list \<Rightarrow> string \<Rightarrow> (string \<Rightarrow> bytes option) \<times> int set \<Rightarrow> (bytes \<times> int) throws" where
  "abs_cluster_get ids k a =
     (case (fst a k, find (\<lambda>i. i \<notin> snd a) ids) of
        (Some d, Some i) \<Rightarrow> Inr (d, i)
      | _ \<Rightarrow> Inl (Error ErrChunkUnavailable))"

text \<open>The replicas of a chunk hold its last bytes, and are up unless they have failed.\<close>

definition cluster_abs :: "cluster \<Rightarrow> cluster \<Rightarrow> (string \<Rightarrow> bytes option) \<times> int set \<Rightarrow> bool" where
  "cluster_abs c0 c a \<longleftrightarrow> cluster_ok c \<and> (\<forall>k. placement k c = placement k c0)
     \<and> (\<forall>k. \<forall>i \<in> set (placement k c). node_lookup c i k = fst a k)
     \<and> (\<forall>i. valid_node c i \<longrightarrow> (node_up c i \<longleftrightarrow> i \<notin> snd a))"

lemma cluster_abs_new:
  assumes new: "new_cluster n r = Inr c"
  shows "cluster_abs c c (\<lambda>_. None, {})"
proof -
  have ok: "cluster_ok c" using cluster_ok_new [OF new] by blast
  have "node_lookup c i k = None \<and> node_up c i" if "valid_node c i" for i k
    using new that by (auto simp: new_cluster_def nat_less_iff split: if_splits)
  with ok placement_valid [OF ok] show ?thesis by (simp add: cluster_abs_def)
qed

lemma cluster_abs_step:
  assumes abs: "cluster_abs c0 c a" and step: "cluster_spec call c = (r, c')"
  shows "cluster_abs c0 c' (abs_cluster_step call a)"
proof (cases call)
  case (Put k d)
  then have c': "c' = cluster_put k d c" using step by simp
  have ok: "cluster_ok c" using abs by (simp add: cluster_abs_def)
  have "node_lookup c' i k' = (if k' = k then Some d else fst a k')" if "i \<in> set (placement k' c)" for i k'
    using abs that placement_valid [OF ok that] by (auto simp: c' node_lookup_put [OF ok] cluster_abs_def)
  then show ?thesis
    using abs cluster_ok_put [OF ok] by (cases a) (auto simp: Put c' cluster_abs_def)
next
  case (Get k)
  with abs step show ?thesis by (cases a) auto
next
  case (SetUp i b)
  show ?thesis
  proof (cases "setUp i b c")
    case (Inl err)
    then have "\<not> valid_node c i" "c' = c" using step setUp_ok [of i c b] by (auto simp: SetUp)
    with abs show ?thesis by (cases a) (auto simp: SetUp cluster_abs_def)
  next
    case (Inr c1)
    with step have c': "c' = c1" by (simp add: SetUp)
    have "valid_node c1 j \<longleftrightarrow> valid_node c j" for j using setUp_data [OF Inr] by simp
    moreover have "node_up c1 j \<longleftrightarrow> (if j = i then b else node_up c j)" if "0 \<le> j" for j
      by (rule setUp_up [OF Inr that])
    ultimately show ?thesis
      using abs cluster_ok_setUp [OF _ Inr] placement_setUp [OF Inr] setUp_data [OF Inr]
      by (cases a) (auto simp: SetUp c' cluster_abs_def)
  qed
next
  case RecoverAll
  then have "c' = recoverAll c" using step by simp
  with abs recoverAll_up [where c = c] cluster_ok_recoverAll [of c] show ?thesis
    by (cases a) (auto simp: RecoverAll cluster_abs_def)
qed

lemma cluster_abs_get:
  assumes "cluster_abs c0 c a"
  shows "cluster_get k c = abs_cluster_get (placement k c0) k a"
proof -
  have ok: "cluster_ok c" using assms by (simp add: cluster_abs_def)
  have "find (\<lambda>i. node_up c i \<and> node_lookup c i k \<noteq> None) (placement k c)
      = find (\<lambda>i. i \<notin> snd a \<and> fst a k \<noteq> None) (placement k c)"
    using assms placement_valid [OF ok] by (intro find_cong) (auto simp: cluster_abs_def)
  moreover have "node_lookup c i k = fst a k" if "find P (placement k c) = Some i" for i P
    using that assms by (auto simp: find_Some_iff cluster_abs_def)
  moreover have "placement k c = placement k c0" using assms by (simp add: cluster_abs_def)
  moreover have "find (\<lambda>i. False) xs = None" for xs :: "int list" by (induction xs) auto
  ultimately show ?thesis
    by (cases "fst a k") (auto simp: code.fetch_first abs_cluster_get_def split: option.split)
qed

lemma replay_abs:
  "replay cluster_spec c es = Some c' \<Longrightarrow> cluster_abs c0 c a \<Longrightarrow>
   cluster_abs c0 c' (foldl (\<lambda>a c. abs_cluster_step c a) a (map fst es))"
proof (induction es arbitrary: c a)
  case (Cons e es)
  then show ?case
    using cluster_abs_step [OF Cons.prems(2)]
    by (cases e; cases "cluster_spec (fst e) c") (auto split: if_splits)
qed simp

lemma client_reads:
  assumes new: "anew_cluster n r = Inr c"
    and run: "cluster_client (empty_heap, c, {}) (es @ [(Get k, Fetched res)]) s"
  shows "res = abs_cluster_get (aplacement k c) k (abs_cluster_run (map fst es))"
proof -
  let ?c0 = "cluster_val empty_heap c"
  have "replay cluster_spec ?c0 (es @ [(Get k, Fetched res)]) \<noteq> None"
    using clu.client_isolated [OF run new_cluster_apart [OF new]] by simp
  then obtain c' where c': "replay cluster_spec ?c0 es = Some c'" "res = cluster_get k c'"
    by (auto simp: replay_append split: option.splits if_splits)
  have "cluster_abs ?c0 c' (abs_cluster_run (map fst es))"
    unfolding abs_cluster_run_def
    by (rule replay_abs [OF c'(1) cluster_abs_new [OF new_cluster_val [OF new]]])
  from cluster_abs_get [OF this] show ?thesis by (simp add: c'(2))
qed

lemma cluster_client_get:
  "cluster_client s es (h, c, known) \<Longrightarrow> \<exists>res s'. cluster_client s (es @ [(Get k, Fetched res)]) s'"
proof -
  assume run: "cluster_client s es (h, c, known)"
  obtain r h' where "call_cluster (Get k) (h, c) = (Fetched r, h', c)"
    by (cases "acluster_get k c h") auto
  from client_run.call [OF run _ this] show ?thesis by auto
qed

end
