(* ===== verification/Array_System.thy ===== *)
theory Array_System
  imports Array_Engine Array_Cluster Distribute
begin

text \<open>
  distribute.ts on shared arrays, and the engine and the cluster together: two owners of arrays
  on one heap, with the operations that move chunks from one to the other. The pair is an
  \<open>array_owner\<close> again, so a client that shares arrays with both sees values. At the end, what
  the system is for: a snapshot that was distributed is recovered while fewer nodes have
  failed than there are copies.
\<close>

section \<open>The code on arrays\<close>

text \<open>Lines 11 to 17: the store hands out a copy, the cluster keeps copies of it.\<close>

fun adistribute_loop ::
    "array_store \<Rightarrow> array_heap \<times> array_cluster \<Rightarrow> string list \<Rightarrow> unit throws \<times> array_heap \<times> array_cluster" where
  "adistribute_loop store (h, c) [] = (Inr (), h, c)"
| "adistribute_loop store (h, c) (hash # hs) =
     (case astore_get hash store h of
        (Inl err, h) \<Rightarrow> (Inl err, h, c)
      | (Inr d, h) \<Rightarrow> adistribute_loop store (acluster_put hash d (h, c)) hs)"

definition adistribute ::
    "array_engine \<Rightarrow> array_heap \<times> array_cluster \<Rightarrow> manifest \<Rightarrow> nat throws \<times> array_heap \<times> array_cluster" where
  "adistribute e = (\<lambda>(h, c) m.
     let chunks = uniqueChunks m
     in case adistribute_loop (ae_store e) (h, c) chunks of
          (Inl err, h, c) \<Rightarrow> (Inl err, h, c)
        | (Inr _, h, c) \<Rightarrow> (Inr (length chunks), h, c))"

text \<open>Lines 58 to 77.\<close>

fun afetch_loop :: "array_cluster \<Rightarrow> string list \<Rightarrow> restore_stats \<Rightarrow> fetch_event list \<Rightarrow> array_heap
    \<Rightarrow> (restore_result + restore_stats \<times> fetch_event list) \<times> array_heap" where
  "afetch_loop c [] stats events h = (Inr (stats, events), h)"
| "afetch_loop c (hash # hs) stats events h =
     (case acluster_get hash c h of
        (Inl _, h) \<Rightarrow>
          (Inl \<lparr>rr_stats = stats,
                rr_events = events @ [\<lparr>ev_hash = hash, ev_node = -1, ev_ok = False,
                                       ev_error = Some ErrChunkUnavailable\<rparr>],
                rr_ok = False, rr_error = Some ErrChunkUnavailable\<rparr>, h)
      | (Inr (data, node), h) \<Rightarrow>
          let got = sha256Hex (read_view h data)
          in if got \<noteq> hash
             then let events = events @ [\<lparr>ev_hash = hash, ev_node = node, ev_ok = False,
                                          ev_error = Some (integrity_error hash got)\<rparr>]
                  in (Inl \<lparr>rr_stats = stats, rr_events = events, rr_ok = False,
                           rr_error = ev_error (last events)\<rparr>, h)
             else afetch_loop c hs (stats\<lparr>rs_verified := rs_verified stats + 1\<rparr>)
                    (events @ [\<lparr>ev_hash = hash, ev_node = node, ev_ok = True, ev_error = None\<rparr>]) h)"

definition afetch :: "array_cluster \<Rightarrow> manifest \<Rightarrow> int \<Rightarrow> array_heap \<Rightarrow> restore_result \<times> array_heap" where
  "afetch c m parallel h =
     (let parallel = (if parallel < 1 then 1 else parallel);
          unique = uniqueChunks m;
          stats = \<lparr>rs_files = 0, rs_chunks = length unique, rs_verified = 0, rs_parallelism = parallel\<rparr>
      in case afetch_loop c unique stats [] h of
           (Inl r, h) \<Rightarrow> (r, h)
         | (Inr (stats, events), h) \<Rightarrow>
             (\<lparr>rr_stats = stats\<lparr>rs_files := length (mf_files m)\<rparr>, rr_events = events,
               rr_ok = True, rr_error = None\<rparr>, h))"

text \<open>Lines 92 to 103; the bytes that \<open>get\<close> copies are dropped.\<close>

fun aplan_loop :: "array_cluster \<Rightarrow> string list \<Rightarrow> array_heap \<Rightarrow> planned_fetch list \<times> array_heap" where
  "aplan_loop c [] h = ([], h)"
| "aplan_loop c (hash # hs) h =
     (let (r, h) = acluster_get hash c h;
          f = (case r of
                 Inr (_, node) \<Rightarrow> \<lparr>pf_hash = hash, pf_node = node, pf_available = True\<rparr>
               | Inl _ \<Rightarrow> \<lparr>pf_hash = hash, pf_node = -1, pf_available = False\<rparr>);
          (fs, h) = aplan_loop c hs h
      in (f # fs, h))"

datatype 'w system_call =
    EngineCall "'w engine_call"
  | ClusterCall "'w cluster_call"
  | Distribute manifest
  | Recover manifest int
  | Plan manifest

datatype 'w system_reply =
    EngineReply "'w engine_reply"
  | ClusterReply "'w cluster_reply"
  | Distributed "nat throws"
  | Recovered restore_result
  | Planned "planned_fetch list"

type_synonym array_system = "array_engine \<times> array_cluster"

fun call_system :: "view system_call \<Rightarrow> array_heap \<times> array_system \<Rightarrow> view system_reply \<times> array_heap \<times> array_system" where
  "call_system (EngineCall a) (h, e, c) = (case call_engine a (h, e) of (r, h, e) \<Rightarrow> (EngineReply r, h, e, c))"
| "call_system (ClusterCall a) (h, e, c) = (case call_cluster a (h, c) of (r, h, c) \<Rightarrow> (ClusterReply r, h, e, c))"
| "call_system (Distribute m) (h, e, c) = (case adistribute e (h, c) m of (r, h, c) \<Rightarrow> (Distributed r, h, e, c))"
| "call_system (Recover m p) (h, e, c) = (case afetch c m p h of (r, h) \<Rightarrow> (Recovered r, h, e, c))"
| "call_system (Plan m) (h, e, c) = (case aplan_loop c (uniqueChunks m) h of (r, h) \<Rightarrow> (Planned r, h, e, c))"

fun system_spec :: "bytes system_call \<Rightarrow> held_engine \<times> cluster \<Rightarrow> bytes system_reply \<times> held_engine \<times> cluster" where
  "system_spec (EngineCall a) (e, c) = (case engine_spec a e of (r, e) \<Rightarrow> (EngineReply r, e, c))"
| "system_spec (ClusterCall a) (e, c) = (case cluster_spec a c of (r, c) \<Rightarrow> (ClusterReply r, e, c))"
| "system_spec (Distribute m) (e, c) = (case distribute (engine_of e) c m of (r, c) \<Rightarrow> (Distributed r, e, c))"
| "system_spec (Recover m p) (e, c) = (Recovered (restore c m p), e, c)"
| "system_spec (Plan m) (e, c) = (Planned (planRestore c m), e, c)"

section \<open>The operations across the two\<close>

lemma acluster_put_refines:
  assumes "cluster_kept h c" "array_ok h w" "acluster_put k w (h, c) = (h', c')"
  shows "cluster_put k (read_view h w) (cluster_val h c) = cluster_val h' c'" "cluster_kept h' c'" "extends h h'"
    "cluster_bufs c' \<subseteq> cluster_bufs c \<union> {hp_next h..<hp_next h'}"
proof -
  have ok: "array_ok h v" if "v \<in> set_cluster_call (Put k w)" for v using assms(2) that by simp
  have call: "call_cluster (Put k w) (h, c) = (Finished, h', c')" using assms(3) by simp
  show "cluster_put k (read_view h w) (cluster_val h c) = cluster_val h' c'"
    using clu.call_value [OF assms(1) ok call] by simp
  show "cluster_kept h' c'" "extends h h'" using clu.call_kept [OF assms(1) ok call] by simp_all
  show "cluster_bufs c' \<subseteq> cluster_bufs c \<union> {hp_next h..<hp_next h'}"
    by (rule clu.call_fresh [OF assms(1) ok call])
qed

lemma acluster_get_refines:
  assumes "cluster_kept h c" "acluster_get k c h = (r, h')"
  shows "cluster_get k (cluster_val h c) = map_sum id (map_prod (read_view h') id) r" "extends h h'"
    "cluster_kept h' c" "cluster_val h' c = cluster_val h c"
proof -
  have ok: "array_ok h v" if "v \<in> set_cluster_call (Get k :: view cluster_call)" for v using that by simp
  have call: "call_cluster (Get k) (h, c) = (Fetched r, h', c)" using assms(2) by simp
  from clu.call_value [OF assms(1) ok call]
  show "cluster_get k (cluster_val h c) = map_sum id (map_prod (read_view h') id) r"
    by (auto simp: map_prod_def id_def)
  show "extends h h'" using clu.call_kept [OF assms(1) ok call] by simp
  from cluster_extends [OF assms(1) this] show "cluster_kept h' c" "cluster_val h' c = cluster_val h c" .
qed

lemma adistribute_loop_refines:
  assumes "store_kept h s" "cluster_kept h c" "adistribute_loop s (h, c) hs = (r, h', c')"
  shows "distribute_loop (store_val h s) (cluster_val h c) hs = (r, cluster_val h' c')
    \<and> cluster_kept h' c' \<and> extends h h' \<and> cluster_bufs c' \<subseteq> cluster_bufs c \<union> {hp_next h..<hp_next h'}"
  using assms
proof (induction hs arbitrary: h c)
  case (Cons k hs)
  obtain r1 h1 where got: "astore_get k s h = (r1, h1)" by (cases "astore_get k s h")
  note get = astore_get_refines [OF Cons.prems(1) got]
  note s1 = store_extends [OF Cons.prems(1) get(2)] and c1 = cluster_extends [OF Cons.prems(2) get(2)]
  show ?case
  proof (cases r1)
    case (Inl err)
    with Cons.prems(3) got get(1,2) c1 show ?thesis by auto
  next
    case (Inr d)
    obtain h2 c2 where put: "acluster_put k d (h1, c) = (h2, c2)" by (cases "acluster_put k d (h1, c)")
    have "array_ok h1 d" using get(3) [OF Inr] by simp
    note put' = acluster_put_refines [OF c1(1) this put]
    note s2 = store_extends [OF s1(1) put'(3)]
    have "adistribute_loop s (h2, c2) hs = (r, h', c')"
      using Cons.prems(3) got Inr put by simp
    from Cons.IH [OF s2(1) put'(2) this]
    have IH: "distribute_loop (store_val h2 s) (cluster_val h2 c2) hs = (r, cluster_val h' c')" "cluster_kept h' c'"
      "extends h2 h'" "cluster_bufs c' \<subseteq> cluster_bufs c2 \<union> {hp_next h2..<hp_next h'}" by blast+
    have next': "hp_next h \<le> hp_next h1" "hp_next h1 \<le> hp_next h2" "hp_next h2 \<le> hp_next h'"
      using extends_next [OF get(2)] extends_next [OF put'(3)] extends_next [OF IH(3)] by simp_all
    have "cluster_bufs c' \<subseteq> cluster_bufs c \<union> {hp_next h..<hp_next h'}"
      using IH(4) put'(4) next' by fastforce
    moreover have "extends h h'"
      using extends_trans [OF get(2) extends_trans [OF put'(3) IH(3)]] .
    moreover have "distribute_loop (store_val h s) (cluster_val h c) (k # hs) = (r, cluster_val h' c')"
      using get(1) IH(1) put'(1) s1(2) s2(2) c1(2) by (simp add: Inr)
    ultimately show ?thesis using IH(2) by blast
  qed
qed auto

lemma adistribute_refines:
  assumes "engine_kept h e" "cluster_kept h c" "adistribute e (h, c) m = (r, h', c')"
  shows "distribute (engine_val h e) (cluster_val h c) m = (r, cluster_val h' c')
    \<and> cluster_kept h' c' \<and> extends h h' \<and> cluster_bufs c' \<subseteq> cluster_bufs c \<union> {hp_next h..<hp_next h'}"
proof -
  obtain r1 h1 c1 where run: "adistribute_loop (ae_store e) (h, c) (uniqueChunks m) = (r1, h1, c1)" by (metis prod_cases3)
  from adistribute_loop_refines [OF assms(1,2) run] assms(3) run show ?thesis
    by (cases r1) (auto simp: adistribute_def distribute_def)
qed

lemma afetch_loop_refines:
  assumes "cluster_kept h c" "afetch_loop c hs stats events h = (r, h')"
  shows "restore_loop (cluster_val h c) hs stats events = r \<and> extends h h'"
  using assms
proof (induction hs arbitrary: h stats events)
  case (Cons k hs)
  obtain r1 h1 where got: "acluster_get k c h = (r1, h1)" by (cases "acluster_get k c h")
  note get = acluster_get_refines [OF Cons.prems(1) got]
  show ?case
  proof (cases r1)
    case (Inl err)
    with Cons.prems(2) got get(1,2) show ?thesis by auto
  next
    case (Inr dn)
    obtain d n where dn: "dn = (d, n)" by (cases dn)
    show ?thesis
    proof (cases "sha256Hex (read_view h1 d) = k")
      case False
      with Cons.prems(2) got get(1,2) Inr dn show ?thesis by (auto simp: Let_def)
    next
      case True
      with Cons.prems(2) got Inr dn
      have "afetch_loop c hs (stats\<lparr>rs_verified := rs_verified stats + 1\<rparr>)
          (events @ [\<lparr>ev_hash = k, ev_node = n, ev_ok = True, ev_error = None\<rparr>]) h1 = (r, h')" by simp
      from Cons.IH [OF get(3) this] True extends_trans [OF get(2)] show ?thesis
        using get(1,4) by (simp add: Inr dn)
    qed
  qed
qed auto

lemma afetch_refines:
  assumes "cluster_kept h c" "afetch c m p h = (r, h')"
  shows "restore (cluster_val h c) m p = r \<and> extends h h'"
  using assms(2) afetch_loop_refines [OF assms(1)]
  by (auto simp: afetch_def restore_def Let_def split: prod.splits sum.splits)

lemma aplan_loop_refines:
  assumes "cluster_kept h c" "aplan_loop c hs h = (r, h')"
  shows "map (plan_one (cluster_val h c)) hs = r \<and> extends h h'"
  using assms
proof (induction hs arbitrary: h h' r)
  case (Cons k hs)
  obtain r1 h1 where got: "acluster_get k c h = (r1, h1)" by (cases "acluster_get k c h")
  note get = acluster_get_refines [OF Cons.prems(1) got]
  obtain fs h2 where rest: "aplan_loop c hs h1 = (fs, h2)" by (cases "aplan_loop c hs h1")
  from Cons.IH [OF get(3) rest] Cons.prems(2) extends_trans [OF get(2)] show ?case
    by (cases r1) (auto simp: got rest plan_one_def get(1,4))
qed auto

section \<open>The system owns its arrays\<close>

definition system_bufs :: "array_system \<Rightarrow> nat set" where
  "system_bufs = (\<lambda>(e, c). engine_bufs e \<union> cluster_bufs c)"

definition system_kept :: "array_heap \<Rightarrow> array_system \<Rightarrow> bool" where
  "system_kept h = (\<lambda>(e, c). engine_kept h e \<and> cluster_kept h c)"

definition system_val :: "array_heap \<Rightarrow> array_system \<Rightarrow> held_engine \<times> cluster" where
  "system_val h = (\<lambda>(e, c). (held_val h e, cluster_val h c))"

lemmas system_defs = system_bufs_def system_kept_def system_val_def

abbreviation see_system_call :: "array_heap \<Rightarrow> view system_call \<Rightarrow> bytes system_call" where
  "see_system_call h \<equiv> map_system_call (read_view h)"

abbreviation see_system_reply :: "array_heap \<Rightarrow> view system_reply \<Rightarrow> bytes system_reply" where
  "see_system_reply h \<equiv> map_system_reply (read_view h)"

lemma engine_extends: "engine_kept h e \<Longrightarrow> extends h h' \<Longrightarrow> engine_kept h' e \<and> held_val h' e = held_val h e"
  using store_extends [of h "ae_store e" h'] by (simp add: held_val_def)

text \<open>Each operation, for the laws of the interface at once.\<close>

lemma call_system_laws:
  assumes kept: "system_kept h s" and args: "\<And>w. w \<in> set_system_call a \<Longrightarrow> array_ok h w"
    and call: "call_system a (h, s) = (r, h', s')"
  shows "system_spec (see_system_call h a) (system_val h s) = (see_system_reply h' r, system_val h' s')
    \<and> system_kept h' s' \<and> extends h h' \<and> system_bufs s' \<subseteq> system_bufs s \<union> {hp_next h..<hp_next h'}
    \<and> (\<forall>w \<in> set_system_reply r. array_ok h' w \<and> hp_next h \<le> vw_buf w \<and> vw_buf w \<notin> system_bufs s')"
proof -
  obtain e c where s: "s = (e, c)" by (cases s)
  have e: "engine_kept h e" and c: "cluster_kept h c" using kept by (simp_all add: s system_kept_def)
  note old = store_kept_old [OF e] cluster_kept_old [OF c]
  show ?thesis
  proof (cases a)
    case (EngineCall b)
    obtain r1 h1 e1 where run: "call_engine b (h, e) = (r1, h1, e1)" by (metis prod_cases3)
    have ok: "array_ok h w" if "w \<in> set_engine_call b" for w using args that by (simp add: EngineCall)
    have out: "r = EngineReply r1" "h' = h1" "s' = (e1, c)" using call run by (simp_all add: EngineCall s)
    note laws = eng.call_value [OF e ok run] eng.call_kept [OF e ok run] eng.call_fresh [OF e ok run]
      eng.call_outs [OF e ok run]
    have ext: "extends h h1" using laws(2) by blast
    have "vw_buf w \<notin> cluster_bufs c" if "hp_next h \<le> vw_buf w" for w using old(2) that by auto
    with laws cluster_extends [OF c ext] show ?thesis
      by (auto simp: EngineCall out s system_defs)
  next
    case (ClusterCall b)
    obtain r1 h1 c1 where run: "call_cluster b (h, c) = (r1, h1, c1)" by (metis prod_cases3)
    have ok: "array_ok h w" if "w \<in> set_cluster_call b" for w using args that by (simp add: ClusterCall)
    have out: "r = ClusterReply r1" "h' = h1" "s' = (e, c1)" using call run by (simp_all add: ClusterCall s)
    note laws = clu.call_value [OF c ok run] clu.call_kept [OF c ok run] clu.call_fresh [OF c ok run]
      clu.call_outs [OF c ok run]
    have ext: "extends h h1" using laws(2) by blast
    have "vw_buf w \<notin> engine_bufs e" if "hp_next h \<le> vw_buf w" for w using old(1) that by auto
    with laws engine_extends [OF e ext] show ?thesis
      by (auto simp: ClusterCall out s system_defs)
  next
    case (Distribute m)
    obtain r1 h1 c1 where run: "adistribute e (h, c) m = (r1, h1, c1)" by (metis prod_cases3)
    have out: "r = Distributed r1" "h' = h1" "s' = (e, c1)" using call run by (simp_all add: Distribute s)
    have laws: "distribute (engine_val h e) (cluster_val h c) m = (r1, cluster_val h1 c1)" "cluster_kept h1 c1"
      "extends h h1" "cluster_bufs c1 \<subseteq> cluster_bufs c \<union> {hp_next h..<hp_next h1}"
      using adistribute_refines [OF e c run] by blast+
    then show ?thesis
      using engine_extends [OF e laws(3)] by (auto simp: Distribute out s system_defs)
  next
    case (Recover m p)
    obtain r1 h1 where run: "afetch c m p h = (r1, h1)" by (cases "afetch c m p h")
    have out: "r = Recovered r1" "h' = h1" "s' = (e, c)" using call run by (simp_all add: Recover s)
    have laws: "restore (cluster_val h c) m p = r1" "extends h h1" using afetch_refines [OF c run] by simp_all
    then show ?thesis
      using engine_extends [OF e laws(2)] cluster_extends [OF c laws(2)] by (simp add: Recover out s system_defs)
  next
    case (Plan m)
    obtain r1 h1 where run: "aplan_loop c (uniqueChunks m) h = (r1, h1)" by (cases "aplan_loop c (uniqueChunks m) h")
    have out: "r = Planned r1" "h' = h1" "s' = (e, c)" using call run by (simp_all add: Plan s)
    have laws: "planRestore (cluster_val h c) m = r1" "extends h h1"
      using aplan_loop_refines [OF c run] by (simp_all add: planRestore_def)
    then show ?thesis
      using engine_extends [OF e laws(2)] cluster_extends [OF c laws(2)] by (simp add: Plan out s system_defs)
  qed
qed

interpretation sys: array_owner system_bufs system_kept system_val set_system_call see_system_call
    set_system_reply see_system_reply call_system system_spec
proof
  fix h :: array_heap and s :: array_system
  assume kept: "system_kept h s"
  obtain e c where s: "s = (e, c)" by (cases s)
  have e: "engine_kept h e" and c: "cluster_kept h c" using kept by (simp_all add: s system_kept_def)
  show "system_bufs s \<subseteq> {..<hp_next h}"
    using store_kept_old [OF e] cluster_kept_old [OF c] by (simp add: s system_bufs_def)
  show "system_kept h' s \<and> system_val h' s = system_val h s"
    if "hp_next h \<le> hp_next h'" "\<And>b. b \<in> system_bufs s \<Longrightarrow> hp_data h' b = hp_data h b" for h'
    using store_frame [OF e that(1)] cluster_frame [OF c that(1)] that(2)
    by (simp add: s system_defs held_val_def)
  fix a :: "view system_call" and r h' s'
  assume args: "\<And>w. w \<in> set_system_call a \<Longrightarrow> array_ok h w" and call: "call_system a (h, s) = (r, h', s')"
  show "system_spec (see_system_call h a) (system_val h s) = (see_system_reply h' r, system_val h' s')"
    "system_kept h' s' \<and> extends h h'" "system_bufs s' \<subseteq> system_bufs s \<union> {hp_next h..<hp_next h'}"
    "w \<in> set_system_reply r \<Longrightarrow> array_ok h' w \<and> hp_next h \<le> vw_buf w \<and> vw_buf w \<notin> system_bufs s'" for w
    using call_system_laws [OF kept args call] by blast+
qed

section \<open>Recovery\<close>

text \<open>The failed nodes after some calls, and the calls that write to the cluster past the upload.\<close>

fun failed_step :: "bytes system_call \<Rightarrow> int set \<Rightarrow> int set" where
  "failed_step (ClusterCall (SetUp i b)) D = (if b then D - {i} else insert i D)"
| "failed_step (ClusterCall RecoverAll) D = {}"
| "failed_step _ D = D"

definition failed_after :: "bytes system_call list \<Rightarrow> int set" where
  "failed_after cs = foldl (\<lambda>D c. failed_step c D) {} cs"

text \<open>A direct write of other bytes under the name of a chunk of the manifest.\<close>

fun false_put :: "manifest \<Rightarrow> bytes system_call \<Rightarrow> bool" where
  "false_put m (ClusterCall (Put k d)) \<longleftrightarrow> k \<in> set (chunk_refs m) \<and> sha256Hex d \<noteq> k"
| "false_put m _ \<longleftrightarrow> False"

definition system_inv :: "int \<Rightarrow> int \<Rightarrow> int set \<Rightarrow> held_engine \<times> cluster \<Rightarrow> bool" where
  "system_inv n r D = (\<lambda>(e, c). store_ok (he_store e) \<and> cluster_ok c \<and> nodeCount c = n \<and> cl_replication c = r
     \<and> (\<forall>i. valid_node c i \<longrightarrow> (node_up c i \<longleftrightarrow> i \<notin> D)))"

text \<open>Every replica of every chunk of a manifest has bytes that hash to its name.\<close>

definition uploaded :: "manifest \<Rightarrow> cluster \<Rightarrow> bool" where
  "uploaded m c \<longleftrightarrow> (\<forall>h \<in> set (chunk_refs m). \<exists>d. code.replicated h d c \<and> sha256Hex d = h)"

lemma uploaded_put:
  assumes "cluster_ok c" "uploaded m c" "h \<in> set (chunk_refs m) \<Longrightarrow> sha256Hex d = h"
  shows "uploaded m (cluster_put h d c)"
  unfolding uploaded_def
proof
  fix k assume "k \<in> set (chunk_refs m)"
  then obtain d' where "code.replicated k d' c" "sha256Hex d' = k" using assms(2) by (auto simp: uploaded_def)
  then show "\<exists>d'. code.replicated k d' (cluster_put h d c) \<and> sha256Hex d' = k"
    using assms(3) \<open>k \<in> set (chunk_refs m)\<close> put_replicated [OF assms(1), of h d] put_other [OF assms(1), of k h d' d]
    by (cases "k = h") blast+
qed

lemma uploaded_put_chunks:
  "cluster_ok c \<Longrightarrow> uploaded m c \<Longrightarrow> (\<And>h. h \<in> set hs \<Longrightarrow> sha256Hex (g h) = h) \<Longrightarrow> uploaded m (put_chunks g c hs)"
proof (induction hs arbitrary: c)
  case (Cons h hs)
  then show ?case by (simp add: uploaded_put cluster_ok_put)
qed simp

lemma uploaded_same: "cl_data c' = cl_data c \<Longrightarrow> (\<And>h. placement h c' = placement h c) \<Longrightarrow> uploaded m c \<Longrightarrow> uploaded m c'"
  by (simp add: uploaded_def code.replicated_def)

lemma cluster_ok_put_chunks: "cluster_ok c \<Longrightarrow> cluster_ok (put_chunks g c hs)"
  by (induction hs arbitrary: c) (simp_all add: cluster_ok_put)

lemma distribute_puts:
  assumes "store_ok (en_store e)"
  shows "\<exists>hs. snd (distribute e c m) = put_chunks (stored_bytes (en_store e)) c hs
    \<and> (\<forall>h \<in> set hs. sha256Hex (stored_bytes (en_store e) h) = h)
    \<and> ((\<exists>k. fst (distribute e c m) = Inr k) \<longrightarrow> set hs = set (chunk_refs m))"
proof -
  let ?has = "\<lambda>h. store_has h (en_store e)" and ?us = "uniqueChunks m"
  have hash: "sha256Hex (stored_bytes (en_store e) h) = h" if "?has h" for h
    by (rule stored_bytes_hash [OF assms that])
  show ?thesis
  proof (cases "dropWhile ?has ?us")
    case Nil
    then have "\<forall>h \<in> set ?us. ?has h" by (simp only: dropWhile_eq_Nil_conv)
    then show ?thesis
      using hash by (intro exI [of _ ?us])
        (simp add: distribute_def distribute_loop_eq Nil Let_def del: dropWhile_eq_Nil_conv)
  next
    case (Cons h hs)
    have "\<forall>h \<in> set (takeWhile ?has ?us). ?has h" by (auto dest: set_takeWhileD)
    then show ?thesis
      using hash by (intro exI [of _ "takeWhile ?has ?us"]) (simp add: distribute_def distribute_loop_eq Cons Let_def)
  qed
qed

lemma system_inv_step:
  assumes inv: "system_inv n r D s" and step: "system_spec a s = (rep, s')"
  shows "system_inv n r (failed_step a D) s'" "\<not> false_put m a \<Longrightarrow> uploaded m (snd s) \<Longrightarrow> uploaded m (snd s')"
    "a = Distribute m' \<Longrightarrow> rep = Distributed (Inr k) \<Longrightarrow> uploaded m' (snd s')"
proof -
  obtain e c where s: "s = (e, c)" by (cases s)
  have e: "store_ok (he_store e)" and c: "cluster_ok c" and shape: "nodeCount c = n" "cl_replication c = r"
    and up: "\<And>i. valid_node c i \<Longrightarrow> node_up c i \<longleftrightarrow> i \<notin> D"
    using inv by (auto simp: s system_inv_def)
  have "system_inv n r (failed_step a D) s' \<and> (\<not> false_put m a \<longrightarrow> uploaded m (snd s) \<longrightarrow> uploaded m (snd s'))
    \<and> (a = Distribute m' \<longrightarrow> rep = Distributed (Inr k) \<longrightarrow> uploaded m' (snd s'))"
  proof (cases a)
    case (EngineCall b)
    obtain r1 e1 where run: "engine_spec b e = (r1, e1)" by (cases "engine_spec b e")
    then have "store_ok (he_store e1)"
      using e by (cases b) (auto split: prod.splits dest!: snapshot_eq intro!: store_ok_put_all all_writes_hash)
    with inv step run show ?thesis by (auto simp: EngineCall s system_inv_def)
  next
    case (ClusterCall b)
    show ?thesis
    proof (cases b)
      case (Put k d)
      have "s' = (e, cluster_put k d c)" using step by (simp add: ClusterCall Put s)
      then show ?thesis
        using e cluster_ok_put [OF c, of k d] shape up uploaded_put [OF c, of m k d]
        by (auto simp: ClusterCall Put s system_inv_def nodeCount_def)
    next
      case (Get k)
      with inv step ClusterCall s show ?thesis by auto
    next
      case (SetUp i b')
      show ?thesis
      proof (cases "setUp i b' c")
        case (Inl err)
        then have "\<not> valid_node c i" using setUp_ok [of i c b'] by auto
        with inv step Inl show ?thesis by (auto simp: ClusterCall SetUp s system_inv_def)
      next
        case (Inr c1)
        note c1 = setUp_data [OF Inr] cluster_ok_setUp [OF c Inr]
        have "node_up c1 j \<longleftrightarrow> j \<notin> (if b' then D - {i} else insert i D)" if "valid_node c1 j" for j
        proof -
          have j: "valid_node c j" using that c1 by simp
          then show ?thesis using setUp_up [OF Inr, of j] up [OF j] by (cases b') auto
        qed
        moreover have "s' = (e, c1)" using step Inr by (simp add: ClusterCall SetUp s)
        ultimately show ?thesis
          using e c1 shape uploaded_same [of c1 c m] placement_setUp [OF Inr]
          by (simp add: ClusterCall SetUp s system_inv_def nodeCount_def)
      qed
    next
      case RecoverAll
      have "s' = (e, recoverAll c)" using step by (simp add: ClusterCall RecoverAll s)
      with e c shape recoverAll_up [where c = c] cluster_ok_recoverAll [of c] uploaded_same [of "recoverAll c" c m]
      show ?thesis by (simp add: ClusterCall RecoverAll s system_inv_def nodeCount_def)
    qed
  next
    case (Distribute m1)
    obtain r1 c1 where run: "distribute (engine_of e) c m1 = (r1, c1)" by (cases "distribute (engine_of e) c m1")
    obtain hs where hs: "c1 = put_chunks (stored_bytes (he_store e)) c hs"
      "\<And>h. h \<in> set hs \<Longrightarrow> sha256Hex (stored_bytes (he_store e) h) = h" "\<And>k. r1 = Inr k \<Longrightarrow> set hs = set (chunk_refs m1)"
      using distribute_puts [of "engine_of e" c m1] e run by auto
    have out: "s' = (e, c1)" "rep = Distributed r1" using step run by (simp_all add: Distribute s)
    have "cluster_ok c1" unfolding hs(1) by (rule cluster_ok_put_chunks [OF c])
    moreover have "uploaded m c \<Longrightarrow> uploaded m c1"
      unfolding hs(1) by (rule uploaded_put_chunks [OF c _ hs(2)])
    moreover have "uploaded m1 c1" if "r1 = Inr k"
      unfolding uploaded_def hs(1)
      using put_chunks_replicated [OF c] hs(2) hs(3) [OF that] by blast
    ultimately show ?thesis
      using e shape up by (auto simp: Distribute s out system_inv_def hs(1) nodeCount_def)
  qed (use inv step s in auto)
  then show "system_inv n r (failed_step a D) s'" "\<not> false_put m a \<Longrightarrow> uploaded m (snd s) \<Longrightarrow> uploaded m (snd s')"
    "a = Distribute m' \<Longrightarrow> rep = Distributed (Inr k) \<Longrightarrow> uploaded m' (snd s')" by blast+
qed

lemma system_inv_replay:
  "replay system_spec s es = Some s' \<Longrightarrow> system_inv n r D s \<Longrightarrow>
   system_inv n r (foldl (\<lambda>D c. failed_step c D) D (map fst es)) s'
   \<and> (list_all (\<lambda>e. \<not> false_put m (fst e)) es \<longrightarrow> uploaded m (snd s) \<longrightarrow> uploaded m (snd s'))"
proof (induction es arbitrary: s D)
  case (Cons e es)
  obtain a rep where e: "e = (a, rep)" by (cases e)
  obtain s1 where s1: "system_spec a s = (rep, s1)" "replay system_spec s1 es = Some s'"
    using Cons.prems(1) by (auto simp: e split: prod.splits if_splits)
  note step = system_inv_step(1,2) [OF Cons.prems(2) s1(1)]
  show ?case using Cons.IH [OF s1(2) step(1)] step(2) by (simp add: e)
qed simp

text \<open>With fewer failures than copies, a restore of what was uploaded verifies every chunk.\<close>

lemma system_inv_recovers:
  assumes inv: "system_inv n r D (e, c)" and up: "uploaded m c" and few: "int (card (D \<inter> {0..<n})) < r"
  shows "rr_ok (restore c m p) \<and> rs_verified (rr_stats (restore c m p)) = card (set (chunk_refs m))"
proof -
  have ok: "cluster_ok c" using inv by (simp add: system_inv_def)
  have "down_nodes c = D \<inter> {0..<n}"
    using inv by (auto simp: system_inv_def down_nodes_def nodeCount_def)
  then have down: "int (card (down_nodes c)) < cl_replication c"
    using inv few by (simp add: system_inv_def)
  have "passes c h" if "h \<in> set (chunk_refs m)" for h
    using up that survives [OF ok _ _ down] by (auto simp: uploaded_def)
  then show ?thesis by (simp add: restore_all)
qed

abbreviation system_client ::
    "array_system client \<Rightarrow> (bytes system_call \<times> bytes system_reply) list \<Rightarrow> array_system client \<Rightarrow> bool" where
  "system_client \<equiv> client_run set_system_call see_system_call set_system_reply see_system_reply call_system"

lemma new_system_apart: "anew_cluster n r = Inr c \<Longrightarrow> sys.apart (empty_heap, (anew_engine cs, c), {})"
  using fresh_apart [of cs] new_cluster_apart [of n r c empty_heap]
  unfolding sys.apart_def eng.apart_def clu.apart_def by (simp add: fresh_client_def system_kept_def)

lemma new_system_inv:
  assumes "anew_cluster n r = Inr c"
  shows "system_inv n r {} (system_val empty_heap (anew_engine cs, c))"
proof -
  note new = new_cluster_val [OF assms, of empty_heap]
  have "node_up (cluster_val empty_heap c) i" if "valid_node (cluster_val empty_heap c) i" for i
    using assms that by (auto simp: anew_cluster_def nat_less_iff split: if_splits)
  then show ?thesis
    using cluster_ok_new [OF new] placement_new [OF new]
    by (simp add: system_inv_def system_val_def fresh_engine held_new_def store_ok_new)
qed

lemma client_recovers:
  assumes new: "anew_cluster n r = Inr c"
    and run: "system_client (empty_heap, (anew_engine cs, c), {})
      (es @ [(Distribute m, Distributed (Inr k))] @ es' @ [(Recover m p, Recovered res)]) s"
    and puts: "list_all (\<lambda>e. \<not> false_put m (fst e)) es'"
    and few: "int (card (failed_after (map fst (es @ es')) \<inter> {0..<n})) < r"
  shows "rr_ok res \<and> rs_verified (rr_stats res) = card (set (chunk_refs m))"
proof -
  let ?s0 = "system_val empty_heap (anew_engine cs, c)"
  have "replay system_spec ?s0 (es @ [(Distribute m, Distributed (Inr k))] @ es' @ [(Recover m p, Recovered res)]) \<noteq> None"
    using sys.client_isolated [OF run new_system_apart [OF new]] by simp
  then obtain s1 s2 s3 where s1: "replay system_spec ?s0 es = Some s1"
    and s2: "system_spec (Distribute m) s1 = (Distributed (Inr k), s2)"
    and s3: "replay system_spec s2 es' = Some s3" "system_spec (Recover m p) s3 = (Recovered res, s3)"
    by (auto simp: replay_append split: option.splits prod.splits if_splits)
  have inv1: "system_inv n r (failed_after (map fst es)) s1"
    using system_inv_replay [OF s1 new_system_inv [OF new]] by (simp add: failed_after_def)
  note inv2 = system_inv_step(1) [OF inv1 s2] system_inv_step(3) [OF inv1 s2 refl refl]
  have inv3: "system_inv n r (failed_after (map fst (es @ es'))) s3 \<and> uploaded m (snd s3)"
    using system_inv_replay [OF s3(1), of n r "failed_after (map fst es)" m] inv2 puts by (simp add: failed_after_def)
  obtain e3 c3 where "s3 = (e3, c3)" by (cases s3)
  with system_inv_recovers [of n r _ e3 c3 m p] inv3 few s3(2) show ?thesis by auto
qed

lemma system_client_call:
  assumes "system_client s es (h, ob, known)" "set_system_call a \<subseteq> known"
  shows "\<exists>h' ob' known'. system_client s
    (es @ [(see_system_call h a, see_system_reply h' (fst (call_system a (h, ob))))]) (h', ob', known')
    \<and> known \<subseteq> known'"
proof -
  obtain rep h' ob' where run: "call_system a (h, ob) = (rep, h', ob')" by (metis prod_cases3)
  from client_run.call [OF assms run] show ?thesis
    by (intro exI [of _ h'] exI [of _ ob'] exI [of _ "known \<union> set_system_reply rep"]) (auto simp: run)
qed

end
