(* ===== verification/Fips_Constants.thy ===== *)
theory Fips_Constants
  imports Sha256
begin

text \<open>
  Where the tables of sha256.ts come from: the round constants are the first 32 bits of the
  fractional parts of the cube roots of the first 64 primes, the initial values those of the
  square roots of the first 8. The primes are found by trial division, the roots are
  characterised by the integer inequality that their truncation satisfies.
\<close>

section \<open>Primes by trial division\<close>

fun no_divisor :: "int \<Rightarrow> int \<Rightarrow> nat \<Rightarrow> bool" where
  "no_divisor p d 0 = True"
| "no_divisor p d (Suc k) = (if p mod d = 0 then False else no_divisor p (d + 1) k)"

text \<open>\<open>p\<close> has no divisor from 2 up to \<open>p - 1\<close>.\<close>

definition is_prime :: "int \<Rightarrow> bool" where
  "is_prime p \<longleftrightarrow> 2 \<le> p \<and> no_divisor p 2 (nat (p - 2))"

lemma no_divisor_iff: "no_divisor p d k \<longleftrightarrow> (\<forall>x. d \<le> x \<and> x < d + int k \<longrightarrow> p mod x \<noteq> 0)"
proof (induction p d k rule: no_divisor.induct)
  case (2 p d k)
  have "d \<le> x \<and> x < d + int (Suc k) \<longleftrightarrow> x = d \<or> d + 1 \<le> x \<and> x < d + 1 + int k" for x
    by auto
  then show ?case using 2 by (cases "p mod d = 0") auto
qed simp

lemma is_prime_iff: "is_prime p \<longleftrightarrow> 2 \<le> p \<and> (\<forall>x. 2 \<le> x \<and> x < p \<longrightarrow> \<not> x dvd p)"
  by (auto simp: is_prime_def no_divisor_iff dvd_eq_mod_eq_0)

definition first_primes :: "int list" where
  "first_primes = filter is_prime [2..311]"

lemma first_primes_eval: "first_primes =
  [2, 3, 5, 7, 11, 13, 17, 19, 23, 29, 31, 37, 41, 43, 47, 53, 59, 61, 67, 71, 73, 79, 83, 89, 97,
   101, 103, 107, 109, 113, 127, 131, 137, 139, 149, 151, 157, 163, 167, 173, 179, 181, 191, 193,
   197, 199, 211, 223, 227, 229, 233, 239, 241, 251, 257, 263, 269, 271, 277, 281, 283, 293, 307, 311]"
  by code_simp

section \<open>Roots\<close>

text \<open>
  \<open>f\<close> is the first 32 bits of the fractional part of the \<open>k\<close>-th root of \<open>p\<close>, whose integer
  part is \<open>a\<close>: the root times \<open>2 ^ 32\<close>, truncated, is \<open>a * 2 ^ 32 + f\<close>.
\<close>

definition root_fraction :: "nat \<Rightarrow> int \<Rightarrow> int \<Rightarrow> int \<Rightarrow> bool" where
  "root_fraction k p a f \<longleftrightarrow> 0 \<le> a \<and> 0 \<le> f \<and> f < 2 ^ 32
     \<and> (a * 2 ^ 32 + f) ^ k \<le> p * 2 ^ (32 * k) \<and> p * 2 ^ (32 * k) < (a * 2 ^ 32 + f + 1) ^ k"

text \<open>The integer part of a \<open>k\<close>-th root, by search.\<close>

definition root_floor :: "nat \<Rightarrow> int \<Rightarrow> int" where
  "root_floor k p = int (length (takeWhile (\<lambda>a. a ^ k \<le> p) [1..20]))"

lemma K_fractions: "list_all2 (\<lambda>p f. root_fraction 3 p (root_floor 3 p) f) first_primes K"
  unfolding first_primes_eval by code_simp

lemma sha_init_fractions:
  "list_all2 (\<lambda>p f. root_fraction 2 p (root_floor 2 p) f) (take 8 first_primes) (regs_list sha_init)"
  unfolding first_primes_eval by code_simp

end
