(* ===== verification/Spec2Isabelle.thy ===== *)
theory Spec2Isabelle
  imports Page_Machine Array_System Fips_Constants
begin

text \<open>
  A verification development of the browser simulation of snapvault, the TypeScript program
  under web/src: a deduplicating backup engine, a cluster of storage nodes with replicated
  chunks, a verified restore, and the page that animates them.

  The program. A file is cut into fixed-size chunks (sim/chunker.ts), a chunk is named by its
  SHA-256 (sim/sha256.ts) and stored once under that name (sim/contentStore.ts). A snapshot is
  a manifest of chunk names per file; the engine takes, restores and verifies snapshots
  (sim/engine.ts). A manifest is uploaded to a cluster that places every chunk on consecutive
  nodes from its FNV-1a hash (sim/cluster.ts); a restore fetches every chunk from the first
  replica that is up and checks its digest (sim/distribute.ts). A data set (sim/dataset.ts)
  drives a self-check (sim/selfcheck.ts) and the model of the page (useVault.ts), whose
  queries apply the set of failed nodes to the cluster first; the restore panel runs a small
  state machine over the fetch plan (components/FailureRestore.tsx), and App.tsx puts the panels
  together.

  The theories, in the order of the code. Data types, operations and fields carry the names of
  the code where Isabelle allows them; a record field has a prefix of its record.
  \<^item> Prelude: what the code uses of the language. Numbers with the 32-bit operators, thrown
    errors as \<open>throws\<close> (a sum), \<open>Map\<close> and \<open>Set\<close> as lists in insertion order, sorting, number
    and text conversion; the interface \<open>insertion_map\<close> of a map.
  \<^item> Fips_180_4, Sha256, Fips_Constants, Sha256_Gates: the standard on 32-bit words; sha256.ts on
    JavaScript numbers and its refinement to the standard, with the bounds of the sums; where
    the constants come from; and SHA-256 on bit lists, which computes digests by rewriting.
    \<open>content_hash\<close> is what the other parts use of the digest: its length and its alphabet.
  \<^item> Chunker: the loop of \<open>chunkBuffer\<close>, as a total function and as a loop that may not return,
    equal to \<open>pieces\<close>, the fixed-size pieces of a list.
  \<^item> ContentStore: the store, with the interfaces \<open>write_once\<close> (the first write of a name is
    kept) and \<open>content_addressed\<close> (a fetched chunk hashes to its name); the second is
    interpreted again by the cluster.
  \<^item> Engine, Engine_Correct: the operations of the class; what a snapshot does without its loops;
    the invariant \<open>engine_ok\<close> of reachable engines, restore, verify, statistics and trace; and
    the abstract backup, a map from names to file trees, that runs of snapshots simulate.
  \<^item> Cluster: the operations; \<open>placement_policy\<close> and \<open>replicated_read\<close> say what a placement and a
    first-replica read promise, and the facts about reads, availability and failures are proved
    from these promises alone.
  \<^item> Distribute: upload, restore and plan; the upload returns the cluster next to its result
    since an error leaves some chunks written. Restore without its loop, survival of failures,
    clean failure, copies per node.
  \<^item> Dataset, Demo_Digests, Selfcheck: the data set, its fifteen distinct chunks with their
    digests, and the run of the self-check on them.
  \<^item> Typed_Arrays, Array_Engine, Array_Cluster, Array_System: byte arrays as shared, mutable objects. The
    interface \<open>array_owner\<close> says that an object keeps and hands out copies only; a client that
    writes into every array it has seen then observes the object as a value. The engine (with
    the chunker and the store) and the cluster are written again on arrays, each operation is
    proved to do on arrays what its namesake does on bytes, and both are interpretations. So is
    the pair of them on one heap, with the operations of distribute.ts, and on it recovery
    after failures is proved for every sequence of calls. Manifests are shared objects there
    too: \<open>ae_objects\<close> holds their contents, the engine's map and the replies of \<open>snapshot\<close> and
    \<open>loadManifest\<close> hold their index, and a client may write into them (\<open>EditManifest\<close>).
    \<open>manifest_shared\<close> shows what that does to a restore.
  \<^item> Vault, RestoreView, Views, Panels: the model of the page and its reachable states; the phase
    machine of the animated restore with its timers, as a step relation; the values and the
    texts that the panels show.
  \<^item> Hero_Ring, Markup, Render, App: the places of the nodes on the ring of Hero.tsx; trees of
    elements with attributes, keys and handlers, and the building blocks of
    components/primitives.tsx; the render functions of Hero.tsx, ChunksDedup.tsx,
    Distribution.tsx, FailureRestore.tsx, Footer.tsx and App.tsx; and the running page, whose
    steps are renders, clicks on the rendered tree, effects and timers. Every step is a run of
    the restore panel, so what is proved of reachable panels holds of the page.
  \<^item> Page_Machine: the abstract machine that the page refines, and that calling a component more
    often than once, as React may, changes nothing.
  This theory states the properties, each with an instance where it has hypotheses.

  Modelling choices.
  \<^item> A byte array is a list of 8-bit words and a copy made by \<open>slice\<close> is the value itself. That
    this is right for the engine and the cluster, whatever a client does with the arrays it
    shares with them, is what the array theories prove. A string is a list of code units below
    256; the paths, names and digests of the program are ASCII.
  \<^item> Numbers are exact integers. For sha256.ts the sums are proved to stay where doubles are
    exact; the other numbers are lengths, counts and indices. The percentage of the
    deduplication panel is rounded from the exact quotient. \<open>BigInt\<close> is exact in the code too.
  \<^item> Every throw is an \<open>Inl\<close> with its message, reads past an array are \<open>None\<close> or the text
    \<open>undefined\<close>, an array part that does not fit is a range error.
  \<^item> The comparator of engine.ts orders two files with the same path inconsistently, so what
    its sort does with them is left to the engine of the language; the model sorts stably and
    the properties that depend on the order assume distinct paths.
  \<^item> In the other theories a manifest is a value, which is right as long as no caller writes into
    the object it was handed; the page never does.
  \<^item> No property assumes that SHA-256 has no collisions. The round trip and the refinements of the engine assume
    that the chunks at hand have distinct digests, which is proved for the demonstration.
  \<^item> Loops are structural recursion or carry a measure; no fuel is used, except that
    \<open>fire_times\<close> counts the timers that fire, and length plus one is shown to be enough. The
    chunking loop is also given as a partial function, \<open>None\<close> being a loop that never ends.
  \<^item> React state is a field of a record and its setters are updates; a query of a render is a
    step, an effect is a step that may come later than the change that caused it, timers fire in
    the order of their delays. A callback is taken to see the state at the time it is called,
    and a click acts on the tree of the current state.
  \<^item> A fragment is an element without a name, a character reference is its number, a conditional
    child that is absent is \<open>Nothing\<close>, an array child is \<open>Keyed\<close>. Of the inline styles only a
    colour or a position that the code computes is kept; the positions are over the real
    numbers, where the code uses doubles.

  Not modelled. Other inline styles, also of the console, and the animation properties of the
  motion library; main.tsx, which mounts the page under React's \<open>StrictMode\<close>; effects run twice by
  React in development, which here repeat a reset and a log; the layers in Go and C++ that the
  simulation was ported from.
\<close>

section \<open>Hashing\<close>

text \<open>C2: sha256.ts computes SHA-256: for every byte array the hexadecimal digest of
  \<open>sha256Hex\<close> is the digest that FIPS 180-4 defines.\<close>

theorem sha256Hex_fips: "sha256Hex bs = fips_hex bs"
  by (rule sha256Hex_eq)

section \<open>Snapshots\<close>

text \<open>C1: restoring a snapshot gives back the files it was taken from, byte for byte and in path
  order: for every engine that snapshots built, every file list without a repeated path, and
  unless two of the stored or new chunks have the same SHA-256.\<close>

theorem restore_roundtrip:
  assumes "engine_reachable e" "distinct (map sf_path files)"
    and "inj_on sha256Hex (stored_data (en_store e) \<union> snd ` set (all_writes (en_chunkSize e) files))"
  shows "engine_restore name (snd (snapshot name files e)) = Inr (sort_key sf_path files)"
  using restore_snapshot [OF engine_ok_store [OF reachable_ok [OF assms(1)]] assms(3)]
  by (simp add: sort_files [OF assms(2)])

theorem restore_roundtrip_witness:
  "engine_restore ''v2'' (snd (snapshot ''v2'' (editOneFile makeDataset) engine1))
     = Inr (sort_key sf_path (editOneFile makeDataset))"
  by (rule restore_roundtrip [OF engines_reachable(2) _ v2_injective])
    (simp only: editOneFile_paths makeDataset_paths)

text \<open>C14: a snapshot stays what it was: any later snapshots under other names leave its restore
  unchanged, whatever their content, without any assumption on the hash.\<close>

theorem restore_point_in_time:
  assumes "engine_reachable e" "map_has (en_manifests e) n" "n \<notin> fst ` set runs"
  shows "engine_restore n (snapshots runs e) = engine_restore n e"
proof -
  obtain m where "loadManifest n e = Inr m" using assms(2) by (auto simp flip: loadManifest_iff)
  with reachable_ok [OF assms(1)] assms(3) show ?thesis by (intro snapshots_unchanged)
qed

theorem restore_point_in_time_witness:
  "engine_restore ''v1'' (snapshots [(''v2'', editOneFile makeDataset)] engine1) = engine_restore ''v1'' engine1"
  by (rule restore_point_in_time [OF engines_reachable(2)])
    (simp_all add: engine1_def snapshot_manifests)

text \<open>C5: the engine refines an abstract backup: a store that keeps under each name the file tree of
  its last snapshot, in path order. After any run of snapshots, with any chunk size, restoring
  a name gives the files, or the error, that the abstract backup gives, unless two of the
  chunks written have the same SHA-256.\<close>

theorem engine_refines:
  assumes "\<And>name files. (name, files) \<in> set runs \<Longrightarrow> distinct (map sf_path files)"
    and "inj_on sha256Hex (run_data (if cs \<le> 0 then 64 else cs) runs)"
  shows "engine_restore n (snapshots runs (new_engine cs)) = abs_restore n (abs_run runs)"
proof -
  have "effective_chunk_size cs = (if cs \<le> 0 then 64 else cs)"
    by (simp add: effective_chunk_size_def DEFAULT_CHUNK_SIZE_def)
  with assms show ?thesis by (intro engine_simulates) simp_all
qed

theorem engine_refines_witness:
  "engine_restore ''v1'' (snapshots [(''v1'', makeDataset), (''v2'', editOneFile makeDataset)] (new_engine 0))
     = Inr (sort_key sf_path makeDataset)"
proof -
  have "distinct (map sf_path (editOneFile makeDataset))"
    by (simp only: editOneFile_paths makeDataset_paths)
  moreover have "inj_on sha256Hex (run_data 64 [(''v1'', makeDataset), (''v2'', editOneFile makeDataset)])"
    using v1_data v2_data by (intro inj_on_subset [OF demo_injective]) (auto simp: run_data_def)
  ultimately show ?thesis
    using engine_refines [of "[(''v1'', makeDataset), (''v2'', editOneFile makeDataset)]" 0 "''v1''"]
      makeDataset_paths
    by (auto simp: abs_restore_def abs_run_def abs_snapshot_def)
qed

text \<open>C6: sharing byte arrays with the engine is harmless: a client that passes its own arrays to a
  new engine, and writes at any time into them and into every array that the engine has handed
  out, gets from a restore what the abstract backup of the files at the time of the snapshots
  holds. The store keeps copies and a restore fills new arrays. Manifests are not copied:
  \<open>left_alone\<close> says that the client never wrote into the manifest object that the last snapshot
  under the restored name returned (it may write into every other one). Further, no snapshot
  has a repeated path, and no two different chunks written have the same SHA-256.\<close>

theorem array_restores:
  assumes "engine_client (fresh_client cs) (es @ [(Restore n, Restored r)]) s"
    and "left_alone n es"
    and "\<And>name files. (name, files) \<in> set (snapshot_runs es) \<Longrightarrow> distinct (map sf_path files)"
    and "inj_on sha256Hex (run_data (if cs \<le> 0 then 64 else cs) (snapshot_runs es))"
  shows "r = map_sum id (map (\<lambda>f. (sf_path f, sf_data f))) (abs_restore n (abs_run (snapshot_runs es)))"
proof -
  have "effective_chunk_size cs = (if cs \<le> 0 then 64 else cs)"
    by (simp add: effective_chunk_size_def DEFAULT_CHUNK_SIZE_def)
  with assms(4) have "inj_on sha256Hex (run_data (effective_chunk_size cs) (snapshot_runs es))" by (simp only:)
  from client_restores [OF assms(1,2,3) this] show ?thesis .
qed

theorem array_restores_witness:
  "\<exists>sr st s. engine_client (fresh_client 0)
     [(Snapshot ''s'' [(''f'', [1, 2, 3])], Snapped sr), (Snapshot ''t'' [], Snapped st),
      (EditManifest (ar_manifest st) \<lparr>mf_name = [], mf_chunkSize = 0, mf_files = []\<rparr>, Edited),
      (Restore ''s'', Restored (Inr [(''f'', [1, 2, 3])]))] s"
proof -
  let ?c0 = "fresh_client 0" and ?m = "\<lparr>mf_name = [], mf_chunkSize = 0, mf_files = []\<rparr>"
  let ?snap = "Snapshot ''s'' [(''f'', [1, 2, 3])] :: bytes engine_call"
  obtain w h0 where new: "new_array [1, 2, 3] empty_heap = (w, h0)" by fastforce
  have start: "engine_client ?c0 [] (h0, anew_engine 0, {w})"
    using client_run.create [OF client_run.idle new] by (simp add: fresh_client_def)
  from engine_client_call [OF start, of "Snapshot ''s'' [(''f'', w)]"] new_array_result(3) [OF new]
  obtain sr h1 e1 k1 where run1: "engine_client ?c0 [(?snap, Snapped sr)] (h1, e1, k1)" and w: "w \<in> k1"
    by (auto split: prod.splits)
  from engine_client_call [OF client_run.modify [OF run1 w, of 0 9], of "Snapshot ''t'' []"]
  obtain st h2 e2 k2 where run2: "engine_client ?c0 [(?snap, Snapped sr), (Snapshot ''t'' [], Snapped st)] (h2, e2, k2)"
    by (auto split: prod.splits)
  from engine_client_call [OF run2, of "EditManifest (ar_manifest st) ?m"] obtain h3 e3 k3 where
    "engine_client ?c0 [(?snap, Snapped sr), (Snapshot ''t'' [], Snapped st), (EditManifest (ar_manifest st) ?m, Edited)]
      (h3, e3, k3)" by auto
  from engine_client_restore [OF this, of "''s''"] obtain res s where
    run: "engine_client ?c0 ([(?snap, Snapped sr), (Snapshot ''t'' [], Snapped st), (EditManifest (ar_manifest st) ?m, Edited)]
      @ [(Restore ''s'', Restored res)]) s" by auto
  have "ar_manifest sr = 0 \<and> ar_manifest st = 1"
    using eng.client_isolated [OF run2 fresh_apart]
    by (auto simp: fresh_client_def fresh_engine held_new_def split: prod.splits if_splits)
  then have "left_alone ''s'' [(?snap, Snapped sr), (Snapshot ''t'' [], Snapped st), (EditManifest (ar_manifest st) ?m, Edited)]"
    by (simp add: left_alone_def last_manifest_def)
  from array_restores [OF run this] have "res = Inr [(''f'', [1, 2, 3])]"
    by (force simp: run_data_def abs_restore_def abs_run_def abs_snapshot_def all_writes_def file_writes_def chunkBuffer_pieces effective_chunk_size_def pieces_step)
  with run show ?thesis by (intro exI [of _ sr] exI [of _ st] exI [of _ s]) simp
qed

text \<open>C8: in every engine that snapshots built, every stored chunk hashes to its address and every
  manifest sits under its own name and refers to stored chunks only.\<close>

theorem engine_invariant:
  assumes "engine_reachable e"
  shows "(\<forall>(h, d) \<in> set (cs_chunks (en_store e)). sha256Hex d = h)
    \<and> (\<forall>(n, m) \<in> set (en_manifests e). mf_name m = n \<and> (\<forall>h \<in> set (chunk_refs m). store_has h (en_store e)))
    \<and> 0 < en_chunkSize e"
  using reachable_ok [OF assms]
  by (simp add: engine_ok_def store_ok_def manifest_stored_def list_all_iff)

theorem engine_invariant_witness: "0 < en_chunkSize engine2"
  using engine_invariant [OF engines_reachable(3)] by (elim conjE)

text \<open>C16: the statistics of a snapshot: files, references and bytes are counted, the new chunks
  are the distinct digests that the store did not have, the store grows by exactly those, and
  every reference is either new or deduplicated.\<close>

theorem snapshot_statistics:
  assumes "engine_reachable e"
  shows "let refs = source_refs (en_chunkSize e) files;
             fresh = card (set refs - set (store_hashes (en_store e)))
         in sr_stats (fst (snapshot name files e)) =
              \<lparr>st_files = length files, st_chunks = length refs, st_newChunks = fresh,
               st_dedupedChunks = length refs - fresh, st_bytes = sum_list (map (length \<circ> sf_data) files)\<rparr>
            \<and> store_size (en_store (snd (snapshot name files e))) = store_size (en_store e) + fresh
            \<and> fresh \<le> length refs"
  using stats_snapshot [OF engine_ok_store [OF reachable_ok [OF assms]], where files = files]
  unfolding Let_def by (intro conjI)

theorem snapshot_statistics_witness:
  "st_newChunks (sr_stats (fst (snapshot ''v1'' makeDataset engine0))) = 14
   \<and> store_size (en_store engine1) = store_size (en_store engine0) + 14"
proof -
  have "card (set (source_refs (en_chunkSize engine0) makeDataset) - set (store_hashes (en_store engine0))) = 14"
    using rows_hashes [OF index_range(1), of "[]"]
    by (simp only: chunk_sizes v1_source_refs hashes0) (simp add: index_cards)
  then show ?thesis
    using snapshot_statistics [OF engines_reachable(1), of makeDataset]
    by (simp add: Let_def engine1_def)
qed

text \<open>Taking the same files again stores nothing, under whatever name.\<close>

theorem snapshot_idempotent:
  assumes "engine_reachable e"
  shows "st_newChunks (sr_stats (fst (snapshot name' files (snd (snapshot name files e))))) = 0
    \<and> en_store (snd (snapshot name' files (snd (snapshot name files e)))) = en_store (snd (snapshot name files e))"
  using snapshot_again [OF engine_ok_store [OF reachable_ok [OF assms]]] by blast

theorem snapshot_idempotent_witness:
  "st_newChunks (sr_stats (fst (snapshot ''v3'' makeDataset engine1))) = 0"
  using snapshot_idempotent [OF engines_reachable(1), of "''v3''" makeDataset "''v1''"]
  unfolding engine1_def by (elim conjE)

text \<open>C28: the trace shown to the user: it lists the files and references of the manifest, and
  marks a reference as new exactly when its digest was neither stored before nor used
  earlier in the same snapshot.\<close>

theorem snapshot_trace:
  "let r = fst (snapshot name files e); refs = chunk_refs (sr_manifest r)
   in list_all2 (\<lambda>ft fe. ft_path ft = fe_path fe \<and> map ct_hash (ft_chunks ft) = fe_chunks fe)
        (sr_trace r) (mf_files (sr_manifest r))
      \<and> concat (map ft_chunks (sr_trace r)) = map (\<lambda>i. \<lparr>ct_hash = refs ! i,
          ct_isNew = refs ! i \<notin> set (store_hashes (en_store e)) \<union> set (take i refs)\<rparr>) [0..<length refs]"
proof -
  have "first_uses seen refs = map (\<lambda>i. \<lparr>ct_hash = refs ! i,
      ct_isNew = refs ! i \<notin> set seen \<union> set (take i refs)\<rparr>) [0..<length refs]" for seen refs
    by (rule nth_equalityI) (simp_all add: nth_first_uses)
  with trace_snapshot [of name files e] show ?thesis by (simp add: Let_def)
qed

section \<open>Verification of a store\<close>

text \<open>In an engine that snapshots built, verifying a snapshot, or all of them under the empty
  name, checks each distinct referenced chunk once and reports no bad chunk; an unknown name
  is an error with its message.\<close>

theorem verify_clean:
  assumes "engine_reachable e"
  shows "verify name e =
    (if name = [] \<or> map_has (en_manifests e) name
     then Inr \<lparr>vr_checked = card (set (verify_refs name e)), vr_bad = 0, vr_firstBadHash = []\<rparr>
     else Inl (Error (''snapshot not found: '' @ name)))"
proof (cases "name = [] \<or> map_has (en_manifests e) name")
  case True
  then show ?thesis by (simp only: verify_ok [OF reachable_ok [OF assms] True] if_True)
next
  case False
  then show ?thesis by (simp add: verify_def loadManifest_def map_has_def)
qed

theorem verify_clean_witness:
  "verify ''v2'' engine2 = Inr \<lparr>vr_checked = 14, vr_bad = 0, vr_firstBadHash = []\<rparr>"
proof -
  have "map_has (en_manifests engine2) ''v2''"
    by (simp add: engine2_def snapshot_manifests)
  moreover have "card (set (verify_refs ''v2'' engine2)) = 14"
    by (simp add: verify_refs_def v2_loaded v2_unique)
  ultimately show ?thesis using verify_clean [OF engines_reachable(3), of "''v2''"] by simp
qed

text \<open>C15: verify misses no corruption: whatever bytes the store holds under the referenced
  addresses, the number of bad chunks is the number of distinct references whose bytes do
  not hash to their address, and a bad one is named exactly when there is one.\<close>

theorem verify_detects:
  assumes "name = [] \<or> map_has (en_manifests e) name"
    and "\<forall>h \<in> set (verify_refs name e). store_has h (en_store e)" "[] \<notin> set (verify_refs name e)"
  shows "let bad = {h \<in> set (verify_refs name e). sha256Hex (stored_bytes (en_store e) h) \<noteq> h}
         in \<exists>first. verify name e = Inr \<lparr>vr_checked = card (set (verify_refs name e)),
                vr_bad = card bad, vr_firstBadHash = first\<rparr>
              \<and> (if bad = {} then first = [] else first \<in> bad)"
proof -
  have bad: "{h \<in> set (verify_refs name e). is_bad (en_store e) h}
      = {h \<in> set (verify_refs name e). sha256Hex (stored_bytes (en_store e) h) \<noteq> h}"
    using assms(2) by (auto simp: is_bad_def dest!: stored_bytes_lookup)
  have "[] \<notin> set (unique_refs name e)" using assms(3) by simp
  note first = first_bad_reported [OF this, of "en_store e", unfolded unique_refs(1) bad]
  have "verify name e = Inr
      \<lparr>vr_checked = card (set (verify_refs name e)),
       vr_bad = card {h \<in> set (verify_refs name e). sha256Hex (stored_bytes (en_store e) h) \<noteq> h},
       vr_firstBadHash = first_bad (en_store e) (unique_refs name e)\<rparr>"
    unfolding bad [symmetric] using assms(1,2) by (intro verify_stored) auto
  with first show ?thesis unfolding Let_def by (intro exI conjI) auto
qed

definition tampered_engine :: engine where
  "tampered_engine =
     \<lparr>en_store = \<lparr>cs_chunks = [(''bad'', [])]\<rparr>,
      en_manifests = [(''s'', \<lparr>mf_name = ''s'', mf_chunkSize = 64,
        mf_files = [\<lparr>fe_path = ''f'', fe_size = 3, fe_chunks = [''bad'', ''bad'']\<rparr>]\<rparr>)],
      en_chunkSize = 64\<rparr>"

theorem verify_detects_witness:
  "verify ''s'' tampered_engine = Inr \<lparr>vr_checked = 1, vr_bad = 1, vr_firstBadHash = ''bad''\<rparr>"
proof -
  have refs: "verify_refs ''s'' tampered_engine = [''bad'', ''bad'']"
    by (simp add: verify_refs_def loadManifest_def tampered_engine_def chunk_refs_def)
  have bad: "{h \<in> set (verify_refs ''s'' tampered_engine).
      sha256Hex (stored_bytes (en_store tampered_engine) h) \<noteq> h} = {''bad''}"
    unfolding refs using sha256_empty by (auto simp: stored_bytes_def tampered_engine_def text_encode_def)
  have "map_has (en_manifests tampered_engine) ''s''" "store_has ''bad'' (en_store tampered_engine)"
    by (simp_all add: tampered_engine_def map_has_def store_has_def)
  then show ?thesis
    using verify_detects [of "''s''" tampered_engine] unfolding Let_def bad by (simp add: refs)
qed

section \<open>Chunks and the store\<close>

text \<open>C31: chunking loses nothing and cuts fixed-size pieces: the chunks of a buffer in order
  concatenate to it; with the step, where a size of zero or less is replaced by the default,
  there are as many as the length divided by the step, rounded up; and chunk \<open>i\<close> is the bytes from \<open>i\<close> times the step, and it is named by its SHA-256.\<close>

theorem chunkBuffer_fixed_size:
  "let step = nat (if n \<le> 0 then 64 else n); cs = chunkBuffer buffer n
   in concat (map chunk_data cs) = buffer
      \<and> length cs = (length buffer + step - 1) div step
      \<and> (\<forall>i < length cs. chunk_data (cs ! i) = take step (drop (i * step) buffer)
            \<and> 0 < length (chunk_data (cs ! i)) \<and> length (chunk_data (cs ! i)) \<le> step
            \<and> chunk_hash (cs ! i) = sha256Hex (chunk_data (cs ! i)))"
proof -
  have step: "0 < nat (if n \<le> 0 then 64 else n)"
    "chunkBuffer buffer n = map make_chunk (pieces (nat (if n \<le> 0 then 64 else n)) buffer)"
    by (simp_all add: chunkBuffer_pieces effective_chunk_size_def DEFAULT_CHUNK_SIZE_def)
  have "let cs = map make_chunk (pieces step buffer)
     in length cs = (length buffer + step - 1) div step
      \<and> (\<forall>i < length cs. chunk_data (cs ! i) = take step (drop (i * step) buffer)
            \<and> 0 < length (chunk_data (cs ! i)) \<and> length (chunk_data (cs ! i)) \<le> step
            \<and> chunk_hash (cs ! i) = sha256Hex (chunk_data (cs ! i)))" if "0 < step" for step
    using pieces_length [OF nth_mem, of _ step buffer] length_pieces [OF that, of buffer]
      nth_pieces [OF that, of _ buffer]
    by (simp add: make_chunk_def Let_def del: length_greater_0_conv)
  from this [OF step(1)] show ?thesis
    using concat_chunkBuffer [of buffer n] unfolding Let_def step(2) by blast
qed

theorem chunkBuffer_fixed_size_witness: "length (chunkBuffer [1, 2, 3, 4, 5, 6, 7] 3) = 3"
  using chunkBuffer_fixed_size [of 3 "[1, 2, 3, 4, 5, 6, 7]"] by (simp add: Let_def)

text \<open>C34: the guard on the chunk size is what makes the loop end: with a positive step the
  while loop returns from every start, with a step of zero it never returns while bytes are
  left.\<close>

theorem chunk_loop_terminates:
  "(0 < step \<longrightarrow> chunk_loop_js buffer step offset chunks
        = Some (chunks @ map make_chunk (pieces step (drop offset buffer))))
   \<and> (offset < length buffer \<longrightarrow> chunk_loop_js buffer 0 offset chunks = None)"
  by (simp add: chunk_loop_js_returns chunk_loop_pieces chunk_loop_js_stuck)

theorem chunk_loop_terminates_witness:
  "chunk_loop_js [7] 0 0 [] = None \<and> chunk_loop_js [] 5 0 [] = Some []"
  using chunk_loop_terminates [of 0 "[7]" 0 "[]"] chunk_loop_terminates [of 5 "[]" 0 "[]"] by simp

text \<open>The store is write-once: after any run of writes, a lookup gives the bytes that were
  there before, else the first bytes written under the address, else the error of a missing
  chunk; a write reports whether it stored.\<close>

theorem store_write_once:
  "store_get h (put_all s kvs) =
     (case store_lookup s h of
        Some d \<Rightarrow> Inr d
      | None \<Rightarrow> (case map_of kvs h of
                    Some d \<Rightarrow> Inr d
                  | None \<Rightarrow> Inl (Error (''chunk not found in store: '' @ h))))
   \<and> (fst (store_put h d s) \<longleftrightarrow> \<not> store_has h s)"
  by (simp add: store_get_def store_lookup_put_all wo.put_reports store_has_iff split: option.split)

text \<open>\<open>uniqueChunks\<close> gives the references of a manifest sorted by code units and without
  repetition.\<close>

theorem uniqueChunks_sorted_set:
  "sorted (uniqueChunks m) \<and> distinct (uniqueChunks m)
   \<and> set (uniqueChunks m) = (\<Union>fe \<in> set (mf_files m). set (fe_chunks fe))"
  by (simp add: uniqueChunks_eq chunk_refs_def)

section \<open>Placement and the cluster\<close>

text \<open>C37: the placement hash is 64-bit FNV-1a: on a SHA-256 digest, the BigInt code computes what
  FNV-1a on 64-bit words gives for the UTF-8 bytes of the digest.\<close>

theorem fnv_digest: "fnv1a64 (sha256Hex d) = uint (fnv_word (text_encode (sha256Hex d)))"
  by (rule fnv1a64_ascii) (rule sha.hash_ascii)

text \<open>C24: the placement of a chunk: as many different nodes of the cluster as the replication
  factor says, in ascending order, namely the nodes that follow the hash modulo the number of
  nodes, wrapping around.\<close>

theorem placement_spec:
  assumes "cluster_ok c"
  shows "sorted (placement h c) \<and> distinct (placement h c)
    \<and> int (length (placement h c)) = cl_replication c
    \<and> set (placement h c) = (\<lambda>i. (fnv1a64 h + int i) mod nodeCount c) ` {0..<nat (cl_replication c)}
    \<and> set (placement h c) \<subseteq> {0..<nodeCount c}"
  using code.place_sorted [OF assms] code.place_distinct [OF assms] code.place_length [OF assms]
    code.place_range [OF assms]
  by (simp add: placement_eq [OF assms])

lemma demo_cluster_ok: "cluster_ok demo_cluster"
  using cluster_ok_new [OF demo_cluster_new] by (elim conjE)

theorem placement_spec_witness: "length (placement ''a'' demo_cluster) = 3"
  using placement_spec [OF demo_cluster_ok, of "''a''"] by (simp add: demo_cluster_def)

text \<open>C23: a cluster read succeeds exactly when \<open>chunkAvailable\<close> says so; it is served by the
  smallest replica node that is up and holds the chunk, with the bytes of that node; and the
  only error is the unavailable chunk.\<close>

theorem cluster_read:
  assumes "cluster_ok c"
  shows "case cluster_get h c of
           Inl err \<Rightarrow> err = Error ErrChunkUnavailable \<and> \<not> chunkAvailable h c
         | Inr (d, n) \<Rightarrow> chunkAvailable h c \<and> node_lookup c n h = Some d
             \<and> n = Min {n \<in> set (placement h c). node_up c n \<and> node_lookup c n h \<noteq> None}"
proof (cases "cluster_get h c")
  case (Inl err)
  then have "err = Error ErrChunkUnavailable" by (rule code.fetch_Inl)
  with Inl show ?thesis using code.fetch_Inl_iff [of h c] by (simp add: chunkAvailable_iff)
next
  case (Inr r)
  obtain d n where r: "cluster_get h c = Inr (d, n)" using Inr by (cases r) simp
  note served = code.fetch_from [OF r]
  have "Min {n \<in> set (placement h c). node_up c n \<and> node_lookup c n h \<noteq> None} = n"
    using served code.fetch_least [OF assms r] by (intro Min_eqI) auto
  with served code.fetch_Inr_iff [of h c] r show ?thesis by (auto simp: chunkAvailable_iff)
qed

theorem cluster_read_witness:
  "cluster_get ''a'' demo_cluster = Inl (Error ErrChunkUnavailable)"
proof -
  have "n \<in> set (placement ''a'' demo_cluster) \<Longrightarrow> node_lookup demo_cluster n ''a'' = None" for n
    using placement_valid [OF demo_cluster_ok] by (simp add: demo_cluster_def nat_less_iff)
  then have "\<not> chunkAvailable ''a'' demo_cluster"
    by (simp add: chunkAvailable_iff code.reachable_copy_def)
  with cluster_read [OF demo_cluster_ok, of "''a''"] show ?thesis
    by (auto split: sum.splits)
qed

text \<open>C17: a cluster that shares arrays with its client implements an abstract one, a map from names
  to bytes and a set of failed nodes: whatever the client writes into the arrays that it
  passed or was handed, a read gives the bytes that were last written under the name, from
  the first node of the placement that has not failed, or the error if there is none.\<close>

theorem cluster_client_reads:
  assumes "anew_cluster n r = Inr c"
    and "cluster_client (empty_heap, c, {}) (es @ [(Get k, Fetched res)]) s"
  shows "res = abs_cluster_get (aplacement k c) k (abs_cluster_run (map fst es))"
  by (rule client_reads [OF assms])

theorem cluster_client_reads_witness:
  "\<exists>c s. anew_cluster 1 1 = Inr c \<and> cluster_client (empty_heap, c, {})
     [(Put ''a'' [1, 2], Finished), (Get ''a'', Fetched (Inr ([1, 2], 0)))] s"
proof -
  obtain c where c: "anew_cluster 1 1 = Inr c" by (simp add: anew_cluster_def)
  obtain w h1 where new: "new_array [1, 2] empty_heap = (w, h1)" by fastforce
  obtain h2 c2 where put: "call_cluster (Put ''a'' w) (h1, c) = (Finished, h2, c2)"
    by (cases "acluster_put ''a'' w (h1, c)") auto
  have "cluster_client (empty_heap, c, {}) [] (empty_heap, c, {})" by (rule client_run.idle)
  from client_run.call [OF client_run.create [OF this new] _ put] new_array_result(3) [OF new]
  have "cluster_client (empty_heap, c, {}) [(Put ''a'' [1, 2], Finished)] (h2, c2, {w})" by simp
  from client_run.modify [OF this, of w 0 9]
  have "cluster_client (empty_heap, c, {}) [(Put ''a'' [1, 2], Finished)] (write_view w 0 9 h2, c2, {w})" by simp
  from cluster_client_get [OF this, of "''a''"] obtain res s where
    run: "cluster_client (empty_heap, c, {}) ([(Put ''a'' [1, 2], Finished)] @ [(Get ''a'', Fetched res)]) s" by blast
  have "aplacement ''a'' c = [0]"
    using c by (auto simp: anew_cluster_def aplacement_def js_sort_def)
  with cluster_client_reads [OF c run] have "res = Inr ([1, 2], 0)"
    by (simp add: abs_cluster_run_def abs_cluster_get_def)
  with c run show ?thesis by (intro exI [of _ c] exI [of _ s]) simp
qed

text \<open>An upload writes the chunk to every node of its placement, and to no other node and
  under no other address.\<close>

theorem cluster_write:
  assumes "cluster_ok c" "0 \<le> n"
  shows "node_lookup (cluster_put h d c) n h' =
      (if h' = h \<and> n \<in> set (placement h c) then Some d else node_lookup c n h')
    \<and> cluster_ok (cluster_put h d c) \<and> cl_up (cluster_put h d c) = cl_up c"
  by (simp add: node_lookup_put [OF assms] cluster_ok_put [OF assms(1)])

theorem cluster_write_witness:
  "node_lookup (cluster_put ''a'' [1] demo_cluster) 0 ''b'' = None"
  using cluster_write [OF demo_cluster_ok, of 0 "''a''" "[1]" "''b''"] by (simp add: demo_cluster_def)

text \<open>The errors of the cluster: a node count below one, a replication factor outside one to
  the node count, and an unknown node id are refused with their messages; everything else is
  accepted, all nodes up and empty; a set flag reads back, and a recovery sets every one.\<close>

theorem cluster_errors:
  "new_cluster n r =
     (if n < 1 then Inl (Error (''node count must be >= 1, got '' @ js_show n))
      else if 1 \<le> r \<and> r \<le> n
      then Inr \<lparr>cl_up = replicate (nat n) True, cl_data = replicate (nat n) [], cl_replication = r\<rparr>
      else Inl (Error (''replication factor must be in [1,'' @ js_show n @ ''], got '' @ js_show r)))
   \<and> (isUp i c = None \<longleftrightarrow> setUp i b c = Inl (Error (''unknown node id '' @ js_show i)))
   \<and> (case setUp i b c of Inl _ \<Rightarrow> True | Inr c' \<Rightarrow> isUp i c' = Some b)
   \<and> isUp i (recoverAll c) = map_option (\<lambda>_. True) (isUp i c)"
  by (auto simp: new_cluster_def isUp_def setUp_def recoverAll_def nat_less_iff)

section \<open>Upload and restore\<close>

text \<open>C3: fewer failed nodes than copies never stop a restore: a snapshot of any engine that
  snapshots built, uploaded to any new cluster, is restored with every chunk fetched and
  verified after any nodes, fewer than the replication factor, have failed.\<close>

theorem restore_survives_failures:
  assumes "engine_reachable e" "loadManifest name e = Inr m" "new_cluster n r = Inr c0"
    and "down_all failed (snd (distribute e c0 m)) = Inr c" "int (card (set failed)) < r"
  shows "fst (distribute e c0 m) = Inr (card (set (chunk_refs m)))
    \<and> rr_ok (restore c m p) \<and> rs_verified (rr_stats (restore c m p)) = card (set (chunk_refs m))
    \<and> rs_files (rr_stats (restore c m p)) = length (mf_files m)"
  by (rule pipeline [OF assms])

theorem restore_survives_failures_witness:
  "rr_ok (restore (loaded_cluster\<lparr>cl_up := [True, True, False, True, False]\<rparr>) v2_manifest 4)"
proof -
  have "down_all [2, 4] (snd (distribute engine2 demo_cluster v2_manifest))
      = Inr (loaded_cluster\<lparr>cl_up := [True, True, False, True, False]\<rparr>)"
    by (simp add: v2_distributed setUp_def loaded_frame numeral_eq_Suc)
  from restore_survives_failures [OF engines_reachable(3) v2_loaded demo_cluster_new this]
  show ?thesis by simp
qed



text \<open>C22: what a restore does on every branch: it fetches the unique chunks in order, counts
  those that are served with bytes that hash to their address, and stops at the first chunk
  that is unavailable or fails the check, with the event and the error of that chunk; only a
  complete run counts the files.\<close>

theorem restore_behaviour:
  "restore c m p =
     (let good = takeWhile (passes c) (uniqueChunks m);
          stats = \<lparr>rs_files = 0, rs_chunks = length (uniqueChunks m), rs_verified = length good,
                   rs_parallelism = max 1 p\<rparr>
      in case dropWhile (passes c) (uniqueChunks m) of
           [] \<Rightarrow> \<lparr>rr_stats = stats\<lparr>rs_files := length (mf_files m)\<rparr>,
                 rr_events = map (event_of c) good, rr_ok = True, rr_error = None\<rparr>
         | h # _ \<Rightarrow> \<lparr>rr_stats = stats, rr_events = map (event_of c) (good @ [h]),
                    rr_ok = False, rr_error = ev_error (event_of c h)\<rparr>)"
proof (cases "dropWhile (passes c) (uniqueChunks m)")
  case Nil
  then have "takeWhile (passes c) (uniqueChunks m) = uniqueChunks m"
    by (simp add: takeWhile_eq_all_conv dropWhile_eq_Nil_conv)
  with Nil show ?thesis unfolding restore_eq Let_def by (simp only: list.case)
next
  case (Cons h hs)
  then show ?thesis unfolding restore_eq Let_def by (simp only: list.case)
qed

text \<open>C4: no corrupt chunk gets through: in any cluster, whatever its nodes hold, a restore
  succeeds exactly when every referenced chunk is served with bytes whose SHA-256 is the
  address.\<close>

theorem restore_integrity:
  "rr_ok (restore c m p) \<longleftrightarrow>
     (\<forall>h \<in> set (chunk_refs m). \<exists>d n. cluster_get h c = Inr (d, n) \<and> sha256Hex d = h)"
proof -
  have "passes c h \<longleftrightarrow> (\<exists>d n. cluster_get h c = Inr (d, n) \<and> sha256Hex d = h)" for h
    by (cases "cluster_get h c") (auto simp: passes_def)
  then show ?thesis by (simp only: restore_ok_iff)
qed

theorem restore_integrity_witness:
  "\<not> rr_ok (restore (cluster_put ''aa'' [1, 2, 3] demo_cluster)
      \<lparr>mf_name = ''m'', mf_chunkSize = 64, mf_files = [\<lparr>fe_path = ''f'', fe_size = 3, fe_chunks = [''aa'']\<rparr>]\<rparr> 4)"
proof -
  have "sha256Hex d \<noteq> ''aa''" for d using sha.hash_length [of d] by force
  then show ?thesis by (simp add: restore_integrity chunk_refs_def)
qed

text \<open>C32: in a cluster with intact copies a restore succeeds exactly when every chunk has a
  reachable replica, and otherwise fails cleanly, with the error of an unavailable chunk.\<close>

theorem restore_clean:
  assumes "cluster_inv c"
  shows "if \<forall>h \<in> set (chunk_refs m). chunkAvailable h c then rr_ok (restore c m p)
         else \<not> rr_ok (restore c m p) \<and> rr_error (restore c m p) = Some ErrChunkUnavailable"
  using restore_clean_failure [OF assms] by (auto simp: restore_ok_iff passes_iff [OF assms])

theorem restore_clean_witness: "rr_ok (restore demo_cluster \<lparr>mf_name = ''e'', mf_chunkSize = 64, mf_files = []\<rparr> 4)"
  using restore_clean [OF cluster_inv_new [OF demo_cluster_new], of "\<lparr>mf_name = ''e'', mf_chunkSize = 64, mf_files = []\<rparr>"]
  by (simp add: chunk_refs_def)

text \<open>C26: after the upload of a stored manifest to a new cluster, the result is the number of
  distinct chunks, node \<open>i\<close> holds one copy of each chunk whose placement has \<open>i\<close>, and all
  nodes together hold replication factor times as many copies as there are chunks.\<close>

theorem distribute_copies:
  assumes "engine_reachable e" "loadManifest name e = Inr m" "new_cluster n r = Inr c"
  shows "let (k, c') = distribute e c m
         in k = Inr (card (set (chunk_refs m)))
            \<and> map ns_chunks (status c') =
                map (\<lambda>i. length (filter (\<lambda>h. int i \<in> set (placement h c)) (uniqueChunks m))) [0..<nat n]
            \<and> int (sum_list (map ns_chunks (status c'))) = int (card (set (chunk_refs m))) * r"
proof -
  have stored: "manifest_stored (en_store e) m"
    using engine_ok_manifest [OF reachable_ok [OF assms(1)] assms(2)] by (elim conjE)
  have ok: "cluster_ok c" using cluster_ok_new [OF assms(3)] by (elim conjE)
  have new: "length (cl_up c) = nat n" "cl_replication c = r"
    using assms(3) by (auto simp: new_cluster_def split: if_splits)
  have len: "length (uniqueChunks m) = card (set (chunk_refs m))"
    using distinct_card [OF distinct_uniqueChunks, of m] by simp
  show ?thesis
    using status_put_chunks [OF ok empty_nodes_new [OF assms(3)] distinct_uniqueChunks]
      copies_put_chunks [OF ok empty_nodes_new [OF assms(3)] distinct_uniqueChunks]
    by (simp add: distribute_stored [OF stored] new len)
qed

theorem distribute_copies_witness: "int (sum_list (map ns_chunks (status loaded_cluster))) = 42"
proof -
  have "int (sum_list (map ns_chunks (status loaded_cluster))) = int 14 * 3"
    using distribute_copies [OF engines_reachable(3) v2_loaded demo_cluster_new]
    unfolding v2_distributed prod.case v2_unique Let_def by (elim conjE)
  then show ?thesis by simp
qed

text \<open>C40: an upload of a manifest with a chunk that the store lacks throws the error of that
  chunk, with exactly the chunks before it written.\<close>

theorem distribute_missing:
  assumes "find (\<lambda>h. \<not> store_has h (en_store e)) (uniqueChunks m) = Some h"
  shows "distribute e c m = (Inl (Error (''chunk not found in store: '' @ h)),
     put_chunks (stored_bytes (en_store e)) c (takeWhile (\<lambda>h. store_has h (en_store e)) (uniqueChunks m)))"
proof -
  have "\<exists>hs. dropWhile (\<lambda>h. store_has h (en_store e)) (uniqueChunks m) = h # hs"
    using assms by (simp add: find_dropWhile comp_def split: list.splits)
  then show ?thesis by (auto simp: distribute_def distribute_loop_eq)
qed

theorem distribute_missing_witness:
  "fst (distribute engine0 demo_cluster \<lparr>mf_name = ''m'', mf_chunkSize = 64,
      mf_files = [\<lparr>fe_path = ''f'', fe_size = 1, fe_chunks = [''aa'']\<rparr>]\<rparr>)
   = Inl (Error ''chunk not found in store: aa'')"
proof -
  let ?m = "\<lparr>mf_name = ''m'', mf_chunkSize = 64, mf_files = [\<lparr>fe_path = ''f'', fe_size = 1, fe_chunks = [''aa'']\<rparr>]\<rparr>"
  have "find (\<lambda>h. \<not> store_has h (en_store engine0)) (uniqueChunks ?m) = Some ''aa''"
    by (simp add: uniqueChunks_eq chunk_refs_def store_has_hashes hashes0)
  from distribute_missing [OF this] show ?thesis by simp
qed

text \<open>C25: the plan that the page animates agrees with the restore. In any cluster it lists the same
  chunks in the same order, available exactly when the cluster says so, and a successful
  restore is served by the planned nodes. When the copies on the nodes are intact, which
  \<open>cluster_inv\<close> says, the restore succeeds exactly when the whole plan is available.\<close>

theorem plan_agrees:
  "map pf_hash (planRestore c m) = uniqueChunks m
    \<and> map pf_available (planRestore c m) = map (\<lambda>h. chunkAvailable h c) (uniqueChunks m)
    \<and> (rr_ok (restore c m p) \<longrightarrow> list_all pf_available (planRestore c m)
         \<and> map ev_node (rr_events (restore c m p)) = map pf_node (planRestore c m))
    \<and> (cluster_inv c \<longrightarrow> (rr_ok (restore c m p) \<longleftrightarrow> list_all pf_available (planRestore c m)))"
proof (intro conjI impI)
  show "map pf_hash (planRestore c m) = uniqueChunks m"
  proof -
    have "pf_hash (plan_one c h) = h" for h
      by (simp add: plan_one_def split: sum.split prod.split)
    then show ?thesis by (simp add: planRestore_def comp_def)
  qed
  show "map pf_available (planRestore c m) = map (\<lambda>h. chunkAvailable h c) (uniqueChunks m)"
    by (simp add: planRestore_def plan_available)
  show "rr_ok (restore c m p) \<longleftrightarrow> list_all pf_available (planRestore c m)" if "cluster_inv c"
    by (simp add: restore_ok_iff passes_iff [OF that] planRestore_def list_all_iff plan_available)
  assume "rr_ok (restore c m p)"
  then have pass: "\<And>h. h \<in> set (chunk_refs m) \<Longrightarrow> passes c h" by (simp add: restore_ok_iff)
  then show "map ev_node (rr_events (restore c m p)) = map pf_node (planRestore c m)"
    using plan_event by (simp add: restore_all [OF pass] planRestore_def)
  have "pf_available (plan_one c h)" if "passes c h" for h
    using that by (auto simp: passes_def plan_one_def split: sum.splits)
  with pass show "list_all pf_available (planRestore c m)"
    by (simp add: planRestore_def list_all_iff)
qed

theorem plan_agrees_witness:
  "let c = loaded_cluster\<lparr>cl_up := [True, True, False, True, False]\<rparr>
   in list_all pf_available (planRestore c v2_manifest)
      \<and> map ev_node (rr_events (restore c v2_manifest 4)) = map pf_node (planRestore c v2_manifest)"
proof -
  have "down_all [2, 4] (snd (distribute engine2 demo_cluster v2_manifest))
      = Inr (loaded_cluster\<lparr>cl_up := [True, True, False, True, False]\<rparr>)"
    by (simp add: v2_distributed setUp_def loaded_frame numeral_eq_Suc)
  from pipeline [OF engines_reachable(3) v2_loaded demo_cluster_new this, of 4]
  have "rr_ok (restore (loaded_cluster\<lparr>cl_up := [True, True, False, True, False]\<rparr>) v2_manifest 4)" by simp
  then show ?thesis unfolding Let_def by (intro plan_agrees [THEN conjunct2, THEN conjunct2, THEN conjunct1, rule_format])
qed

section \<open>The demonstration\<close>

text \<open>C38: the comparison of file trees: on trees without a repeated path it holds exactly when
  they contain the same files with the same bytes, in whatever order.\<close>

theorem treesEqual_correct:
  assumes "distinct (map sf_path a)" "distinct (map sf_path b)"
  shows "treesEqual a b \<longleftrightarrow> mset a = mset b"
  using treesEqual_sets [OF assms] set_eq_iff_mset_eq_distinct [of a b] assms by (simp add: distinct_map)

theorem treesEqual_correct_witness: "\<not> treesEqual makeDataset (editOneFile makeDataset)"
proof -
  have "length (text_encode ''name = snapvault\<newline>nodes = 5\<newline>replicas = 3\<newline>'')
      \<noteq> length (text_encode ''name = snapvault\<newline>nodes = 7\<newline>replicas = 3\<newline>changed = true\<newline>'')"
    by (simp add: demo_lengths)
  then have "mset makeDataset \<noteq> mset (editOneFile makeDataset)"
    by (auto simp: makeDataset_def editOneFile_def Let_def)
  moreover have "distinct (map sf_path (editOneFile makeDataset))"
    by (simp only: editOneFile_paths makeDataset_paths)
  ultimately show ?thesis using treesEqual_correct [OF makeDataset_paths] by blast
qed

text \<open>C9: the self-check passes: run on the demonstration data set it returns, all four verdicts
  are true, and the console shows a group with this title and these six lines.\<close>

theorem self_check_passes:
  "\<exists>r. runSelfCheck = Inr r \<and> sc_dedupOk r \<and> sc_incrementalOk r \<and> sc_survivedFailureOk r \<and> sc_cleanFailureOk r
    \<and> console_lines r =
      [''snapvault sim self-check'',
       ''snapshot v1: files=4 chunkRefs=27 new=14 deduped=13'',
       ''snapshot v2 (incremental): chunkRefs=27 new=1 deduped=26'',
       ''distributed v2: nodes=5 replicas=3 uniqueChunks=14 copies=42'',
       ''node 2 down; restore v2: verified=14/14 parallel=4 ok=true treeMatch=true'',
       ''all replicas of 1725686 down; restore failed cleanly: true (chunk unavailable: all replicas down)'',
       ''dedup: true | incremental: true | survived node failure: true | clean failure: true'']"
  by (simp add: self_check_result console_lines_def show_bool_def)

section \<open>The page\<close>

text \<open>C13: the hook of the page always has a model, and in every state that the user and the
  renders can reach, its queries return: the number of reachable chunks counts the chunks with
  a replica outside the set of failed nodes, the plan serves each chunk from the first such
  replica, and the integrity check is true, and the warning about lost chunks false, exactly when no chunk has lost all
  replicas.\<close>

theorem vault_queries:
  assumes "vault_reachable v"
  shows "(\<exists>v'. chunksUp v = Inr (length (filter (\<lambda>h. \<not> set (placementOf h v) \<subseteq> set (va_down v)) (uniqueHashes v)), v'))
    \<and> (\<exists>v'. vault_plan v = Inr (map (\<lambda>h. case find (\<lambda>n. n \<notin> set (va_down v)) (placementOf h v) of
             None \<Rightarrow> \<lparr>pf_hash = h, pf_node = -1, pf_available = False\<rparr>
           | Some n \<Rightarrow> \<lparr>pf_hash = h, pf_node = n, pf_available = True\<rparr>) (uniqueHashes v), v'))
    \<and> (\<exists>v'. restoreValid v = Inr ((\<forall>h \<in> set (uniqueHashes v). \<not> set (placementOf h v) \<subseteq> set (va_down v)), v'))
    \<and> (\<exists>v'. anyLost v = Inr ((\<exists>h \<in> set (uniqueHashes v). set (placementOf h v) \<subseteq> set (va_down v)), v'))"
proof -
  have ok: "vault_ok v" by (rule vault_reachable_ok [OF assms])
  have place: "placementOf h v = placement h demo_cluster" for h
    using ok unfolding placementOf_def by (intro placement_cong) (simp_all add: vault_ok_def demo_cluster_def)
  have lost: "lost v h \<longleftrightarrow> set (placementOf h v) \<subseteq> set (va_down v)" for h
    by (simp add: lost_def replicas_of_def place)
  show ?thesis
    using chunksUp_result [OF ok] vault_plan_result [OF ok] restoreValid_result [OF ok]
      anyLost_result [OF assms]
    by (auto simp: lost plan_for_def planned_def [abs_def] place uniqueHashes_same [OF ok])
qed

theorem vault_queries_witness: "\<exists>v. vault_reachable v \<and> (\<exists>r. chunksUp v = Inr r)"
proof -
  obtain v where "buildModel = Inr v" using build_returns by blast
  then have "vault_reachable (toggleNode 3 v)"
    by (intro vault_reachable_toggle vault_reachable.start)
  with vault_queries [OF this] show ?thesis by blast
qed

text \<open>Any two failed nodes are survived: whatever the user toggled, with at most two of the
  five nodes in the set the integrity check is true.\<close>

theorem two_failures_survived:
  assumes "vault_reachable v" "card (set (va_down v) \<inter> {0..<5}) \<le> 2"
  shows "\<exists>v'. restoreValid v = Inr (True, v')"
  using restoreValid_result [OF vault_reachable_ok [OF assms(1)]] two_down_safe [OF assms(2)] by simp

theorem two_failures_survived_witness:
  "\<exists>v v'. va_down v = [4, 1] \<and> restoreValid v = Inr (True, v')"
proof -
  obtain v where v: "buildModel = Inr v" using build_returns by blast
  then have reach: "vault_reachable (toggleNode 1 (toggleNode 4 v))"
    by (intro vault_reachable_toggle vault_reachable.start)
  have down: "va_down (toggleNode 1 (toggleNode 4 v)) = [4, 1]"
    using vault_ok_build [OF v] by (simp add: toggleNode_def set_add_def)
  then have "card (set (va_down (toggleNode 1 (toggleNode 4 v))) \<inter> {0..<5}) \<le> 2" by simp
  from two_failures_survived [OF reach this] down show ?thesis by blast
qed

text \<open>C10: a settled phase of the animated restore tells the truth: whenever no change of the
  failed nodes waits for its effect, the phase "done" means that the integrity check is true
  now and the phase "failed" that it is false; and the restore that checks every digest, run
  on the cluster as the check leaves it, succeeds in the one case and fails in the other.\<close>

theorem phase_truthful:
  assumes "page_reachable reduce p" "\<not> pg_dirty p" "rv_phase (pg_view p) \<in> {Done, Failed}"
  shows "\<exists>v. restoreValid (pg_vault p) = Inr (rv_phase (pg_view p) = Done, v)
    \<and> (rr_ok (restore (va_cluster v) (sr_manifest (va_v2 v)) 4) \<longleftrightarrow> rv_phase (pg_view p) = Done)"
proof -
  have ok: "page_ok p" by (rule page_reachable_ok [OF assms(1)])
  then have v: "vault_ok (pg_vault p)" by (simp add: page_ok_def)
  obtain v' where v': "restoreValid (pg_vault p) = Inr (rv_phase (pg_view p) = Done, v')"
    using page_settled [OF ok assms(2,3)] by blast
  with restoreValid_restore [OF v v'] show ?thesis by blast
qed

theorem phase_truthful_witness:
  "\<exists>(p :: page) v. rv_phase (pg_view p) = Done \<and> restoreValid (pg_vault p) = Inr (True, v)"
proof -
  obtain p where p: "page_reachable True p" "\<not> pg_dirty p" "rv_phase (pg_view p) = Done"
    using done_page by blast
  from phase_truthful [OF p(1,2)] p(3) show ?thesis by auto
qed

text \<open>C21: the panel of a successful run: all fourteen rows are verified, each naming a replica of
  its chunk that is up, the figures read 14/14, and the banner confirms the integrity.\<close>

theorem done_panel:
  assumes "page_reachable reduce p" "\<not> pg_dirty p" "rv_phase (pg_view p) = Done"
  shows "verified_count (pg_view p) = 14
    \<and> list_all2 (\<lambda>r h. \<exists>n \<in> set (placementOf h (pg_vault p)) - set (va_down (pg_vault p)).
          row_line r = \<lparr>ll_mark = Tick, ll_chip = take 7 h, ll_tone = Accent,
            ll_text = ''fetched from node '' @ js_show n @ '', hash verified''\<rparr>)
        (rv_rows (pg_view p)) (uniqueHashes (pg_vault p))
    \<and> (\<exists>figures v. restore_figures p = Inr (figures, v) \<and> map sta_value (tl figures) = [''14/14'', ''14/14'', ''4''])
    \<and> (\<exists>v. banner p = Inr (Some (done_banner 14 True), v))"
proof -
  have ok: "page_ok p" by (rule page_reachable_ok [OF assms(1)])
  then have v: "vault_ok (pg_vault p)" by (simp add: page_ok_def)
  have up: "\<not> lost (pg_vault p) h" if "h \<in> set (uniqueHashes (pg_vault p))" for h
    using page_settled [OF ok assms(2)] assms(3) restoreValid_result [OF v] that by auto
  then have "map row_line (rv_rows (pg_view p)) = map (\<lambda>h. \<lparr>ll_mark = Tick, ll_chip = take 7 h, ll_tone = Accent,
      ll_text = ''fetched from node '' @ js_show (pf_node (planned (va_down (pg_vault p)) h)) @ '', hash verified''\<rparr>)
      (uniqueHashes (pg_vault p))"
    using settled_lines [OF ok assms(2)] assms(3) by simp
  then have "list_all2 (\<lambda>r h. row_line r = \<lparr>ll_mark = Tick, ll_chip = take 7 h, ll_tone = Accent,
      ll_text = ''fetched from node '' @ js_show (pf_node (planned (va_down (pg_vault p)) h)) @ '', hash verified''\<rparr>)
      (rv_rows (pg_view p)) (uniqueHashes (pg_vault p))"
    by (rule list_all2_map_eq)
  then have "list_all2 (\<lambda>r h. \<exists>n \<in> set (placementOf h (pg_vault p)) - set (va_down (pg_vault p)).
          row_line r = \<lparr>ll_mark = Tick, ll_chip = take 7 h, ll_tone = Accent,
            ll_text = ''fetched from node '' @ js_show n @ '', hash verified''\<rparr>)
        (rv_rows (pg_view p)) (uniqueHashes (pg_vault p))"
    using up by (elim list.rel_mono_strong bexI) (simp add: planned_up replicas_vault [OF v])
  with page_done_rows(3) [OF ok assms(3)] figures_done [OF ok assms(2,3)] banner_done [OF ok assms(2,3)]
  show ?thesis by (elim exE conjE) (intro conjI exI, assumption+)
qed

theorem done_panel_witness: "\<exists>(p :: page) v. banner p = Inr (Some (done_banner 14 True), v)"
proof -
  obtain p where p: "page_reachable True p" "\<not> pg_dirty p" "rv_phase (pg_view p) = Done"
    using done_page by blast
  from done_panel [OF p] show ?thesis by blast
qed

text \<open>C29: the panel of a failed run: the banner of a clean abort, and a warning whose number is the
  number of rows marked unavailable, at least one.\<close>

theorem failed_panel:
  assumes "page_reachable reduce p" "\<not> pg_dirty p" "rv_phase (pg_view p) = Failed"
  shows "let k = length (filter (\<lambda>r. ll_mark (row_line r) = Cross) (rv_rows (pg_view p)))
    in 0 < k \<and> banner p = Inr (Some failed_banner, pg_vault p)
      \<and> (\<exists>v. lost_note (pg_vault p) = Inr (Some (js_show (int k)
            @ '' chunk(s) have lost every replica: restore will fail cleanly''), v))"
proof -
  have ok: "page_ok p" by (rule page_reachable_ok [OF assms(1)])
  then have v: "vault_ok (pg_vault p)" by (simp add: page_ok_def)
  have crosses: "length (filter (\<lambda>r. ll_mark (row_line r) = Cross) (rv_rows (pg_view p)))
      = length (filter (lost (pg_vault p)) (uniqueHashes (pg_vault p)))"
    using settled_crosses [OF ok assms(2)] assms(3) by simp
  obtain h where "h \<in> set (uniqueHashes (pg_vault p))" "lost (pg_vault p) h"
    using page_settled [OF ok assms(2)] assms(3) restoreValid_result [OF v] by auto
  then have "filter (lost (pg_vault p)) (uniqueHashes (pg_vault p)) \<noteq> []"
    by (auto simp: filter_empty_conv)
  with lost_note_result [OF v] assms(3) show ?thesis
    unfolding Let_def crosses by (auto simp: banner_def)
qed

theorem failed_panel_witness: "\<exists>p :: page. banner p = Inr (Some failed_banner, pg_vault p)"
proof -
  obtain p where p: "page_reachable True p" "\<not> pg_dirty p" "rv_phase (pg_view p) = Failed"
    using failed_page by blast
  from failed_panel [OF p] show ?thesis unfolding Let_def by blast
qed

text \<open>C27: a run settles, and in this order: row \<open>i\<close> is due in lane \<open>i\<close> modulo four of wave \<open>i\<close> divided by
  four, waves 150 and lanes 30 milliseconds apart, the end 200 milliseconds after the last wave
  (everything at once with reduced motion); the timers wait in the order of these delays. After
  \<open>k\<close> of them the run still goes on, the first \<open>k\<close> rows are resolved by their availability and the
  others pending; only after all rows, with one timer more, is the phase "done" when the whole
  plan was available and "failed" otherwise, with the rows of the plan and no timer left.\<close>

theorem run_terminates:
  "let n = length plan; start = run_view reduce plan w;
       ds = map (\<lambda>i. if reduce then 0 else i div 4 * 150 + i mod 4 * 30) [0..<n]
              @ [if reduce then 0 else (n + 3) div 4 * 150 + 200]
   in map fst (rv_timers start) = ds \<and> sorted ds
    \<and> (\<forall>k \<le> n. \<exists>w'. fire_times k start = Some w' \<and> rv_phase w' = Running
         \<and> list_all2 row_matches (rv_rows w') plan
         \<and> map fr_state (rv_rows w') =
             map (\<lambda>i. if i < k then if pf_available (plan ! i) then Verified else Unavailable else Pending) [0..<n])
    \<and> (\<exists>w'. fire_times (n + 1) start = Some w'
         \<and> rv_phase w' = (if list_all pf_available plan then Done else Failed) \<and> rv_timers w' = []
         \<and> list_all2 row_matches (rv_rows w') plan \<and> list_all resolved (rv_rows w'))"
proof -
  let ?n = "length plan" and ?start = "run_view reduce plan w"
  have delays: "map fst (rv_timers ?start) = map (row_delay reduce) [0..<?n] @ [settle_delay reduce ?n]"
    "sorted (map (row_delay reduce) [0..<?n] @ [settle_delay reduce ?n])"
    by (rule run_view_delays)+
  have row: "row_delay reduce = (\<lambda>i. if reduce then 0 else i div 4 * 150 + i mod 4 * 30)"
    by (rule ext) (simp add: row_delay_def PARALLEL_def Let_def add.commute)
  have settle: "settle_delay reduce ?n = (if reduce then 0 else (?n + 3) div 4 * 150 + 200)"
    by (simp add: settle_delay_def PARALLEL_def add.commute)
  have steps: "\<exists>w'. fire_times k ?start = Some w' \<and> rv_phase w' = Running \<and> list_all2 row_matches (rv_rows w') plan
      \<and> map fr_state (rv_rows w') =
          map (\<lambda>i. if i < k then if pf_available (plan ! i) then Verified else Unavailable else Pending) [0..<?n]"
    if "k \<le> ?n" for k
    using run_steps [OF that, of reduce w] by (simp add: rows_after_states run_view_phase)
  obtain w' where "fire_times (?n + 1) ?start = Some w'"
    "rv_phase w' = (if list_all pf_available plan then Done else Failed)" "view_ok plan w'"
    using run_settles by blast
  then have "\<exists>w'. fire_times (?n + 1) ?start = Some w'
      \<and> rv_phase w' = (if list_all pf_available plan then Done else Failed) \<and> rv_timers w' = []
      \<and> list_all2 row_matches (rv_rows w') plan \<and> list_all resolved (rv_rows w')"
    by (auto simp: view_ok_def split: if_splits)
  with delays [unfolded row settle] steps show ?thesis unfolding Let_def by blast
qed

theorem run_terminates_witness:
  "\<exists>w'. fire_times 1 (run_view False [\<lparr>pf_hash = ''a'', pf_node = 2, pf_available = True\<rparr>,
        \<lparr>pf_hash = ''b'', pf_node = -1, pf_available = False\<rparr>] init_view) = Some w'
      \<and> rv_phase w' = Running \<and> map fr_state (rv_rows w') = [Verified, Pending]"
proof -
  let ?plan = "[\<lparr>pf_hash = ''a'', pf_node = 2, pf_available = True\<rparr>, \<lparr>pf_hash = ''b'', pf_node = -1, pf_available = False\<rparr>]"
  have "\<exists>w'. fire_times 1 (run_view False ?plan init_view) = Some w' \<and> rv_phase w' = Running
      \<and> list_all2 row_matches (rv_rows w') ?plan
      \<and> map fr_state (rv_rows w') =
          map (\<lambda>i. if i < 1 then if pf_available (?plan ! i) then Verified else Unavailable else Pending) [0..<length ?plan]"
    by (rule run_terminates [of ?plan False init_view, unfolded Let_def,
        THEN conjunct2, THEN conjunct2, THEN conjunct1, rule_format]) simp
  then show ?thesis by (elim exE conjE) (intro exI conjI, assumption, assumption, simp)
qed



text \<open>C39: what the integrity check of the page does not see: with every copy on every node
  stripped of its bytes, the check still answers true, while a restore from the same cluster
  fails; it asks only whether each address is present on some node that is up.\<close>

theorem restoreValid_blind:
  assumes "buildModel = Inr v"
  shows "let v' = v\<lparr>va_cluster := corrupt_cluster (va_cluster v)\<rparr>
         in restoreValid v' = Inr (True, v') \<and> \<not> rr_ok (restore (va_cluster v') (sr_manifest (va_v2 v')) p)"
  using restoreValid_corrupt [OF assms] unfolding Let_def by (intro conjI)

theorem restoreValid_blind_witness:
  "\<exists>v. restoreValid v = Inr (True, v) \<and> \<not> rr_ok (restore (va_cluster v) (sr_manifest (va_v2 v)) 4)"
proof -
  obtain v where "buildModel = Inr v" using build_returns by blast
  from restoreValid_blind [OF this, of 4] show ?thesis unfolding Let_def by blast
qed

text \<open>The figures of the deduplication panel: the first snapshot reuses 48 percent of its
  references, the second 96; every chunk of the copied log is shown as reused; and the one
  edited chunk that the panel names is the new chunk of the settings file.\<close>

theorem page_figures:
  assumes "buildModel = Inr v"
  shows "dedupPct (sr_stats (current V1 v)) = Some 48 \<and> dedupPct (sr_stats (current V2 v)) = Some 96
    \<and> (\<exists>t. find (\<lambda>t. ft_path t = ''logs/app.log.bak'') (sr_trace (va_v1 v)) = Some t
          \<and> length (ft_chunks t) = 11 \<and> filter ct_isNew (ft_chunks t) = [])
    \<and> edited_chunk v = ''fcf82dcf5f27557a480ee9fd6c1b82226b980192318bc06a0c7a972cf8492814''"
  by (intro conjI dedup_figures [OF assms] copy_deduplicated [OF assms])
    (simp only: edited_chunk_build [OF assms] edited_hash)

theorem page_figures_witness: "\<exists>v. buildModel = Inr v \<and> dedupPct (sr_stats (current V2 v)) = Some 96"
proof -
  obtain v where "buildModel = Inr v" using build_returns by blast
  with page_figures [OF this] show ?thesis by blast
qed

text \<open>C30: the deduplication panel is consistent with the statistics: for a snapshot of files
  without a repeated path it has one row per file, in path order, with the size of the file;
  the cells marked new are as many as the new chunks, the others as the deduplicated ones,
  and the chunk counts of the rows add up to the number of references.\<close>

theorem dedup_panel:
  assumes "engine_reachable e" "distinct (map sf_path files)"
  shows "let r = fst (snapshot name files e); rows = file_rows r; cells = concat (map fw_cells rows)
    in map (\<lambda>row. (fw_path row, fw_size row)) rows
         = map (\<lambda>f. (sf_path f, Some (length (sf_data f)))) (sort_key sf_path files)
       \<and> length (filter cc_new cells) = st_newChunks (sr_stats r)
       \<and> length (filter (\<lambda>c. \<not> cc_new c) cells) = st_dedupedChunks (sr_stats r)
       \<and> sum_list (map fw_count rows) = st_chunks (sr_stats r)"
  using file_rows_files [OF assms(2)] file_rows_counts [OF engine_ok_store [OF reachable_ok [OF assms(1)]]]
  unfolding Let_def by blast

theorem dedup_panel_witness:
  "length (filter cc_new (concat (map fw_cells (file_rows (fst (snapshot ''v2'' (editOneFile makeDataset) engine1))))))
     = st_newChunks (sr_stats (fst (snapshot ''v2'' (editOneFile makeDataset) engine1)))"
proof -
  have "distinct (map sf_path (editOneFile makeDataset))"
    by (simp only: editOneFile_paths makeDataset_paths)
  from dedup_panel [OF engines_reachable(2) this, of "''v2''"] show ?thesis unfolding Let_def by blast
qed

text \<open>C18: every page that clicks, effects, timers and renders lead to is rendered without an error,
  and the tree is well formed: ids are distinct, every label and link into the page has its
  target, and the keys of each list of children are distinct.\<close>

theorem page_well_formed:
  assumes "app_reachable reduce a"
  shows "\<exists>t v. app_view reduce a = Inr (t, v) \<and> well_formed t"
  by (rule app_well_formed [OF assms])

theorem page_well_formed_witness:
  "\<exists>v t w. buildModel = Inr v \<and> app_view False (init_app v) = Inr (t, w) \<and> well_formed t"
proof -
  obtain v where v: "buildModel = Inr v" using build_returns by blast
  from page_well_formed [OF app_reachable.start [OF v], of False] v show ?thesis by blast
qed

text \<open>C19: what a user can do: the page offers a switch for each of the five nodes, the recovery, the
  two snapshots, every chunk of the second snapshot, and the restore unless one is running;
  each of them succeeds and leads to a page that satisfies this again.\<close>

theorem page_actions:
  assumes "app_reachable reduce a" "app_view reduce a = Inr (t, v)"
  shows "set (clicks t) =
      {ShowSnap V1, ShowSnap V2, RecoverNodes} \<union> SelectChunk ` set (uniqueHashes (pg_vault (ap_page a)))
        \<union> ToggleNode ` {0..<5} \<union> (if rv_phase (pg_view (ap_page a)) = Running then {} else {RunRestore})
    \<and> (\<forall>act \<in> set (clicks t). \<exists>a'. perform reduce act (a\<lparr>ap_page := (ap_page a)\<lparr>pg_vault := v\<rparr>\<rparr>) = Inr a'
         \<and> app_reachable reduce a' \<and> ap_selected a' \<in> set (uniqueHashes (pg_vault (ap_page a'))))"
proof -
  let ?a = "a\<lparr>ap_page := (ap_page a)\<lparr>pg_vault := v\<rparr>\<rparr>"
  have p: "page_reachable reduce (ap_page a)" using app_reachable_page [OF assms(1)] by blast
  have returns: "\<exists>a'. perform reduce act ?a = Inr a'" for act
    using perform_returns [of reduce ?a act] app_view_reachable [OF p assms(2)] by simp
  have "app_reachable reduce a'" if "act \<in> set (clicks t)" "perform reduce act ?a = Inr a'" for act a'
    using app_reachable.step [OF assms(1) app_step.click [OF assms(2) that]] .
  with returns app_clicks [OF p assms(2)] app_reachable_page show ?thesis by blast
qed

theorem page_actions_witness:
  "\<exists>v t w. buildModel = Inr v \<and> app_view False (init_app v) = Inr (t, w) \<and> RunRestore \<in> set (clicks t)"
proof -
  obtain v where v: "buildModel = Inr v" using build_returns by blast
  from app_well_formed [OF app_reachable.start [OF v], of False] obtain t w where
    view: "app_view False (init_app v) = Inr (t, w)" by blast
  from page_actions [OF app_reachable.start [OF v] view] have "RunRestore \<in> set (clicks t)"
    by (simp add: init_app_def init_view_def)
  with v view show ?thesis by blast
qed

text \<open>C12: what the page shows of a run, at every moment and with whatever nodes down: the good banner
  exactly in the phase done, confirming the integrity exactly when the verified restore on the
  cluster behind the page succeeds; the bad banner exactly in the phase failed.\<close>

theorem page_banner:
  assumes "app_reachable reduce a" "app_view reduce a = Inr (t, v)"
  shows "map text_content (by_class good_banner t) =
      (if rv_phase (pg_view (ap_page a)) = Done
       then [done_banner 14 (rr_ok (restore (va_cluster v) (sr_manifest (va_v2 v)) n))] else [])
    \<and> map text_content (by_class bad_banner t) =
      (if rv_phase (pg_view (ap_page a)) = Failed then [failed_banner] else [])"
  using app_banners [OF assms] by blast

theorem page_banner_witness:
  "\<exists>a t v. app_reachable False a \<and> app_view False a = Inr (t, v) \<and> map text_content (by_class good_banner t) =
     [done_banner 14 (rr_ok (restore (va_cluster v) (sr_manifest (va_v2 v)) 4))]"
proof -
  obtain a where a: "app_reachable False a" "rv_phase (pg_view (ap_page a)) = Done" using done_app by blast
  then obtain t v where view: "app_view False a = Inr (t, v)" using app_well_formed by blast
  from page_banner [OF a(1) view, of 4] a view show ?thesis by auto
qed

text \<open>C11: the page refines an abstract machine: a set of failed nodes, a flag for the effect that is
  still to run, and a run that rests, counts down its fifteen timers, or has settled. The
  outcome of a run is decided when it starts, by whether every chunk has a replica outside the
  failed nodes of that moment; the reset after a change of the nodes ends it.\<close>

theorem page_refines:
  assumes "app_reachable reduce a"
  shows "rtranclp machine_step machine_start (machine_of a)
    \<and> (\<forall>a'. app_step reduce a a' \<longrightarrow> machine_step (machine_of a) (machine_of a'))"
  using app_machine [OF assms] app_refines [OF assms] by blast

theorem page_refines_witness:
  "\<exists>a. app_reachable False a \<and> am_run (machine_of a) = Settled True
     \<and> rtranclp machine_step machine_start (machine_of a)"
proof -
  obtain a where a: "app_reachable False a" "rv_phase (pg_view (ap_page a)) = Done" using done_app by blast
  with page_refines [OF a(1)] show ?thesis by (auto simp: machine_of_def run_of_def)
qed

text \<open>C20: rendering is repeatable although it switches nodes of the one cluster: however many more
  times React calls the two components that query the vault before it shows them (once, in
  development, under the \<open>StrictMode\<close> of main.tsx), the page shown and the state left are those of
  a single render, and rendering the state that is left gives the same page.\<close>

theorem render_twice:
  assumes "app_reachable reduce a" "app_view reduce a = Inr (t, v)"
  shows "repeated_view i j reduce a = Inr (t, v)
    \<and> app_view reduce (a\<lparr>ap_page := (ap_page a)\<lparr>pg_vault := v\<rparr>\<rparr>) = Inr (t, v)"
  using repeated_same [OF assms(1)] assms(2) by simp

theorem render_twice_witness:
  "\<exists>v t w. buildModel = Inr v \<and> app_view False (init_app v) = Inr (t, w) \<and> repeated_view 1 1 False (init_app v) = Inr (t, w)"
proof -
  obtain v where v: "buildModel = Inr v" using build_returns by blast
  from app_well_formed [OF app_reachable.start [OF v], of False] obtain t w where
    view: "app_view False (init_app v) = Inr (t, w)" by blast
  from render_twice [OF app_reachable.start [OF v] view, of 1 1] v view show ?thesis by blast
qed

section \<open>Numbers and digests\<close>

text \<open>C35: the sums that sha256.ts forms before it cuts them to 32 bits are exact: in a round on
  32-bit working variables, constant and word, both sums, and their sum, are safe integers of
  a double, the round gives 32-bit variables again, and so is the sum of the schedule.\<close>

theorem sha_sums_exact:
  assumes "u32_regs (a, b, c, d, e, f, g, h)" "0 \<le> k" "k < 2 ^ 32" "0 \<le> w" "w < 2 ^ 32"
    and "\<forall>x \<in> set ws. 0 \<le> x \<and> x < 2 ^ 32" "16 \<le> i" "i < length ws"
  shows "safe_integer (t1_sum k w e f g h) \<and> safe_integer (t2_sum a b c)
    \<and> safe_integer (ToUint32 (t1_sum k w e f g h) + ToUint32 (t2_sum a b c))
    \<and> safe_integer (d + ToUint32 (t1_sum k w e f g h)) \<and> safe_integer (schedule_sum ws i)
    \<and> u32_regs (sha_round k w (a, b, c, d, e, f, g, h))"
proof -
  have regs: "0 \<le> h" "h < 2 ^ 32" "0 \<le> d" "d < 2 ^ 32"
    using assms(1) by (simp_all add: u32_regs_def)
  have "\<bar>t1_sum k w e f g h\<bar> < 2 ^ 34" by (rule t1_sum_bound) (use regs assms in auto)
  moreover have "\<bar>t2_sum a b c\<bar> \<le> 2 ^ 32" by (rule t2_sum_bound)
  moreover have "\<bar>schedule_sum ws i\<bar> < 2 ^ 34" by (rule schedule_sum_bound) (use assms in auto)
  ultimately show ?thesis
    using ToUint32_range [of "t1_sum k w e f g h"] ToUint32_range [of "t2_sum a b c"] regs
      u32_regs_sha_round [OF assms(1)]
    by (simp add: safe_integer_def abs_le_iff abs_less_iff)
qed

theorem sha_sums_exact_witness:
  "safe_integer (t1_sum (2 ^ 32 - 1) (2 ^ 32 - 1) 1 1 1 (2 ^ 32 - 1))
   \<and> safe_integer (schedule_sum (replicate 64 (2 ^ 32 - 1)) 63)"
  using sha_sums_exact [of 1 1 1 1 1 1 1 "2 ^ 32 - 1" "2 ^ 32 - 1" "2 ^ 32 - 1" "replicate 64 (2 ^ 32 - 1)" 63]
  by (simp add: u32_regs_def)

text \<open>C36: the tables of sha256.ts are the constants of the standard: the entries of \<open>K\<close> are the
  first 32 bits of the fractional parts of the cube roots of the first 64 primes, the initial
  values those of the square roots of the first 8.\<close>

theorem sha_constants:
  "list_all2 (\<lambda>p f. root_fraction 3 p (root_floor 3 p) f) first_primes K \<and> length K = 64
   \<and> list_all2 (\<lambda>p f. root_fraction 2 p (root_floor 2 p) f) (take 8 first_primes) (regs_list sha_init)"
  by (intro conjI K_fractions sha_init_fractions) (simp add: K_def)

end
